(* ===== verification/Prelude.thy ===== *)
theory Prelude
  imports Main "HOL-Library.Multiset"
begin

text \<open>
  What every component shares: the collection of facts the component proofs
  are driven by, the decimal printing of \<open>fmt.Sprintf("%d")\<close> with its inverse,
  lemmas on two-element arrays (\<open>[2]*Player\<close>, \<open>[2]string\<close>), and the in-place
  slice idioms of Go (removal of one index, swapping two indices).
\<close>

named_theorems two_players \<open>case analysis for the index of a two-element array\<close>

section \<open>Two-element arrays\<close>

lemma less_two: "i < (2::nat) \<longleftrightarrow> i = 0 \<or> i = Suc 0"
  by auto

lemma all_less_two [two_players]: "(\<forall>i<(2::nat). P i) \<longleftrightarrow> P 0 \<and> P (Suc 0)"
  by (auto simp: less_two)

lemma other_less_two [simp, intro]: "Suc 0 - i < (2::nat)"
  by simp

lemma other_neq [simp]: "i < (2::nat) \<Longrightarrow> Suc 0 - i \<noteq> i"
  by (auto simp: less_two)

lemma other_other [simp]: "i < (2::nat) \<Longrightarrow> Suc 0 - (Suc 0 - i) = i"
  by (auto simp: less_two)

lemma two_cases: "i < (2::nat) \<Longrightarrow> j < 2 \<Longrightarrow> j = i \<or> j = Suc 0 - i"
  by (auto simp: less_two)

lemma length_two: "length xs = 2 \<longleftrightarrow> (\<exists>a b. xs = [a, b])"
  by (auto simp: numeral_2_eq_2 length_Suc_conv)

lemma length_twoE:
  assumes "length xs = 2" obtains a b where "xs = [a, b]"
  using assms by (auto simp: length_two)

section \<open>Decimal printing\<close>

definition digit :: "nat \<Rightarrow> char" where
  "digit n = char_of (48 + n)"

fun show_nat :: "nat \<Rightarrow> string" where
  "show_nat n = (if n < 10 then [digit n] else show_nat (n div 10) @ [digit (n mod 10)])"

declare show_nat.simps [simp del]

definition show_int :: "int \<Rightarrow> string" where
  "show_int i = (if i < 0 then CHR ''-'' # show_nat (nat (- i)) else show_nat (nat i))"

definition show_bool :: "bool \<Rightarrow> string" where
  "show_bool b = (if b then ''true'' else ''false'')"

text \<open>\<open>read_nat\<close> is the left inverse of \<open>show_nat\<close>, so printing is injective.\<close>

definition read_nat :: "string \<Rightarrow> nat" where
  "read_nat s = foldl (\<lambda>a c. 10 * a + (of_char c - 48)) 0 s"

lemma read_nat_snoc [simp]: "read_nat (s @ [c]) = 10 * read_nat s + (of_char c - 48)"
  by (simp add: read_nat_def)

lemma of_char_digit [simp]: "n < 10 \<Longrightarrow> of_char (digit n) = (48 + n :: nat)"
  by (simp add: digit_def)

lemma read_show_nat [simp]: "read_nat (show_nat n) = n"
proof (induction n rule: show_nat.induct)
  case (1 n)
  show ?case
  proof (cases "n < 10")
    case True
    then show ?thesis
      by (subst show_nat.simps) (simp add: read_nat_def)
  next
    case False
    with 1 show ?thesis by (subst show_nat.simps) simp
  qed
qed

lemma show_nat_inject [simp]: "show_nat m = show_nat n \<longleftrightarrow> m = n"
  by (metis read_show_nat)

lemma show_nat_nonempty [simp]: "show_nat n \<noteq> []"
  by (subst show_nat.simps) simp

lemma hd_show_nat: "48 \<le> (of_char (hd (show_nat n)) :: nat) \<and> (of_char (hd (show_nat n)) :: nat) < 58"
proof (induction n rule: show_nat.induct)
  case (1 n)
  then show ?case by (subst (1 2) show_nat.simps) (auto simp: hd_append)
qed

section \<open>Slices\<close>

text \<open>\<open>append(xs[:i], xs[i+1:]...)\<close>: the slice without the element at \<open>i\<close>.\<close>

definition remove_at :: "nat \<Rightarrow> 'a list \<Rightarrow> 'a list" where
  "remove_at i xs = take i xs @ drop (Suc i) xs"

lemma length_remove_at: "i < length xs \<Longrightarrow> Suc (length (remove_at i xs)) = length xs"
  by (simp add: remove_at_def)

lemma mset_remove_at: "i < length xs \<Longrightarrow> add_mset (xs ! i) (mset (remove_at i xs)) = mset xs"
  by (metis id_take_nth_drop mset.simps(2) mset_append remove_at_def union_mset_add_mset_right)

text \<open>\<open>d[i], d[j] = d[j], d[i]\<close>.\<close>

definition swap_at :: "nat \<times> nat \<Rightarrow> 'a list \<Rightarrow> 'a list" where
  "swap_at ij d = (let (i, j) = ij in d[i := d ! j, j := d ! i])"

lemma length_swap_at [simp]: "length (swap_at ij d) = length d"
  by (cases ij) (simp add: swap_at_def)

lemma mset_swap_at: "fst ij < length d \<Longrightarrow> snd ij < length d \<Longrightarrow> mset (swap_at ij d) = mset d"
  by (cases ij) (simp add: swap_at_def mset_swap)

lemma fold_swap_at:
  assumes "\<forall>ij \<in> set sw. fst ij < length d \<and> snd ij < length d"
  shows "mset (fold swap_at sw d) = mset d \<and> length (fold swap_at sw d) = length d"
  using assms
proof (induction sw arbitrary: d)
  case Nil
  then show ?case by simp
next
  case (Cons ij sw)
  then have "mset (fold swap_at sw (swap_at ij d)) = mset (swap_at ij d)"
    and "length (fold swap_at sw (swap_at ij d)) = length (swap_at ij d)"
    using Cons.IH [of "swap_at ij d"] by auto
  with Cons.prems show ?case by (simp add: mset_swap_at)
qed

text \<open>\<open>indexOfString\<close>-like searches: the first index whose element satisfies \<open>P\<close>.\<close>

fun index_from :: "('a \<Rightarrow> bool) \<Rightarrow> nat \<Rightarrow> 'a list \<Rightarrow> nat option" where
  "index_from P k [] = None"
| "index_from P k (x # xs) = (if P x then Some k else index_from P (Suc k) xs)"

lemma index_from_Some:
  "index_from P k xs = Some i \<Longrightarrow>
     k \<le> i \<and> i - k < length xs \<and> P (xs ! (i - k)) \<and> (\<forall>j < i - k. \<not> P (xs ! j))"
proof (induction xs arbitrary: k)
  case Nil
  then show ?case by simp
next
  case (Cons x xs)
  show ?case
  proof (cases "P x")
    case True
    with Cons.prems show ?thesis by simp
  next
    case False
    with Cons.prems have "index_from P (Suc k) xs = Some i" by simp
    from Cons.IH [OF this] False show ?thesis
      by (auto simp: nth_Cons' Suc_diff_Suc less_Suc_eq_le Suc_le_eq)
  qed
qed

lemma index_from_None: "index_from P k xs = None \<longleftrightarrow> (\<forall>x \<in> set xs. \<not> P x)"
  by (induction xs arbitrary: k) auto

lemma index_from_0_Some:
  assumes "index_from P 0 xs = Some i"
  shows "i < length xs" and "P (xs ! i)" and "j < i \<Longrightarrow> \<not> P (xs ! j)"
  using index_from_Some [OF assms] by auto

lemma index_from_exists: "x \<in> set xs \<Longrightarrow> P x \<Longrightarrow> \<exists>i. index_from P k xs = Some i"
  using index_from_None [of P k xs] by (cases "index_from P k xs") auto

end
