(* ===== verification/Deck.thy ===== *)
theory Deck
  imports Prelude
begin

text \<open>
  Package \<open>internal/deck\<close> (\<open>deck.go\<close>): the card table and the validation of
  decks. \<open>Load\<close> takes the two calls it makes to the outside, \<open>os.ReadFile\<close> and
  \<open>yaml.Unmarshal\<close>, as arguments. An error is a value that names the branch and
  carries what the message prints.
\<close>

section \<open>Cards and catalogs\<close>

definition TypeMinion :: string where "TypeMinion = ''minion''"
definition TypeSpell :: string where "TypeSpell = ''spell''"

lemma TypeMinion_neq_TypeSpell [simp]: "TypeMinion \<noteq> TypeSpell" "TypeSpell \<noteq> TypeMinion"
  by (simp_all add: TypeMinion_def TypeSpell_def)

record Card =
  cID :: string
  cName :: string
  cType :: string
  cCost :: int
  cAtk :: int
  cHP :: int
  cDamage :: int
  cHeal :: int

record Deck =
  dOwner :: string
  dCards :: "string list"

record Catalog =
  byId :: "string \<rightharpoonup> Card"
  order :: "string list"

datatype CardErr =
    EmptyId
  | EmptyName
  | NegativeCost int
  | MinionHP int
  | NegativeAtk int
  | SpellNoEffect
  | BadType string

datatype LoadErr =
    ReadErr string string
  | ParseErr string
  | BadCard nat string CardErr
  | DuplicateId nat string
  | EmptyTable string

text \<open>\<open>validateCard\<close>: \<open>None\<close> is a nil error; the position printed is \<open>i + 1\<close>.\<close>

definition validateCard :: "nat \<Rightarrow> Card \<Rightarrow> LoadErr option" where
  "validateCard i cd =
     (let bad = (\<lambda>e. Some (BadCard (i + 1) (cID cd) e)) in
      if cID cd = [] then bad EmptyId
      else if cName cd = [] then bad EmptyName
      else if cCost cd < 0 then bad (NegativeCost (cCost cd))
      else if cType cd = TypeMinion then
        (if cHP cd \<le> 0 then bad (MinionHP (cHP cd))
         else if cAtk cd < 0 then bad (NegativeAtk (cAtk cd))
         else None)
      else if cType cd = TypeSpell then
        (if cDamage cd = 0 \<and> cHeal cd = 0 then bad SpellNoEffect else None)
      else bad (BadType (cType cd)))"

fun loadCards :: "nat \<Rightarrow> Card list \<Rightarrow> Catalog \<Rightarrow> LoadErr + Catalog" where
  "loadCards i [] c = Inr c"
| "loadCards i (cd # cards) c =
     (case validateCard i cd of
        Some e \<Rightarrow> Inl e
      | None \<Rightarrow>
          (if byId c (cID cd) \<noteq> None then Inl (DuplicateId (i + 1) (cID cd))
           else loadCards (i + 1) cards
                  (c\<lparr>byId := (byId c)(cID cd \<mapsto> cd), order := order c @ [cID cd]\<rparr>)))"

definition emptyCatalog :: Catalog where
  "emptyCatalog = \<lparr>byId = Map.empty, order = []\<rparr>"

definition Load ::
  "(string \<Rightarrow> string + string) \<Rightarrow> (string \<Rightarrow> string + Card list) \<Rightarrow> string \<Rightarrow> LoadErr + Catalog" where
  "Load readFile unmarshal path =
     (case readFile path of
        Inl e \<Rightarrow> Inl (ReadErr path e)
      | Inr raw \<Rightarrow>
          (case unmarshal raw of
             Inl e \<Rightarrow> Inl (ParseErr e)
           | Inr cards \<Rightarrow>
               (case loadCards 0 cards emptyCatalog of
                  Inl e \<Rightarrow> Inl e
                | Inr c \<Rightarrow> if length (order c) = 0 then Inl (EmptyTable path) else Inr c)))"

definition Get :: "Catalog \<Rightarrow> string \<Rightarrow> Card option" where
  "Get c i = byId c i"

definition Has :: "Catalog \<Rightarrow> string \<Rightarrow> bool" where
  "Has c i = (case byId c i of None \<Rightarrow> False | Some _ \<Rightarrow> True)"

definition IDs :: "Catalog \<Rightarrow> string list" where
  "IDs c = [] @ order c"

definition Len :: "Catalog \<Rightarrow> nat" where
  "Len c = length (order c)"

section \<open>Deck validation\<close>

datatype DeckErr =
    CatalogNil
  | DeckSize nat
  | UnknownCard string
  | TooManyCopies string

fun checkCopies :: "Catalog \<Rightarrow> (string \<Rightarrow> nat) \<Rightarrow> string list \<Rightarrow> DeckErr option" where
  "checkCopies c cnt [] = None"
| "checkCopies c cnt (i # is) =
     (if \<not> Has c i then Some (UnknownCard i)
      else let cnt' = cnt(i := cnt i + 1) in
           if cnt' i > 2 then Some (TooManyCopies i) else checkCopies c cnt' is)"

definition ValidateDeck :: "Catalog option \<Rightarrow> Deck \<Rightarrow> DeckErr option" where
  "ValidateDeck cat d =
     (case cat of
        None \<Rightarrow> Some CatalogNil
      | Some c \<Rightarrow>
          (let n = length (dCards d) in
           if n < 8 \<or> n > 12 then Some (DeckSize n)
           else checkCopies c (\<lambda>_. 0) (dCards d)))"

section \<open>What a card and a catalog promise\<close>

text \<open>The declarative reading of \<open>validateCard\<close>.\<close>

definition valid_card :: "Card \<Rightarrow> bool" where
  "valid_card cd \<longleftrightarrow>
     cID cd \<noteq> [] \<and> cName cd \<noteq> [] \<and> 0 \<le> cCost cd \<and>
     (cType cd = TypeMinion \<and> 0 < cHP cd \<and> 0 \<le> cAtk cd \<or>
      cType cd = TypeSpell \<and> (cDamage cd \<noteq> 0 \<or> cHeal cd \<noteq> 0))"

lemma validateCard_None [simp]: "validateCard i cd = None \<longleftrightarrow> valid_card cd"
  by (auto simp: validateCard_def valid_card_def Let_def)

lemma validateCard_valid [simp]: "valid_card cd \<Longrightarrow> validateCard i cd = None"
  by simp

definition wf_catalog :: "Catalog \<Rightarrow> bool" where
  "wf_catalog c \<longleftrightarrow>
     distinct (order c) \<and> (\<forall>i. i \<in> set (order c) \<longleftrightarrow> byId c i \<noteq> None) \<and>
     (\<forall>i cd. byId c i = Some cd \<longrightarrow> cID cd = i \<and> valid_card cd)"

lemma wf_catalog_empty [simp]: "wf_catalog emptyCatalog"
  by (simp add: wf_catalog_def emptyCatalog_def)

lemma wf_catalog_add:
  assumes "wf_catalog c" and "valid_card cd" and "byId c (cID cd) = None"
  shows "wf_catalog (c\<lparr>byId := (byId c)(cID cd \<mapsto> cd), order := order c @ [cID cd]\<rparr>)"
  using assms by (auto simp: wf_catalog_def domIff)

text \<open>
  The interface of a catalog, as the battle rules, the deck validation and the
  server's default deck use it.
\<close>

locale card_catalog =
  fixes get :: "'c \<Rightarrow> string \<Rightarrow> Card option"
    and has :: "'c \<Rightarrow> string \<Rightarrow> bool"
    and ids :: "'c \<Rightarrow> string list"
    and invar :: "'c \<Rightarrow> bool"
  assumes has_get: "invar c \<Longrightarrow> has c i \<longleftrightarrow> get c i \<noteq> None"
    and get_valid: "invar c \<Longrightarrow> get c i = Some cd \<Longrightarrow> cID cd = i \<and> valid_card cd"
    and ids_dom: "invar c \<Longrightarrow> i \<in> set (ids c) \<longleftrightarrow> get c i \<noteq> None"
    and ids_distinct: "invar c \<Longrightarrow> distinct (ids c)"
begin

lemma get_id: "invar c \<Longrightarrow> get c i = Some cd \<Longrightarrow> cID cd = i"
  using get_valid by blast

lemma get_cost: "invar c \<Longrightarrow> get c i = Some cd \<Longrightarrow> 0 \<le> cCost cd"
  using get_valid by (auto simp: valid_card_def)

lemma get_minion:
  "invar c \<Longrightarrow> get c i = Some cd \<Longrightarrow> cType cd = TypeMinion \<Longrightarrow> 0 < cHP cd \<and> 0 \<le> cAtk cd"
  using get_valid by (fastforce simp: valid_card_def)

lemma has_ids: "invar c \<Longrightarrow> has c i \<longleftrightarrow> i \<in> set (ids c)"
  by (simp add: has_get ids_dom)

lemma get_nonempty_id: "invar c \<Longrightarrow> get c [] = None"
  using get_valid [of c "[]"] by (cases "get c []") (auto simp: valid_card_def)

end

interpretation catalog: card_catalog Get Has IDs wf_catalog
  by unfold_locales
    (auto simp: Get_def Has_def IDs_def wf_catalog_def dom_def split: option.splits)

section \<open>Loading\<close>

lemma loadCards_Inr:
  "loadCards i cards c = Inr c' \<Longrightarrow>
     order c' = order c @ map cID cards \<and>
     (\<forall>cd \<in> set cards. valid_card cd \<and> byId c (cID cd) = None) \<and>
     distinct (map cID cards) \<and>
     byId c' = (byId c)(map cID cards [\<mapsto>] cards)"
proof (induction i cards c rule: loadCards.induct)
  case (2 i cd cards c)
  let ?c = "c\<lparr>byId := (byId c)(cID cd \<mapsto> cd), order := order c @ [cID cd]\<rparr>"
  from 2(2) have ok: "valid_card cd" "byId c (cID cd) = None"
    and rest: "loadCards (i + 1) cards ?c = Inr c'"
    by (auto split: option.splits if_splits)
  have upd: "byId ?c = (byId c)(cID cd \<mapsto> cd)" by simp
  have "validateCard i cd = None" and "\<not> byId c (cID cd) \<noteq> None"
    using ok by simp_all
  note IH_all = 2(1) [OF this rest]
  have IH: "order c' = order ?c @ map cID cards"
    "\<forall>x \<in> set cards. valid_card x \<and> byId ?c (cID x) = None"
    "distinct (map cID cards)" "byId c' = (byId ?c)(map cID cards [\<mapsto>] cards)"
    using IH_all by (blast+)
  from IH(2) have "\<forall>x \<in> set cards. valid_card x \<and> byId c (cID x) = None \<and> cID x \<noteq> cID cd"
    by (auto split: if_splits)
  moreover from IH(4) have "byId c' = (byId c)(map cID (cd # cards) [\<mapsto>] cd # cards)"
    unfolding upd by (simp only: list.map map_upds_Cons)
  moreover from IH(1) have "order c' = order c @ map cID (cd # cards)" by simp
  moreover from calculation(1) IH(3) have "distinct (map cID (cd # cards))" by auto
  ultimately show ?case using ok by simp
qed simp

lemma Load_Inr:
  "Load readFile unmarshal path = Inr c \<longleftrightarrow>
     (\<exists>raw cards. readFile path = Inr raw \<and> unmarshal raw = Inr cards \<and>
        loadCards 0 cards emptyCatalog = Inr c \<and> order c \<noteq> [])"
  by (auto simp: Load_def split: sum.splits)

lemma loadCards_wf:
  "loadCards i cards c = Inr c' \<Longrightarrow> wf_catalog c \<Longrightarrow> wf_catalog c'"
proof (induction i cards c rule: loadCards.induct)
  case (2 i cd cards c)
  then show ?case by (auto split: option.splits if_splits intro: wf_catalog_add)
qed simp

lemma loadCards_complete:
  assumes "\<forall>cd \<in> set cards. valid_card cd" and "distinct (map cID cards)"
    and "\<forall>cd \<in> set cards. byId c (cID cd) = None"
  shows "\<exists>c'. loadCards i cards c = Inr c'"
  using assms
proof (induction i cards c rule: loadCards.induct)
  case (2 i cd cards c)
  then have "\<exists>c'. loadCards (i + 1) cards
      (c\<lparr>byId := (byId c)(cID cd \<mapsto> cd), order := order c @ [cID cd]\<rparr>) = Inr c'"
    using 2(2-4) by (intro 2(1)) (auto simp: image_iff)
  with 2(2,4) show ?case by simp
qed simp

text \<open>The copies loop against the multiset of the deck.\<close>

lemma checkCopies_None:
  assumes "\<forall>i. cnt i \<le> 2"
  shows "checkCopies c cnt is = None \<longleftrightarrow>
           (\<forall>i \<in> set is. Has c i \<and> cnt i + count_list is i \<le> 2)"
  using assms
proof (induction c cnt "is" rule: checkCopies.induct)
  case (2 c cnt i "is")
  show ?case
  proof (cases "Has c i \<and> cnt i + 1 \<le> 2")
    case False
    then show ?thesis by (auto simp: Let_def)
  next
    case True
    let ?cnt = "cnt(i := cnt i + 1)"
    have IH: "checkCopies c ?cnt is = None \<longleftrightarrow>
        (\<forall>j \<in> set is. Has c j \<and> ?cnt j + count_list is j \<le> 2)"
      using True 2(2) by (intro 2(1)) auto
    have "count_list is i = 0 \<or> i \<in> set is"
      by (simp add: count_list_0_iff)
    have step: "checkCopies c cnt (i # is) = checkCopies c ?cnt is"
      using True by (simp add: Let_def)
    have "checkCopies c cnt (i # is) = None \<longleftrightarrow>
        (\<forall>j \<in> set is. Has c j \<and> ?cnt j + count_list is j \<le> 2)"
      by (simp only: step IH)
    also have "\<dots> \<longleftrightarrow> (\<forall>j \<in> set (i # is). Has c j \<and> cnt j + count_list (i # is) j \<le> 2)"
      using True \<open>count_list is i = 0 \<or> i \<in> set is\<close> by auto
    finally show ?thesis .
  qed
qed simp

lemma checkCopies_start:
  "checkCopies c (\<lambda>_. 0) is = None \<longleftrightarrow> (\<forall>i \<in> set is. Has c i \<and> count_list is i \<le> 2)"
  by (subst checkCopies_None) auto

text \<open>The errors of the copies loop name the first offending card.\<close>

lemma checkCopies_error:
  assumes "checkCopies c cnt is = Some e"
  shows "(\<exists>i \<in> set is. e = UnknownCard i \<and> \<not> Has c i) \<or>
         (\<exists>i \<in> set is. e = TooManyCopies i \<and> Has c i \<and> 2 < cnt i + count_list is i)"
  using assms
proof (induction c cnt "is" rule: checkCopies.induct)
  case (2 c cnt i "is")
  show ?case
  proof (cases "Has c i \<and> cnt i + 1 \<le> 2")
    case False
    with 2(2) show ?thesis by (auto simp: Let_def split: if_splits)
  next
    case True
    let ?cnt = "cnt(i := cnt i + 1)"
    have err: "checkCopies c ?cnt is = Some e"
      using True 2(2) by (simp add: Let_def)
    have "(\<exists>j \<in> set is. e = UnknownCard j \<and> \<not> Has c j) \<or>
         (\<exists>j \<in> set is. e = TooManyCopies j \<and> Has c j \<and> 2 < ?cnt j + count_list is j)"
      by (rule 2(1) [OF _ refl _ err]) (use True in auto)
    then show ?thesis by (auto split: if_splits)
  qed
qed simp

section \<open>Properties\<close>

text \<open>
  \<open>Load\<close> accepts exactly the card files that can be read and parsed, are not
  empty, whose cards all pass \<open>validateCard\<close> and have distinct ids.
\<close>
theorem Load_accepts_iff:
  "(\<exists>c. Load readFile unmarshal path = Inr c) \<longleftrightarrow>
     (\<exists>raw cards. readFile path = Inr raw \<and> unmarshal raw = Inr cards \<and> cards \<noteq> [] \<and>
        list_all valid_card cards \<and> distinct (map cID cards))"
proof -
  have "(\<exists>c. loadCards 0 cards emptyCatalog = Inr c \<and> order c \<noteq> []) \<longleftrightarrow>
      cards \<noteq> [] \<and> list_all valid_card cards \<and> distinct (map cID cards)" for cards
    using loadCards_Inr [of 0 cards emptyCatalog] loadCards_complete [of cards emptyCatalog 0]
    by (fastforce simp: emptyCatalog_def list_all_iff)
  then show ?thesis unfolding Load_Inr by metis
qed

text \<open>
  C40. A loaded catalog is well formed: ids in file order, without duplicates, every
  id bound to the card of the file with that id, which is valid.
\<close>
theorem Load_catalog:
  assumes "Load readFile unmarshal path = Inr c"
  shows "wf_catalog c \<and> (\<exists>raw cards. readFile path = Inr raw \<and> unmarshal raw = Inr cards \<and>
           IDs c = map cID cards \<and> Len c = length cards \<and> 0 < Len c \<and>
           (\<forall>i. Get c i = map_of (zip (map cID cards) cards) i))"
proof -
  from assms obtain raw cards where src: "readFile path = Inr raw" "unmarshal raw = Inr cards"
    and load: "loadCards 0 cards emptyCatalog = Inr c" and ne: "order c \<noteq> []"
    unfolding Load_Inr by blast
  note l = loadCards_Inr [OF load]
  have "Get c i = map_of (zip (map cID cards) cards) i" for i
  proof -
    have "map_of (rev (zip (map cID cards) cards)) = map_of (zip (map cID cards) cards)"
      using l by (subst map_of_inject_set) (simp_all add: rev_map [symmetric])
    with l show ?thesis by (simp add: Get_def emptyCatalog_def map_upds_def)
  qed
  moreover have "wf_catalog c" using load by (rule loadCards_wf) simp
  ultimately show ?thesis using src l ne
    by (auto simp: IDs_def Len_def emptyCatalog_def)
qed

theorem Load_catalog_witness:
  "\<exists>c. Load (\<lambda>p. Inr p)
      (\<lambda>raw. Inr [\<lparr>cID = ''slime'', cName = ''Slime'', cType = TypeMinion, cCost = 1, cAtk = 1,
                   cHP = 2, cDamage = 0, cHeal = 0\<rparr>]) ''cards.yaml'' = Inr c \<and> wf_catalog c \<and> Len c = 1"
proof -
  let ?cards = "[\<lparr>cID = ''slime'', cName = ''Slime'', cType = TypeMinion, cCost = 1, cAtk = 1,
                   cHP = 2, cDamage = 0, cHeal = 0\<rparr>] :: Card list"
  have "\<exists>c. Load (\<lambda>p. Inr p) (\<lambda>raw. Inr ?cards) ''cards.yaml'' = Inr c"
    by (simp add: Load_def emptyCatalog_def validateCard_def TypeMinion_def)
  then obtain c where c: "Load (\<lambda>p. Inr p) (\<lambda>raw. Inr ?cards) ''cards.yaml'' = Inr c" by blast
  from Load_catalog [OF c] c show ?thesis by (intro exI [of _ c]) auto
qed

text \<open>
  \<open>ValidateDeck\<close> accepts exactly the decks of 8 to 12 cards, all in the
  catalog, with at most two copies of each.
\<close>
theorem ValidateDeck_ok_iff:
  "ValidateDeck cat d = None \<longleftrightarrow>
     (\<exists>c. cat = Some c \<and> 8 \<le> length (dCards d) \<and> length (dCards d) \<le> 12 \<and>
        list_all (\<lambda>i. Has c i \<and> count_list (dCards d) i \<le> 2) (dCards d))"
  by (auto simp: ValidateDeck_def checkCopies_start list_all_iff Let_def split: option.splits)

end
