(* ===== verification/Battle_Model.thy ===== *)
theory Battle_Model
  imports Deck
begin

text \<open>
  Package \<open>internal/battle\<close>, files \<open>action.go\<close>, \<open>model.go\<close>, \<open>error.go\<close>: the
  data of a game. Go's \<open>int\<close> fields are \<open>int\<close> here; that no value ever leaves the
  64-bit range is a theorem of the theory of bounds. The index of a player
  (0 or 1) and the counter of minion ids are \<open>nat\<close>. The field \<open>rng\<close> holds what
  determines the state of a \<open>*rand.Rand\<close> that is only shuffled: its seed and the
  lengths it has been asked to shuffle.
\<close>

section \<open>Actions and errors\<close>

record Action =
  aType :: string
  aCardID :: string
  aInstID :: string
  aTarget :: string

datatype Code =
    CodeGameOver
  | CodeNotYourTurn
  | CodeCardNotInHand
  | CodeNotEnoughMana
  | CodeBoardFull
  | CodeUnknownAction
  | CodeUnknownCard
  | CodeNotImplemented
  | CodeNotInGame
  | CodeMinionNotFound
  | CodeCantAttack
  | CodeTargetNotFound
  | CodeInvalidTarget

fun code_string :: "Code \<Rightarrow> string" where
  "code_string CodeGameOver = ''game_over''"
| "code_string CodeNotYourTurn = ''not_your_turn''"
| "code_string CodeCardNotInHand = ''card_not_in_hand''"
| "code_string CodeNotEnoughMana = ''not_enough_mana''"
| "code_string CodeBoardFull = ''board_full''"
| "code_string CodeUnknownAction = ''unknown_action''"
| "code_string CodeUnknownCard = ''unknown_card''"
| "code_string CodeNotImplemented = ''not_implemented''"
| "code_string CodeNotInGame = ''not_in_game''"
| "code_string CodeMinionNotFound = ''minion_not_found''"
| "code_string CodeCantAttack = ''cant_attack''"
| "code_string CodeTargetNotFound = ''target_not_found''"
| "code_string CodeInvalidTarget = ''invalid_target''"

text \<open>One constructor per format string of a \<open>fail\<close> call, with its arguments.\<close>

datatype Msg =
    MsgGameOver
  | MsgNotInGame string
  | MsgTurnOf string
  | MsgUnknownAction string
  | MsgNotInHand string
  | MsgNoSuchCard string
  | MsgNeedMana int int
  | MsgNotAMinion string
  | MsgBoardFull nat
  | MsgNoMinion string
  | MsgCannotAttackYet string
  | MsgNoAttackPower string
  | MsgOwnSide
  | MsgNoTarget string

record Err =
  eCode :: Code
  eMsg :: Msg

definition fail :: "Code \<Rightarrow> Msg \<Rightarrow> Err option" where
  "fail c m = Some \<lparr>eCode = c, eMsg = m\<rparr>"

lemma fail_neq_None [simp]: "fail c m \<noteq> None" "None \<noteq> fail c m"
  by (simp_all add: fail_def)

section \<open>The state of a game\<close>

definition StartHP :: int where "StartHP = 20"
definition HandStart :: nat where "HandStart = 3"
definition MaxMana :: int where "MaxMana = 10"
definition BoardLimit :: nat where "BoardLimit = 5"

lemmas battle_consts = StartHP_def HandStart_def MaxMana_def BoardLimit_def

record Minion =
  mInstID :: string
  mCardID :: string
  mAtk :: int
  mHP :: int
  mMaxHP :: int
  mCanAttack :: bool

record Player =
  pID :: string
  pHP :: int
  pMana :: int
  pMaxMana :: int
  pDeck :: "string list"
  pHand :: "string list"
  pBoard :: "Minion list"
  pFatigue :: int

record Rand =
  seedOf :: int
  shuffled :: "nat list"

record State =
  RoomID :: string
  Players :: "Player list"
  Turn :: nat
  Round :: int
  Seed :: int
  Over :: bool
  Winner :: string
  InitDecks :: "string list list"
  cat :: Catalog
  rng :: Rand
  nextInstID :: nat

text \<open>\<open>s.Players[i]\<close> and the state in which it has been changed.\<close>

definition player :: "State \<Rightarrow> nat \<Rightarrow> Player" where
  "player s i = Players s ! i"

definition setPlayer :: "State \<Rightarrow> nat \<Rightarrow> Player \<Rightarrow> State" where
  "setPlayer s i p = s\<lparr>Players := (Players s)[i := p]\<rparr>"

lemma setPlayer_fields [simp]:
  "RoomID (setPlayer s i p) = RoomID s" "Turn (setPlayer s i p) = Turn s"
  "Round (setPlayer s i p) = Round s" "Seed (setPlayer s i p) = Seed s"
  "Over (setPlayer s i p) = Over s" "Winner (setPlayer s i p) = Winner s"
  "InitDecks (setPlayer s i p) = InitDecks s" "cat (setPlayer s i p) = cat s"
  "rng (setPlayer s i p) = rng s" "nextInstID (setPlayer s i p) = nextInstID s"
  "length (Players (setPlayer s i p)) = length (Players s)"
  by (simp_all add: setPlayer_def)

lemma player_setPlayer [simp]:
  "i < length (Players s) \<Longrightarrow> player (setPlayer s i p) j = (if j = i then p else player s j)"
  by (simp add: player_def setPlayer_def)

lemma player_simps [simp]:
  "player (s\<lparr>Turn := t\<rparr>) i = player s i" "player (s\<lparr>Round := r\<rparr>) i = player s i"
  "player (s\<lparr>Over := v\<rparr>) i = player s i" "player (s\<lparr>Winner := w\<rparr>) i = player s i"
  "player (s\<lparr>nextInstID := n\<rparr>) i = player s i" "player (s\<lparr>InitDecks := ds\<rparr>) i = player s i"
  "player (s\<lparr>rng := g\<rparr>) i = player s i"
  by (simp_all add: player_def)

end
