(* ===== verification/Rules.thy ===== *)
theory Rules
  imports Battle_Model
begin

text \<open>
  The interface between the rules and those who drive them (the room, the replay
  tools): an \<open>apply\<close> that either rejects an action with the state unchanged or
  accepts it, with an invariant it keeps and a number it decreases when it
  accepts. The replay loop of \<open>internal/battle/replay.go\<close> stands here, over any such
  \<open>apply\<close>; the theory of replay runs it on \<open>Apply\<close>.
\<close>

section \<open>Steps and the replay loop\<close>

record Step =
  sPlayer :: string
  sAction :: Action

type_synonym ('s, 'e) rules = "'s \<Rightarrow> string \<Rightarrow> Action \<Rightarrow> 's \<times> 'e option"

text \<open>
  The loop of \<open>Replay\<close>. \<open>onStep\<close> is the callback, acting on the variables it
  captures; a rejected step ends the loop with its index and error.
\<close>

fun replayFrom ::
  "('s, 'e) rules \<Rightarrow> (int \<Rightarrow> 's \<Rightarrow> 'acc \<Rightarrow> 'acc) \<Rightarrow> nat \<Rightarrow> 's \<Rightarrow> Step list \<Rightarrow> 'acc \<Rightarrow>
     's \<times> (nat \<times> 'e) option \<times> 'acc" where
  "replayFrom app onStep i s [] acc = (s, None, acc)"
| "replayFrom app onStep i s (st # steps) acc =
     (case app s (sPlayer st) (sAction st) of
        (s', Some e) \<Rightarrow> (s', Some (i, e), acc)
      | (s', None) \<Rightarrow> replayFrom app onStep (i + 1) s' steps (onStep (int i) s' acc))"

text \<open>A run that tries every step and the steps it accepts, as a live game does.\<close>

fun attempt :: "('s, 'e) rules \<Rightarrow> 's \<Rightarrow> Step list \<Rightarrow> 's" where
  "attempt app s [] = s"
| "attempt app s (st # steps) = attempt app (fst (app s (sPlayer st) (sAction st))) steps"

fun accepted :: "('s, 'e) rules \<Rightarrow> 's \<Rightarrow> Step list \<Rightarrow> Step list" where
  "accepted app s [] = []"
| "accepted app s (st # steps) =
     (case app s (sPlayer st) (sAction st) of
        (s', Some e) \<Rightarrow> accepted app s' steps
      | (s', None) \<Rightarrow> st # accepted app s' steps)"

text \<open>\<open>plays app s steps t\<close>: every step is accepted in turn and leads from \<open>s\<close> to \<open>t\<close>.\<close>

fun plays :: "('s, 'e) rules \<Rightarrow> 's \<Rightarrow> Step list \<Rightarrow> 's \<Rightarrow> bool" where
  "plays app s [] t \<longleftrightarrow> t = s"
| "plays app s (st # steps) t \<longleftrightarrow>
     (\<exists>s'. app s (sPlayer st) (sAction st) = (s', None) \<and> plays app s' steps t)"

lemma plays_append:
  "plays app s (xs @ ys) t \<longleftrightarrow> (\<exists>u. plays app s xs u \<and> plays app u ys t)"
  by (induction xs arbitrary: s) auto

lemma plays_snoc:
  "plays app s xs u \<Longrightarrow> app u p a = (t, None) \<Longrightarrow> plays app s (xs @ [\<lparr>sPlayer = p, sAction = a\<rparr>]) t"
  by (auto simp: plays_append)

lemma plays_deterministic: "plays app s xs t \<Longrightarrow> plays app s xs u \<Longrightarrow> t = u"
  by (induction xs arbitrary: s) auto

text \<open>The states a played sequence goes through, one per step.\<close>

fun trail :: "('s, 'e) rules \<Rightarrow> 's \<Rightarrow> Step list \<Rightarrow> 's list" where
  "trail app s [] = []"
| "trail app s (st # steps) =
     (let s' = fst (app s (sPlayer st) (sAction st)) in s' # trail app s' steps)"

lemma length_trail [simp]: "length (trail app s xs) = length xs"
  by (induction xs arbitrary: s) (simp_all add: Let_def)

lemma trail_snoc:
  "trail app s (xs @ [st]) =
     trail app s xs @ [fst (app (attempt app s xs) (sPlayer st) (sAction st))]"
  by (induction xs arbitrary: s) (simp_all add: Let_def)

lemma plays_attempt: "plays app s xs t \<Longrightarrow> attempt app s xs = t"
  by (induction xs arbitrary: s) auto

text \<open>Replaying a played sequence rejects nothing and calls back on every state of its trail.\<close>

lemma replayFrom_plays:
  assumes "plays app s xs t"
  shows "replayFrom app onStep i s xs acc =
    (t, None, fold (\<lambda>(k, u) acc. onStep (int k) u acc) (zip [i..<i + length xs] (trail app s xs)) acc)"
  using assms
proof (induction xs arbitrary: i s acc)
  case Nil
  then show ?case by simp
next
  case (Cons st xs)
  then obtain s' where step: "app s (sPlayer st) (sAction st) = (s', None)" and rest: "plays app s' xs t"
    by auto
  have "[i..<i + length (st # xs)] = i # [Suc i..<Suc i + length xs]"
    using upt_conv_Cons [of i "i + length (st # xs)"] by simp
  with step Cons.IH [OF rest, of "Suc i" "onStep (int i) s' acc"] show ?case
    by (simp add: Let_def)
qed

section \<open>The interface\<close>

locale rules =
  fixes app :: "('s, 'e) rules"
    and invar :: "'s \<Rightarrow> bool"
  assumes rejected_same: "app s p a = (s', Some e) \<Longrightarrow> s' = s"
    and invar_app: "invar s \<Longrightarrow> invar (fst (app s p a))"
begin

lemma attempt_invar: "invar s \<Longrightarrow> invar (attempt app s xs)"
  by (induction xs arbitrary: s) (simp_all add: invar_app)

lemma plays_invar: "invar s \<Longrightarrow> plays app s xs t \<Longrightarrow> invar t"
  using attempt_invar [of s xs] plays_attempt [of app s xs t] by simp

text \<open>The accepted steps alone lead to the same state as all the attempts.\<close>

lemma plays_accepted: "plays app s (accepted app s xs) (attempt app s xs)"
proof (induction xs arbitrary: s)
  case (Cons st xs)
  obtain s' e where step: "app s (sPlayer st) (sAction st) = (s', e)"
    by (cases "app s (sPlayer st) (sAction st)")
  show ?case
  proof (cases e)
    case None
    with step Cons.IH show ?thesis by simp
  next
    case (Some err)
    then have "s' = s" using step rejected_same by simp
    with Some step Cons.IH [of s] show ?thesis by simp
  qed
qed simp

lemma replay_accepted:
  "replayFrom app onStep i s (accepted app s xs) acc =
    (attempt app s xs, None,
     fold (\<lambda>(k, u) acc. onStep (int k) u acc)
       (zip [i..<i + length (accepted app s xs)] (trail app s (accepted app s xs))) acc)"
  by (rule replayFrom_plays) (rule plays_accepted)

end

locale bounded_rules = rules app invar
  for app :: "('s, 'e) rules" and invar :: "'s \<Rightarrow> bool" +
  fixes left :: "'s \<Rightarrow> nat"
  assumes accept_decreases: "invar s \<Longrightarrow> app s p a = (s', None) \<Longrightarrow> left s' < left s"
begin

lemma plays_bounded: "invar s \<Longrightarrow> plays app s xs t \<Longrightarrow> length xs + left t \<le> left s"
proof (induction xs arbitrary: s)
  case (Cons st xs)
  then obtain s' where step: "app s (sPlayer st) (sAction st) = (s', None)" and rest: "plays app s' xs t"
    by auto
  have "invar s'" using invar_app [OF Cons.prems(1), of "sPlayer st" "sAction st"] step by simp
  from Cons.IH [OF this rest] accept_decreases [OF Cons.prems(1) step] show ?case by simp
qed simp

lemma accepted_bounded: "invar s \<Longrightarrow> length (accepted app s xs) + left (attempt app s xs) \<le> left s"
  by (rule plays_bounded) (auto intro: plays_accepted)

end

end
