(* ===== verification/Battle_State.thy ===== *)
theory Battle_State
  imports Battle_Model
begin

text \<open>
  \<open>internal/battle/state.go\<close>: construction of a game and the operations on its
  state. A Go function that returns an error next to a value returns the state
  it leaves behind next to \<open>None\<close> (nil) or \<open>Some e\<close>. The swaps that
  \<open>(*rand.Rand).Shuffle\<close> asks for are an argument of type \<open>shuffle_lib\<close>: a
  function of the seed, of the lengths shuffled before on this generator and of
  the length.
\<close>

type_synonym shuffle_lib = "int \<Rightarrow> nat list \<Rightarrow> nat \<Rightarrow> (nat \<times> nat) list"

text \<open>What the documentation of \<open>Shuffle\<close> promises: it swaps valid indices.\<close>

definition shuffle_ok :: "shuffle_lib \<Rightarrow> bool" where
  "shuffle_ok sw \<longleftrightarrow>
     (\<forall>sd ns n ij. ij \<in> set (sw sd ns n) \<longrightarrow> fst ij < n \<and> snd ij < n)"

section \<open>Operations\<close>

definition shuffle :: "shuffle_lib \<Rightarrow> Rand \<Rightarrow> string list \<Rightarrow> string list \<times> Rand" where
  "shuffle sw g d =
     (fold swap_at (sw (seedOf g) (shuffled g) (length d)) d,
      g\<lparr>shuffled := shuffled g @ [length d]\<rparr>)"

definition Draw :: "State \<Rightarrow> nat \<Rightarrow> string option \<times> State" where
  "Draw s i =
     (let p = player s i in
      case pDeck p of
        [] \<Rightarrow> (None, s)
      | c # rest \<Rightarrow> (Some c, setPlayer s i (p\<lparr>pDeck := rest, pHand := pHand p @ [c]\<rparr>)))"

definition inst_id :: "nat \<Rightarrow> string" where
  "inst_id n = ''m'' @ show_nat n"

definition newInstID :: "State \<Rightarrow> string \<times> State" where
  "newInstID s = (let n = nextInstID s + 1 in (inst_id n, s\<lparr>nextInstID := n\<rparr>))"

definition Summon :: "State \<Rightarrow> nat \<Rightarrow> string \<Rightarrow> State \<times> Err option" where
  "Summon s i cardID =
     (case Get (cat s) cardID of
        None \<Rightarrow> (s, fail CodeUnknownCard (MsgNoSuchCard cardID))
      | Some cd \<Rightarrow>
          if cType cd \<noteq> TypeMinion then (s, fail CodeNotImplemented (MsgNotAMinion cardID))
          else if length (pBoard (player s i)) \<ge> BoardLimit
          then (s, fail CodeBoardFull (MsgBoardFull BoardLimit))
          else
            (let (iid, s1) = newInstID s;
                 m = \<lparr>mInstID = iid, mCardID = cID cd, mAtk = cAtk cd, mHP = cHP cd,
                      mMaxHP = cHP cd, mCanAttack = False\<rparr>;
                 p = player s1 i
             in (setPlayer s1 i (p\<lparr>pBoard := pBoard p @ [m]\<rparr>), None)))"

definition indexOfString :: "string list \<Rightarrow> string \<Rightarrow> nat option" where
  "indexOfString xs x = index_from (\<lambda>v. v = x) 0 xs"

definition checkOver :: "State \<Rightarrow> State" where
  "checkOver s =
     (if Over s then s
      else
        (let d0 = pHP (player s 0) \<le> 0; d1 = pHP (player s 1) \<le> 0 in
         if d0 \<and> d1 then s\<lparr>Over := True, Winner := []\<rparr>
         else if d0 then s\<lparr>Winner := pID (player s 1), Over := True\<rparr>
         else if d1 then s\<lparr>Winner := pID (player s 0), Over := True\<rparr>
         else s))"

definition beginTurn :: "State \<Rightarrow> nat \<Rightarrow> State" where
  "beginTurn s i =
     (let p = player s i;
          p1 = (if pMaxMana p < MaxMana then p\<lparr>pMaxMana := pMaxMana p + 1\<rparr> else p);
          s1 = setPlayer s i (p1\<lparr>pMana := pMaxMana p1\<rparr>);
          (drawn, s2) = Draw s1 i;
          s3 = (case drawn of
                  Some _ \<Rightarrow> s2
                | None \<Rightarrow>
                    (let q = player s2 i;
                         q1 = q\<lparr>pFatigue := pFatigue q + 1\<rparr>
                     in checkOver (setPlayer s2 i (q1\<lparr>pHP := pHP q1 - pFatigue q1\<rparr>))));
          q = player s3 i
      in setPlayer s3 i (q\<lparr>pBoard := map (\<lambda>m. m\<lparr>mCanAttack := True\<rparr>) (pBoard q)\<rparr>))"

definition indexOf :: "State \<Rightarrow> string \<Rightarrow> nat option" where
  "indexOf s playerId = index_from (\<lambda>p. pID p = playerId) 0 (Players s)"

text \<open>Go's \<open>/\<close> truncates towards zero; \<open>Round\<close> starts at 1 and only grows.\<close>

definition DisplayRound :: "State \<Rightarrow> int" where
  "DisplayRound s = (Round s + 1) div 2"

text \<open>The in-place compaction loop of \<open>removeDead\<close>: \<open>k\<close> reads, \<open>j\<close> writes.\<close>

function compact :: "Minion list \<Rightarrow> nat \<Rightarrow> nat \<Rightarrow> Minion list" where
  "compact b k j =
     (if k < length b then
        (if mHP (b ! k) > 0 then compact (b[j := b ! k]) (k + 1) (j + 1)
         else compact b (k + 1) j)
      else take j b)"
  by pat_completeness auto
termination
  by (relation "measure (\<lambda>(b, k, j). length b - k)") auto

declare compact.simps [simp del]

definition removeDead :: "State \<Rightarrow> State" where
  "removeDead s =
     s\<lparr>Players := map (\<lambda>p. p\<lparr>pBoard := compact (pBoard p) 0 0\<rparr>) (Players s)\<rparr>"

text \<open>\<open>findMinion\<close> returns a pointer into the board: here its index.\<close>

definition findMinion :: "Player \<Rightarrow> string \<Rightarrow> nat option" where
  "findMinion p instID = index_from (\<lambda>m. mInstID m = instID) 0 (pBoard p)"

section \<open>NewState\<close>

record PlayerInit =
  iID :: string
  iCards :: "string list"

datatype NewErr =
    NilCatalog
  | EmptyPlayerID
  | SamePlayerID
  | TooFewCards string nat nat

fun checkDecks :: "PlayerInit list \<Rightarrow> NewErr option" where
  "checkDecks [] = None"
| "checkDecks (x # xs) =
     (if length (iCards x) \<le> HandStart
      then Some (TooFewCards (iID x) (length (iCards x)) HandStart)
      else checkDecks xs)"

definition addPlayer :: "shuffle_lib \<Rightarrow> State \<Rightarrow> PlayerInit \<Rightarrow> State" where
  "addPlayer sw st x =
     (let (d, g) = shuffle sw (rng st) (iCards x);
          p = \<lparr>pID = iID x, pHP = StartHP, pMana = 0, pMaxMana = 0, pDeck = d,
               pHand = [], pBoard = [], pFatigue = 0\<rparr>
      in st\<lparr>InitDecks := InitDecks st @ [iCards x], Players := Players st @ [p], rng := g\<rparr>)"

fun dealHands :: "nat \<Rightarrow> State \<Rightarrow> State" where
  "dealHands 0 st = st"
| "dealHands (Suc k) st = dealHands k (snd (Draw (snd (Draw st 0)) 1))"

definition NewState ::
  "shuffle_lib \<Rightarrow> string \<Rightarrow> Catalog option \<Rightarrow> PlayerInit \<Rightarrow> PlayerInit \<Rightarrow> int \<Rightarrow> NewErr + State" where
  "NewState sw roomID oc a b seed =
     (case oc of
        None \<Rightarrow> Inl NilCatalog
      | Some c \<Rightarrow>
          if iID a = [] \<or> iID b = [] then Inl EmptyPlayerID
          else if iID a = iID b then Inl SamePlayerID
          else
            (case checkDecks [a, b] of
               Some e \<Rightarrow> Inl e
             | None \<Rightarrow>
                 (let st = \<lparr>RoomID = roomID, Players = [], Turn = 0, Round = 1, Seed = seed,
                           Over = False, Winner = [], InitDecks = [], cat = c,
                           rng = \<lparr>seedOf = seed, shuffled = []\<rparr>, nextInstID = 0\<rparr>;
                      st = fold (\<lambda>x st. addPlayer sw st x) [a, b] st;
                      st = dealHands HandStart st
                  in Inr (beginTurn st 0))))"

section \<open>Lemmas on the operations\<close>

lemma inst_id_inject [simp]: "inst_id m = inst_id n \<longleftrightarrow> m = n"
  by (simp add: inst_id_def)

lemma inst_id_neq_face [simp]: "inst_id n \<noteq> ''face''"
  by (simp add: inst_id_def)

lemma indexOfString_Some:
  "indexOfString xs x = Some i \<Longrightarrow> i < length xs \<and> xs ! i = x"
  unfolding indexOfString_def using index_from_0_Some [of "\<lambda>v. v = x"] by blast

lemma indexOfString_None [simp]: "indexOfString xs x = None \<longleftrightarrow> x \<notin> set xs"
  by (auto simp: indexOfString_def index_from_None)

lemma indexOf_Some:
  "indexOf s pid = Some i \<Longrightarrow> i < length (Players s) \<and> pID (player s i) = pid"
  unfolding indexOf_def player_def using index_from_0_Some [of "\<lambda>p. pID p = pid"] by blast

lemma indexOf_None [simp]: "indexOf s pid = None \<longleftrightarrow> pid \<notin> pID ` set (Players s)"
  by (auto simp: indexOf_def index_from_None)

lemma findMinion_Some:
  "findMinion p iid = Some k \<Longrightarrow> k < length (pBoard p) \<and> mInstID (pBoard p ! k) = iid"
  unfolding findMinion_def using index_from_0_Some [of "\<lambda>m. mInstID m = iid"] by blast

lemma findMinion_None [simp]: "findMinion p iid = None \<longleftrightarrow> iid \<notin> mInstID ` set (pBoard p)"
  by (auto simp: findMinion_def index_from_None)

text \<open>The compaction loop keeps exactly the living minions, in order.\<close>

lemma compact_filter:
  assumes "j \<le> k" "k \<le> length b"
  shows "compact b k j = take j b @ filter (\<lambda>m. 0 < mHP m) (drop k b)"
  using assms
proof (induction b k j rule: compact.induct)
  case (1 b k j)
  show ?case
  proof (cases "k < length b")
    case False
    with 1 show ?thesis by (simp add: compact.simps [of b])
  next
    case True
    then have split: "drop k b = b ! k # drop (Suc k) b"
      by (simp add: Cons_nth_drop_Suc)
    show ?thesis
    proof (cases "mHP (b ! k) > 0")
      case False
      with True 1 split show ?thesis by (simp add: compact.simps [of b])
    next
      case alive: True
      have "take (Suc j) (b[j := b ! k]) = take j b @ [b ! k]"
        using 1(3,4) True by (simp add: take_Suc_conv_app_nth)
      with True alive 1 split show ?thesis
        by (simp add: compact.simps [of b] drop_update_cancel)
    qed
  qed
qed

lemma compact_eq_filter [simp]: "compact b 0 0 = filter (\<lambda>m. 0 < mHP m) b"
  by (simp add: compact_filter)

lemma removeDead_fields [simp]:
  "RoomID (removeDead s) = RoomID s" "Turn (removeDead s) = Turn s"
  "Round (removeDead s) = Round s" "Seed (removeDead s) = Seed s"
  "Over (removeDead s) = Over s" "Winner (removeDead s) = Winner s"
  "InitDecks (removeDead s) = InitDecks s" "cat (removeDead s) = cat s"
  "rng (removeDead s) = rng s" "nextInstID (removeDead s) = nextInstID s"
  "length (Players (removeDead s)) = length (Players s)"
  by (simp_all add: removeDead_def)

lemma player_removeDead [simp]:
  "i < length (Players s) \<Longrightarrow> player (removeDead s) i =
     (player s i)\<lparr>pBoard := filter (\<lambda>m. 0 < mHP m) (pBoard (player s i))\<rparr>"
  by (simp add: removeDead_def player_def)

lemma checkOver_fields [simp]:
  "RoomID (checkOver s) = RoomID s" "Turn (checkOver s) = Turn s"
  "Round (checkOver s) = Round s" "Seed (checkOver s) = Seed s"
  "InitDecks (checkOver s) = InitDecks s" "cat (checkOver s) = cat s"
  "rng (checkOver s) = rng s" "nextInstID (checkOver s) = nextInstID s"
  "Players (checkOver s) = Players s" "player (checkOver s) i = player s i"
  by (simp_all add: checkOver_def Let_def player_def)

lemma checkOver_Over:
  "Over (checkOver s) \<longleftrightarrow> Over s \<or> pHP (player s 0) \<le> 0 \<or> pHP (player s (Suc 0)) \<le> 0"
  by (simp add: checkOver_def Let_def)

lemma Draw_fields [simp]:
  "RoomID (snd (Draw s i)) = RoomID s" "Turn (snd (Draw s i)) = Turn s"
  "Round (snd (Draw s i)) = Round s" "Seed (snd (Draw s i)) = Seed s"
  "Over (snd (Draw s i)) = Over s" "Winner (snd (Draw s i)) = Winner s"
  "InitDecks (snd (Draw s i)) = InitDecks s" "cat (snd (Draw s i)) = cat s"
  "rng (snd (Draw s i)) = rng s" "nextInstID (snd (Draw s i)) = nextInstID s"
  "length (Players (snd (Draw s i))) = length (Players s)"
  by (simp_all add: Draw_def Let_def split: list.splits)

lemma player_Draw [simp]:
  "i < length (Players s) \<Longrightarrow> player (snd (Draw s i)) j =
     (if j = i then (player s i)\<lparr>pDeck := tl (pDeck (player s i)),
                                 pHand := pHand (player s i) @ take 1 (pDeck (player s i))\<rparr>
      else player s j)"
  by (simp add: Draw_def Let_def split: list.splits)

lemma Draw_None [simp]: "fst (Draw s i) = None \<longleftrightarrow> pDeck (player s i) = []"
  by (simp add: Draw_def Let_def split: list.splits)

lemma Draw_empty: "pDeck (player s i) = [] \<Longrightarrow> Draw s i = (None, s)"
  by (simp add: Draw_def Let_def)

lemma shuffle_mset:
  assumes "shuffle_ok sw"
  shows "mset (fst (shuffle sw g d)) = mset d" "length (fst (shuffle sw g d)) = length d"
proof -
  have "\<forall>ij \<in> set (sw (seedOf g) (shuffled g) (length d)). fst ij < length d \<and> snd ij < length d"
    using assms unfolding shuffle_ok_def by blast
  from fold_swap_at [OF this]
  show "mset (fst (shuffle sw g d)) = mset d" "length (fst (shuffle sw g d)) = length d"
    by (simp_all add: shuffle_def)
qed

end
