(* ===== verification/Battle_Apply.thy ===== *)
theory Battle_Apply
  imports Battle_State
begin

text \<open>
  \<open>internal/battle/apply.go\<close>: the four entry points of the rules. Every function
  returns the state it leaves and the error it reports.
\<close>

definition endTurn :: "State \<Rightarrow> nat \<Rightarrow> State \<times> Err option" where
  "endTurn s i =
     (let s1 = s\<lparr>Turn := 1 - i\<rparr>;
          s2 = s1\<lparr>Round := Round s1 + 1\<rparr>
      in (beginTurn s2 (Turn s2), None))"

definition playCard :: "State \<Rightarrow> nat \<Rightarrow> Action \<Rightarrow> State \<times> Err option" where
  "playCard s i a =
     (let p = player s i in
      case indexOfString (pHand p) (aCardID a) of
        None \<Rightarrow> (s, fail CodeCardNotInHand (MsgNotInHand (aCardID a)))
      | Some hi \<Rightarrow>
          (case Get (cat s) (aCardID a) of
             None \<Rightarrow> (s, fail CodeUnknownCard (MsgNoSuchCard (aCardID a)))
           | Some cd \<Rightarrow>
               if pMana p < cCost cd
               then (s, fail CodeNotEnoughMana (MsgNeedMana (cCost cd) (pMana p)))
               else
                 (case Summon s i (aCardID a) of
                    (s1, Some e) \<Rightarrow> (s1, Some e)
                  | (s1, None) \<Rightarrow>
                      (let q = player s1 i in
                       (setPlayer s1 i (q\<lparr>pMana := pMana q - cCost cd,
                                          pHand := remove_at hi (pHand q)\<rparr>), None)))))"

text \<open>\<open>m.HP -= d\<close> and \<open>m.CanAttack = false\<close> through a pointer into a board.\<close>

definition hitMinion :: "Player \<Rightarrow> nat \<Rightarrow> int \<Rightarrow> Player" where
  "hitMinion p k d =
     p\<lparr>pBoard := (pBoard p)[k := (pBoard p ! k)\<lparr>mHP := mHP (pBoard p ! k) - d\<rparr>]\<rparr>"

definition tireMinion :: "Player \<Rightarrow> nat \<Rightarrow> Player" where
  "tireMinion p k = p\<lparr>pBoard := (pBoard p)[k := (pBoard p ! k)\<lparr>mCanAttack := False\<rparr>]\<rparr>"

text \<open>The choice of \<open>def\<close>: \<open>Inr None\<close> is the face, \<open>Inr (Some k)\<close> a minion.\<close>

definition chooseTarget :: "Player \<Rightarrow> Player \<Rightarrow> string \<Rightarrow> Err option + nat option" where
  "chooseTarget me opposite target =
     (if target \<noteq> ''face'' then
        (case findMinion me target of
           Some _ \<Rightarrow> Inl (fail CodeInvalidTarget MsgOwnSide)
         | None \<Rightarrow>
             (case findMinion opposite target of
                None \<Rightarrow> Inl (fail CodeTargetNotFound (MsgNoTarget target))
              | Some k \<Rightarrow> Inr (Some k)))
      else Inr None)"

definition strike :: "State \<Rightarrow> nat \<Rightarrow> nat \<Rightarrow> nat option \<Rightarrow> State" where
  "strike s i ka target =
     (let me = player s i;
          opposite = player s (1 - i);
          attacker = pBoard me ! ka
      in case target of
           None \<Rightarrow> setPlayer s (1 - i) (opposite\<lparr>pHP := pHP opposite - mAtk attacker\<rparr>)
         | Some kd \<Rightarrow>
             setPlayer (setPlayer s (1 - i) (hitMinion opposite kd (mAtk attacker)))
               i (hitMinion me ka (mAtk (pBoard opposite ! kd))))"

definition attack :: "State \<Rightarrow> nat \<Rightarrow> Action \<Rightarrow> State \<times> Err option" where
  "attack s i a =
     (let me = player s i;
          opposite = player s (1 - i)
      in case findMinion me (aInstID a) of
           None \<Rightarrow> (s, fail CodeMinionNotFound (MsgNoMinion (aInstID a)))
         | Some ka \<Rightarrow>
             (let attacker = pBoard me ! ka in
              if \<not> mCanAttack attacker then (s, fail CodeCantAttack (MsgCannotAttackYet (aInstID a)))
              else if mAtk attacker \<le> 0 then (s, fail CodeCantAttack (MsgNoAttackPower (aInstID a)))
              else
                (case chooseTarget me opposite (aTarget a) of
                   Inl e \<Rightarrow> (s, e)
                 | Inr target \<Rightarrow>
                     (let s1 = strike s i ka target;
                          s2 = setPlayer s1 i (tireMinion (player s1 i) ka)
                      in (checkOver (removeDead s2), None)))))"

definition Apply :: "State \<Rightarrow> string \<Rightarrow> Action \<Rightarrow> State \<times> Err option" where
  "Apply s playerId a =
     (if Over s then (s, fail CodeGameOver MsgGameOver)
      else
        (case indexOf s playerId of
           None \<Rightarrow> (s, fail CodeNotInGame (MsgNotInGame playerId))
         | Some i \<Rightarrow>
             if i \<noteq> Turn s then (s, fail CodeNotYourTurn (MsgTurnOf (pID (player s (Turn s)))))
             else if aType a = ''play_card'' then playCard s i a
             else if aType a = ''attack'' then attack s i a
             else if aType a = ''end_turn'' then endTurn s i
             else (s, fail CodeUnknownAction (MsgUnknownAction (aType a)))))"

end
