(* ===== verification/Battle_Inv.thy ===== *)
theory Battle_Inv
  imports Battle_Apply
begin

text \<open>
  The invariant of a game: what every state built by \<open>NewState\<close> satisfies and every
  \<open>Apply\<close> keeps, whatever the player and the action. The operations are first
  brought into one equation each (what the accepted branch does to the players);
  the invariant is then kept piece by piece.
\<close>

section \<open>What the accepted branches do\<close>

definition begun :: "Player \<Rightarrow> Player" where
  "begun p =
     (let m = (if pMaxMana p < MaxMana then pMaxMana p + 1 else pMaxMana p);
          f = (if pDeck p = [] then pFatigue p + 1 else pFatigue p)
      in p\<lparr>pHP := (if pDeck p = [] then pHP p - f else pHP p), pMana := m, pMaxMana := m,
           pDeck := tl (pDeck p), pHand := pHand p @ take 1 (pDeck p),
           pBoard := map (\<lambda>m. m\<lparr>mCanAttack := True\<rparr>) (pBoard p), pFatigue := f\<rparr>)"

lemma begun_simps [simp]:
  "pID (begun p) = pID p"
  "pMana (begun p) = pMaxMana (begun p)"
  "pMaxMana (begun p) = (if pMaxMana p < MaxMana then pMaxMana p + 1 else pMaxMana p)"
  "pDeck (begun p) = tl (pDeck p)"
  "pHand (begun p) = pHand p @ take 1 (pDeck p)"
  "pBoard (begun p) = map (\<lambda>m. m\<lparr>mCanAttack := True\<rparr>) (pBoard p)"
  "pFatigue (begun p) = (if pDeck p = [] then pFatigue p + 1 else pFatigue p)"
  "pHP (begun p) = (if pDeck p = [] then pHP p - (pFatigue p + 1) else pHP p)"
  by (simp_all add: begun_def Let_def)

lemma setPlayer_setPlayer [simp]: "setPlayer (setPlayer s i p) i q = setPlayer s i q"
  by (simp add: setPlayer_def)

lemma setPlayer_checkOver:
  assumes "i < length (Players s)" and "pHP q = pHP (player s i)" and "pID q = pID (player s i)"
  shows "setPlayer (checkOver s) i q = checkOver (setPlayer s i q)"
  using assms by (auto simp: checkOver_def Let_def setPlayer_def player_def nth_list_update)

lemma beginTurn_eq:
  assumes "i < length (Players s)"
  shows "beginTurn s i =
    (if pDeck (player s i) = [] then checkOver (setPlayer s i (begun (player s i)))
     else setPlayer s i (begun (player s i)))"
proof (cases "pDeck (player s i)")
  case Nil
  then show ?thesis using assms
    by (cases "player s i") (simp add: beginTurn_def Let_def Draw_def setPlayer_checkOver begun_def)
next
  case (Cons c rest)
  then show ?thesis using assms
    by (cases "player s i") (simp add: beginTurn_def Let_def Draw_def begun_def)
qed

lemma player_beginTurn [simp]:
  "i < length (Players s) \<Longrightarrow>
     player (beginTurn s i) j = (if j = i then begun (player s i) else player s j)"
  by (simp add: beginTurn_eq)

lemma beginTurn_fields [simp]:
  assumes "i < length (Players s)"
  shows "RoomID (beginTurn s i) = RoomID s" "Turn (beginTurn s i) = Turn s"
    "Round (beginTurn s i) = Round s" "Seed (beginTurn s i) = Seed s"
    "InitDecks (beginTurn s i) = InitDecks s" "cat (beginTurn s i) = cat s"
    "rng (beginTurn s i) = rng s" "nextInstID (beginTurn s i) = nextInstID s"
    "length (Players (beginTurn s i)) = length (Players s)"
  using assms by (simp_all add: beginTurn_eq)

definition newMinion :: "Card \<Rightarrow> nat \<Rightarrow> Minion" where
  "newMinion cd n = \<lparr>mInstID = inst_id n, mCardID = cID cd, mAtk = cAtk cd, mHP = cHP cd,
                     mMaxHP = cHP cd, mCanAttack = False\<rparr>"

definition playedCard :: "Player \<Rightarrow> nat \<Rightarrow> Card \<Rightarrow> nat \<Rightarrow> Player" where
  "playedCard p hi cd n =
     p\<lparr>pBoard := pBoard p @ [newMinion cd n], pMana := pMana p - cCost cd,
       pHand := remove_at hi (pHand p)\<rparr>"

text \<open>Summon: the checks come before any change, so a failed summon changes nothing.\<close>

lemma Summon_cases:
  assumes "i < length (Players s)"
  shows "(\<exists>e. Summon s i cid = (s, Some e)) \<or>
    (\<exists>cd. Get (cat s) cid = Some cd \<and> cType cd = TypeMinion \<and>
       length (pBoard (player s i)) < BoardLimit \<and>
       Summon s i cid =
         (setPlayer (s\<lparr>nextInstID := Suc (nextInstID s)\<rparr>) i
            ((player s i)\<lparr>pBoard := pBoard (player s i) @ [newMinion cd (Suc (nextInstID s))]\<rparr>), None))"
  by (auto simp: Summon_def fail_def newInstID_def newMinion_def Let_def split: option.split)

lemma playCard_cases:
  assumes "i < length (Players s)"
  shows "(\<exists>e. playCard s i a = (s, Some e)) \<or>
    (\<exists>hi cd. indexOfString (pHand (player s i)) (aCardID a) = Some hi \<and>
       Get (cat s) (aCardID a) = Some cd \<and> cType cd = TypeMinion \<and>
       cCost cd \<le> pMana (player s i) \<and> length (pBoard (player s i)) < BoardLimit \<and>
       playCard s i a =
         (setPlayer (s\<lparr>nextInstID := Suc (nextInstID s)\<rparr>) i
            (playedCard (player s i) hi cd (Suc (nextInstID s))), None))"
  using Summon_cases [OF assms, of "aCardID a"] assms
  by (auto simp: playCard_def fail_def playedCard_def Let_def split: option.split)

text \<open>
  The two players after an attack, before the outcome is decided: the side of the
  attacker and the other side are a hit or a tired minion away from the old ones.
\<close>

definition attacked_state :: "State \<Rightarrow> nat \<Rightarrow> nat \<Rightarrow> nat option \<Rightarrow> State" where
  "attacked_state s i ka target =
     (let s1 = strike s i ka target in setPlayer s1 i (tireMinion (player s1 i) ka))"

lemma attack_cases:
  shows "(\<exists>e. attack s i a = (s, Some e)) \<or>
    (\<exists>ka target. findMinion (player s i) (aInstID a) = Some ka \<and>
       mCanAttack (pBoard (player s i) ! ka) \<and> 0 < mAtk (pBoard (player s i) ! ka) \<and>
       chooseTarget (player s i) (player s (1 - i)) (aTarget a) = Inr target \<and>
       attack s i a =
         (checkOver (removeDead (attacked_state s i ka target)), None))"
  by (auto simp: attack_def attacked_state_def chooseTarget_def fail_def Let_def split: option.split)

lemma endTurn_eq:
  "endTurn s i = (beginTurn (s\<lparr>Turn := 1 - i, Round := Round s + 1\<rparr>) (1 - i), None)"
  by (simp add: endTurn_def Let_def)

text \<open>An action is rejected with the state unchanged, or accepted in one of three ways.\<close>

lemma Apply_cases:
  assumes "length (Players s) = 2"
  obtains (rejected) e where "Apply s pid a = (s, Some e)"
  | (played) i hi cd where "\<not> Over s" "indexOf s pid = Some i" "i = Turn s" "i < 2"
      "aType a = ''play_card''"
      "indexOfString (pHand (player s i)) (aCardID a) = Some hi"
      "Get (cat s) (aCardID a) = Some cd" "cType cd = TypeMinion"
      "cCost cd \<le> pMana (player s i)" "length (pBoard (player s i)) < BoardLimit"
      "Apply s pid a = (setPlayer (s\<lparr>nextInstID := Suc (nextInstID s)\<rparr>) i
            (playedCard (player s i) hi cd (Suc (nextInstID s))), None)"
  | (attacked) i ka target where "\<not> Over s" "indexOf s pid = Some i" "i = Turn s" "i < 2"
      "aType a = ''attack''"
      "findMinion (player s i) (aInstID a) = Some ka"
      "mCanAttack (pBoard (player s i) ! ka)" "0 < mAtk (pBoard (player s i) ! ka)"
      "chooseTarget (player s i) (player s (1 - i)) (aTarget a) = Inr target"
      "Apply s pid a = (checkOver (removeDead (attacked_state s i ka target)), None)"
  | (ended) i where "\<not> Over s" "indexOf s pid = Some i" "i = Turn s" "i < 2"
      "aType a = ''end_turn''"
      "Apply s pid a =
         (beginTurn (s\<lparr>Turn := 1 - i, Round := Round s + 1\<rparr>) (1 - i), None)"
proof -
  show ?thesis
  proof (cases "\<not> Over s \<and> (\<exists>i. indexOf s pid = Some i \<and> i = Turn s)")
    case False
    then have "\<exists>e. Apply s pid a = (s, Some e)"
      by (auto simp: Apply_def fail_def split: option.split)
    with rejected show ?thesis by blast
  next
    case True
    then have ix: "\<not> Over s" "indexOf s pid = Some (Turn s)" by auto
    with assms have t: "Turn s < 2" using indexOf_Some by fastforce
    consider "aType a = ''play_card''" | "aType a = ''attack''" | "aType a = ''end_turn''"
      | "aType a \<notin> {''play_card'', ''attack'', ''end_turn''}" by auto
    then show ?thesis
    proof cases
      case 1
      with ix have "Apply s pid a = playCard s (Turn s) a" by (simp add: Apply_def)
      with playCard_cases [of "Turn s" s a] assms t ix 1 rejected played show ?thesis by auto
    next
      case 2
      with ix have "Apply s pid a = attack s (Turn s) a" by (simp add: Apply_def)
      with attack_cases [of s "Turn s" a] t ix 2 rejected attacked show ?thesis by auto
    next
      case 3
      with ix have "Apply s pid a = endTurn s (Turn s)" by (simp add: Apply_def)
      with t ix 3 ended show ?thesis by (simp add: endTurn_eq)
    next
      case 4
      with ix have "\<exists>e. Apply s pid a = (s, Some e)" by (auto simp: Apply_def fail_def)
      with rejected show ?thesis by blast
    qed
  qed
qed

section \<open>The invariant\<close>

definition minion_ok :: "Catalog \<Rightarrow> nat \<Rightarrow> Minion \<Rightarrow> bool" where
  "minion_ok c n m \<longleftrightarrow>
     mHP m \<le> mMaxHP m \<and> (\<exists>k. 1 \<le> k \<and> k \<le> n \<and> mInstID m = inst_id k) \<and>
     (\<exists>cd. Get c (mCardID m) = Some cd \<and> cType cd = TypeMinion \<and>
           mAtk m = cAtk cd \<and> mMaxHP m = cHP cd)"

definition player_ok :: "Catalog \<Rightarrow> nat \<Rightarrow> Player \<Rightarrow> bool" where
  "player_ok c n p \<longleftrightarrow>
     pHP p \<le> StartHP \<and> 0 \<le> pMana p \<and> pMana p \<le> pMaxMana p \<and> pMaxMana p \<le> MaxMana \<and>
     0 \<le> pFatigue p \<and> (0 < pFatigue p \<longrightarrow> pDeck p = []) \<and>
     length (pBoard p) \<le> BoardLimit \<and> (\<forall>m \<in> set (pBoard p). minion_ok c n m)"

definition alive :: "Player \<Rightarrow> bool" where
  "alive p \<longleftrightarrow> (\<forall>m \<in> set (pBoard p). 0 < mHP m)"

definition board_ids :: "State \<Rightarrow> string list" where
  "board_ids s = map mInstID (pBoard (player s 0)) @ map mInstID (pBoard (player s 1))"

definition outcome_ok :: "State \<Rightarrow> bool" where
  "outcome_ok s \<longleftrightarrow>
     (let d0 = pHP (player s 0) \<le> 0; d1 = pHP (player s 1) \<le> 0 in
      (Over s \<longleftrightarrow> d0 \<or> d1) \<and>
      Winner s = (if d0 \<and> \<not> d1 then pID (player s 1)
                  else if d1 \<and> \<not> d0 then pID (player s 0) else []))"

text \<open>Cards of player \<open>i\<close> not yet played; each played card has taken one minion id.\<close>

definition held :: "Player \<Rightarrow> string multiset" where
  "held p = mset (pHand p) + mset (pDeck p)"

definition cards_ok :: "State \<Rightarrow> bool" where
  "cards_ok s \<longleftrightarrow>
     (\<forall>i<2. held (player s i) \<subseteq># mset (InitDecks s ! i)) \<and>
     size (held (player s 0)) + size (held (player s 1)) + nextInstID s =
       length (InitDecks s ! 0) + length (InitDecks s ! 1)"

definition shape_ok :: "State \<Rightarrow> bool" where
  "shape_ok s \<longleftrightarrow>
     length (Players s) = 2 \<and> length (InitDecks s) = 2 \<and> Turn s < 2 \<and> wf_catalog (cat s) \<and>
     pID (player s 0) \<noteq> [] \<and> pID (player s 1) \<noteq> [] \<and> pID (player s 0) \<noteq> pID (player s 1)"

definition wf_state :: "State \<Rightarrow> bool" where
  "wf_state s \<longleftrightarrow>
     shape_ok s \<and> (\<forall>i<2. player_ok (cat s) (nextInstID s) (player s i) \<and> alive (player s i)) \<and>
     distinct (board_ids s) \<and> outcome_ok s \<and> cards_ok s"

lemmas wf_state_parts = wf_state_def shape_ok_def

lemma wf_stateD:
  assumes "wf_state s"
  shows "length (Players s) = 2" "Turn s < 2" "wf_catalog (cat s)" "outcome_ok s" "cards_ok s"
    "distinct (board_ids s)" "shape_ok s"
    "i < 2 \<Longrightarrow> player_ok (cat s) (nextInstID s) (player s i)" "i < 2 \<Longrightarrow> alive (player s i)"
  using assms by (auto simp: wf_state_parts)

subsection \<open>The pieces under each change\<close>

lemma minion_ok_mono: "minion_ok c n m \<Longrightarrow> n \<le> n' \<Longrightarrow> minion_ok c n' m"
  by (auto simp: minion_ok_def intro: le_trans)

lemma player_ok_mono: "player_ok c n p \<Longrightarrow> n \<le> n' \<Longrightarrow> player_ok c n' p"
  by (auto simp: player_ok_def intro: minion_ok_mono)

lemma minion_ok_update [simp]:
  "minion_ok c n (m\<lparr>mCanAttack := b\<rparr>) = minion_ok c n m"
  "0 \<le> d \<Longrightarrow> minion_ok c n m \<Longrightarrow> minion_ok c n (m\<lparr>mHP := mHP m - d\<rparr>)"
  by (auto simp: minion_ok_def)

lemma minion_ok_atk:
  assumes "minion_ok c n m" and "wf_catalog c" shows "0 \<le> mAtk m"
  using assms catalog.get_minion [OF assms(2)] by (force simp: minion_ok_def)

lemma player_ok_begun:
  assumes "player_ok c n p" shows "player_ok c n (begun p)"
  using assms by (auto simp: player_ok_def battle_consts)

lemma alive_begun [simp]: "alive (begun p) = alive p"
  by (auto simp: alive_def)

lemma board_ids_begun [simp]: "map mInstID (pBoard (begun p)) = map mInstID (pBoard p)"
  by (simp add: comp_def)

lemma held_begun [simp]: "held (begun p) = held p"
  by (cases "pDeck p") (simp_all add: held_def)

lemma outcome_ok_checkOver:
  assumes "\<not> Over s" and "Winner s = []"
  shows "outcome_ok (checkOver s)"
  using assms by (auto simp: outcome_ok_def checkOver_def Let_def)

lemma outcome_running: "outcome_ok s \<Longrightarrow> \<not> Over s \<Longrightarrow> Winner s = []"
  by (auto simp: outcome_ok_def Let_def)

lemma outcome_hp: "outcome_ok s \<Longrightarrow> \<not> Over s \<Longrightarrow> i < 2 \<Longrightarrow> 0 < pHP (player s i)"
  by (auto simp: outcome_ok_def Let_def less_two)

lemma outcome_ok_cong:
  assumes "outcome_ok s" "Over t = Over s" "Winner t = Winner s"
    "\<And>i. i < 2 \<Longrightarrow> pHP (player t i) = pHP (player s i) \<and> pID (player t i) = pID (player s i)"
  shows "outcome_ok t"
  using assms(1) assms(4) [of 0] assms(4) [of 1] by (simp add: outcome_ok_def Let_def assms(2,3))

lemma shape_ok_cong:
  assumes "shape_ok s" "length (Players t) = 2" "InitDecks t = InitDecks s" "cat t = cat s"
    "Turn t < 2" "\<And>j. j < 2 \<Longrightarrow> pID (player t j) = pID (player s j)"
  shows "shape_ok t"
  using assms(1-5) assms(6) [of 0] assms(6) [of 1] by (simp add: shape_ok_def)

lemma cards_ok_cong:
  assumes "cards_ok s" "InitDecks t = InitDecks s" "nextInstID t = nextInstID s"
    "\<And>j. j < 2 \<Longrightarrow> held (player t j) = held (player s j)"
  shows "cards_ok t"
  using assms(1-3) assms(4) [of 0] assms(4) [of 1] by (auto simp: cards_ok_def two_players)

lemma player_ok_hit:
  assumes "player_ok c n p" "k < length (pBoard p)" "0 \<le> d"
  shows "player_ok c n (hitMinion p k d)" "player_ok c n (tireMinion p k)"
  using assms by (auto simp: player_ok_def hitMinion_def tireMinion_def dest!: set_update_subset_insert [THEN subsetD])

lemma player_ok_face: "player_ok c n p \<Longrightarrow> 0 \<le> d \<Longrightarrow> player_ok c n (p\<lparr>pHP := pHP p - d\<rparr>)"
  by (simp add: player_ok_def)

lemma board_ids_hit [simp]:
  "k < length (pBoard p) \<Longrightarrow> map mInstID (pBoard (hitMinion p k d)) = map mInstID (pBoard p)"
  "k < length (pBoard p) \<Longrightarrow> map mInstID (pBoard (tireMinion p k)) = map mInstID (pBoard p)"
  by (simp_all add: hitMinion_def tireMinion_def map_update list_update_same_conv)

lemma hit_fields [simp]:
  "pID (hitMinion p k d) = pID p" "pHP (hitMinion p k d) = pHP p"
  "pDeck (hitMinion p k d) = pDeck p" "pHand (hitMinion p k d) = pHand p"
  "pMana (hitMinion p k d) = pMana p" "pMaxMana (hitMinion p k d) = pMaxMana p"
  "pFatigue (hitMinion p k d) = pFatigue p"
  "length (pBoard (hitMinion p k d)) = length (pBoard p)"
  "pID (tireMinion p k) = pID p" "pHP (tireMinion p k) = pHP p"
  "pDeck (tireMinion p k) = pDeck p" "pHand (tireMinion p k) = pHand p"
  "pMana (tireMinion p k) = pMana p" "pMaxMana (tireMinion p k) = pMaxMana p"
  "pFatigue (tireMinion p k) = pFatigue p"
  "length (pBoard (tireMinion p k)) = length (pBoard p)"
  by (simp_all add: hitMinion_def tireMinion_def)

definition bury :: "Player \<Rightarrow> Player" where
  "bury p = p\<lparr>pBoard := filter (\<lambda>m. 0 < mHP m) (pBoard p)\<rparr>"

lemma bury_fields [simp]:
  "pID (bury p) = pID p" "pHP (bury p) = pHP p" "pDeck (bury p) = pDeck p"
  "pHand (bury p) = pHand p" "pMana (bury p) = pMana p" "pMaxMana (bury p) = pMaxMana p"
  "pFatigue (bury p) = pFatigue p" "pBoard (bury p) = filter (\<lambda>m. 0 < mHP m) (pBoard p)"
  "alive (bury p)" "held (bury p) = held p"
  by (auto simp: bury_def alive_def held_def)

lemma player_ok_bury: "player_ok c n p \<Longrightarrow> player_ok c n (bury p)"
  by (auto simp: player_ok_def intro: le_trans [OF length_filter_le])

lemma player_removeDead_bury:
  "i < length (Players s) \<Longrightarrow> player (removeDead s) i = bury (player s i)"
  by (simp add: bury_def)

lemma distinct_map_filter: "distinct (map f xs) \<Longrightarrow> distinct (map f (filter P xs))"
  by (induction xs) auto

subsection \<open>The accepted actions keep it\<close>

lemma player_ok_played:
  assumes "player_ok c n p" "wf_catalog c" "Get c i = Some cd" "cType cd = TypeMinion"
    "cCost cd \<le> pMana p" "length (pBoard p) < BoardLimit"
  shows "player_ok c (Suc n) (playedCard p hi cd (Suc n))"
proof -
  have id: "cID cd = i" "0 \<le> cCost cd"
    using assms(2,3) catalog.get_id catalog.get_cost by blast+
  have "minion_ok c (Suc n) (newMinion cd (Suc n))"
    using assms(3,4) id by (auto simp: minion_ok_def newMinion_def)
  with id show ?thesis
    using assms(5,6) player_ok_mono [OF assms(1), of "Suc n"]
    by (auto simp: player_ok_def playedCard_def)
qed

lemma fresh_inst_id:
  assumes "player_ok c n p" shows "inst_id (Suc n) \<notin> mInstID ` set (pBoard p)"
  using assms by (fastforce simp: player_ok_def minion_ok_def)

lemma held_played:
  assumes "indexOfString (pHand p) x = Some hi"
  shows "add_mset x (held (playedCard p hi cd n)) = held p"
  using indexOfString_Some [OF assms] mset_remove_at [of hi "pHand p"]
  by (auto simp: held_def playedCard_def simp flip: add_mset_add_single union_mset_add_mset_left)

lemma playedCard_fields [simp]:
  "pID (playedCard p hi cd n) = pID p" "pHP (playedCard p hi cd n) = pHP p"
  "pBoard (playedCard p hi cd n) = pBoard p @ [newMinion cd n]"
  "pDeck (playedCard p hi cd n) = pDeck p" "pFatigue (playedCard p hi cd n) = pFatigue p"
  "pMaxMana (playedCard p hi cd n) = pMaxMana p"
  "pHand (playedCard p hi cd n) = remove_at hi (pHand p)"
  by (simp_all add: playedCard_def)

lemma newMinion_fields [simp]:
  "mInstID (newMinion cd n) = inst_id n" "mHP (newMinion cd n) = cHP cd"
  "mCanAttack (newMinion cd n) = False" "mAtk (newMinion cd n) = cAtk cd"
  "mMaxHP (newMinion cd n) = cHP cd" "mCardID (newMinion cd n) = cID cd"
  by (simp_all add: newMinion_def)

lemma wf_played:
  assumes wf: "wf_state s" and i: "i < 2"
    and hi: "indexOfString (pHand (player s i)) x = Some hi"
    and cd: "Get (cat s) x = Some cd" "cType cd = TypeMinion" "cCost cd \<le> pMana (player s i)"
      "length (pBoard (player s i)) < BoardLimit"
  shows "wf_state (setPlayer (s\<lparr>nextInstID := Suc (nextInstID s)\<rparr>) i
            (playedCard (player s i) hi cd (Suc (nextInstID s))))" (is "wf_state ?t")
proof -
  note d = wf_stateD [OF wf]
  let ?n = "nextInstID s" and ?q = "playedCard (player s i) hi cd (Suc (nextInstID s))"
  have len: "i < length (Players s)" using d(1) i by simp
  have pl: "player ?t j = (if j = i then ?q else player s j)" for j
    using len by simp
  have hp: "0 < cHP cd" using catalog.get_minion [OF d(3) cd(1,2)] by simp
  have "player_ok (cat s) (Suc ?n) (player ?t j)" if "j < 2" for j
    using d(8) [OF that] d(8) [OF i] cd d(3) unfolding pl
    by (auto intro: player_ok_mono player_ok_played)
  moreover have "alive (player ?t j)" if "j < 2" for j
    using d(9) [OF that] hp unfolding pl by (auto simp: alive_def)
  moreover have "distinct (board_ids ?t)"
    using d(6) i fresh_inst_id [OF d(8) [of 0]] fresh_inst_id [OF d(8) [of 1]] pl
    by (auto simp: board_ids_def less_two)
  moreover have "outcome_ok ?t"
    by (rule outcome_ok_cong [OF d(4)]) (auto simp: pl)
  moreover have "cards_ok ?t"
  proof -
    have h: "add_mset x (held ?q) = held (player s i)" using hi by (rule held_played)
    have "held ?q \<subseteq># mset (InitDecks s ! i)"
      using d(5) i subset_mset.trans [of "held ?q" "held (player s i)"]
      by (auto simp: cards_ok_def simp flip: h)
    moreover have "size (held (player s i)) = Suc (size (held ?q))"
      by (simp flip: h)
    ultimately show ?thesis
      using d(5) i by (auto simp: cards_ok_def pl two_players less_two)
  qed
  moreover have "shape_ok ?t"
    by (rule shape_ok_cong [OF d(7)]) (use d(1,2) pl in auto)
  ultimately show ?thesis by (simp add: wf_state_def)
qed

lemma wf_ended:
  assumes wf: "wf_state s" and run: "\<not> Over s" and i: "i < 2"
  shows "wf_state (beginTurn (s\<lparr>Turn := i, Round := r\<rparr>) i)" (is "wf_state (beginTurn ?s i)")
proof -
  note d = wf_stateD [OF wf]
  let ?t = "beginTurn ?s i"
  have len: "i < length (Players ?s)" using d(1) i by simp
  have pl: "player ?t j = (if j = i then begun (player s i) else player s j)" for j
    using len by simp
  have "\<forall>j<2. player_ok (cat s) (nextInstID s) (player ?t j) \<and> alive (player ?t j)"
    using d(8,9) i by (auto simp: pl player_ok_begun)
  moreover have "distinct (board_ids ?t)"
    using d(6) unfolding board_ids_def pl by (auto simp: comp_def)
  moreover have "outcome_ok ?t"
  proof (cases "pDeck (player s i) = []")
    case True
    with len have "?t = checkOver (setPlayer ?s i (begun (player s i)))" by (simp add: beginTurn_eq)
    with run outcome_running [OF d(4) run] show ?thesis
      by (simp add: outcome_ok_checkOver)
  next
    case False
    with len have "?t = setPlayer ?s i (begun (player s i))" by (simp add: beginTurn_eq)
    with False len show ?thesis
      by (intro outcome_ok_cong [OF d(4)]) auto
  qed
  moreover have "cards_ok ?t"
    by (rule cards_ok_cong [OF d(5)]) (use len pl in auto)
  moreover have "shape_ok ?t"
    by (rule shape_ok_cong [OF d(7)]) (use d(1) i len pl in auto)
  ultimately show ?thesis using len by (simp add: wf_state_def)
qed

subsection \<open>An attack\<close>

lemma chooseTarget_Inr:
  assumes "chooseTarget me opposite tgt = Inr target"
  shows "(target = None \<and> tgt = ''face'') \<or>
    (\<exists>kd. target = Some kd \<and> kd < length (pBoard opposite) \<and> mInstID (pBoard opposite ! kd) = tgt)"
proof (cases "tgt = ''face''")
  case True
  with assms show ?thesis by (simp add: chooseTarget_def)
next
  case False
  with assms obtain kd where "findMinion opposite tgt = Some kd" "target = Some kd"
    by (simp add: chooseTarget_def del: findMinion_None split: option.splits)
  with findMinion_Some [of opposite tgt kd] show ?thesis by simp
qed

lemma attacked_state_fields [simp]:
  "Turn (attacked_state s i ka target) = Turn s" "Round (attacked_state s i ka target) = Round s"
  "Over (attacked_state s i ka target) = Over s" "Winner (attacked_state s i ka target) = Winner s"
  "InitDecks (attacked_state s i ka target) = InitDecks s"
  "cat (attacked_state s i ka target) = cat s" "Seed (attacked_state s i ka target) = Seed s"
  "RoomID (attacked_state s i ka target) = RoomID s" "rng (attacked_state s i ka target) = rng s"
  "nextInstID (attacked_state s i ka target) = nextInstID s"
  "length (Players (attacked_state s i ka target)) = length (Players s)"
  by (simp_all add: attacked_state_def strike_def Let_def split: option.splits)

lemma player_attacked_state:
  assumes "length (Players s) = 2" "i < 2"
  shows "player (attacked_state s i ka target) i =
      tireMinion (case target of None \<Rightarrow> player s i
        | Some kd \<Rightarrow> hitMinion (player s i) ka (mAtk (pBoard (player s (1 - i)) ! kd))) ka"
    and "player (attacked_state s i ka target) (Suc 0 - i) =
      (let opp = player s (1 - i); d = mAtk (pBoard (player s i) ! ka) in
       case target of None \<Rightarrow> opp\<lparr>pHP := pHP opp - d\<rparr> | Some kd \<Rightarrow> hitMinion opp kd d)"
  using assms by (auto simp: attacked_state_def strike_def Let_def less_two split: option.splits)

lemma wf_attacked:
  assumes wf: "wf_state s" and run: "\<not> Over s" and i: "i < 2"
    and ka: "ka < length (pBoard (player s i))" and atk: "0 < mAtk (pBoard (player s i) ! ka)"
    and tgt: "\<And>kd. target = Some kd \<Longrightarrow> kd < length (pBoard (player s (1 - i)))"
  shows "wf_state (checkOver (removeDead (attacked_state s i ka target)))" (is "wf_state ?t")
proof -
  note d = wf_stateD [OF wf]
  let ?u = "attacked_state s i ka target" and ?c = "cat s" and ?n = "nextInstID s"
  have o: "1 - i < 2" by simp
  note pl = player_attacked_state [OF d(1) i]
  have def_atk: "0 \<le> mAtk (pBoard (player s (1 - i)) ! kd)" if "target = Some kd" for kd
    using minion_ok_atk [OF _ d(3)] d(8) [OF o] tgt [OF that] nth_mem [of kd]
    by (auto simp: player_ok_def)
  have ok: "player_ok ?c ?n (player ?u j)" if "j < 2" for j
    using two_cases [OF i that] d(8) [OF i] d(8) [OF o] ka atk tgt def_atk
    by (cases target) (auto simp: pl Let_def intro!: player_ok_hit player_ok_face)
  have same: "map mInstID (pBoard (player ?u j)) = map mInstID (pBoard (player s j)) \<and>
      held (player ?u j) = held (player s j) \<and> pID (player ?u j) = pID (player s j)" if "j < 2" for j
    using two_cases [OF i that] ka tgt by (auto simp: pl Let_def held_def split: option.splits)
  have t: "player ?t j = bury (player ?u j)" if "j < 2" for j
    using that d(1) by (simp add: player_removeDead_bury del: player_removeDead)
  have "player_ok ?c ?n (player ?t j) \<and> alive (player ?t j)" if "j < 2" for j
    unfolding t [OF that] using ok [OF that] by (simp add: player_ok_bury)
  moreover have "distinct (board_ids ?t)"
  proof -
    have "board_ids ?u = board_ids s" using same by (simp add: board_ids_def)
    with d(6) have "distinct (board_ids ?u)" by simp
    then show ?thesis using t [of 0] t [of 1]
      by (auto simp: board_ids_def distinct_map_filter)
  qed
  moreover have "outcome_ok ?t"
    using run outcome_running [OF d(4) run] by (intro outcome_ok_checkOver) simp_all
  moreover have "cards_ok ?t"
    by (rule cards_ok_cong [OF d(5)]) (use same t in auto)
  moreover have "shape_ok ?t"
    by (rule shape_ok_cong [OF d(7)]) (use d(1,2) same t in auto)
  ultimately show ?thesis by (simp add: wf_state_def)
qed

text \<open>Every \<open>Apply\<close>, accepted or not, keeps the invariant.\<close>

lemma Apply_wf:
  assumes "wf_state s"
  shows "wf_state (fst (Apply s pid a))"
  using wf_stateD(1) [OF assms]
proof (cases rule: Apply_cases [where pid = pid and a = a])
  case (attacked i ka target)
  have "ka < length (pBoard (player s i))"
    using findMinion_Some [OF attacked(6)] by simp
  moreover have "target = Some kd \<Longrightarrow> kd < length (pBoard (player s (1 - i)))" for kd
    using chooseTarget_Inr [OF attacked(9)] by auto
  ultimately show ?thesis
    using wf_attacked [OF assms attacked(1,4) _ attacked(8)] attacked(10) by simp
qed (use assms wf_played wf_ended in auto)

end
