(* ===== verification/Battle_Game.thy ===== *)
theory Battle_Game
  imports Battle_Inv
begin

text \<open>
  Whole games: the states reachable from \<open>NewState\<close> by any sequence of \<open>Apply\<close>
  calls of any players, the invariant on them, and the invariant checker of
  \<open>internal/battle/fuzz_test.go\<close>, which passes on every one of them.
\<close>

section \<open>The state NewState builds\<close>

definition freshPlayer :: "string \<Rightarrow> string list \<Rightarrow> Player" where
  "freshPlayer i d = \<lparr>pID = i, pHP = StartHP, pMana = 0, pMaxMana = 0, pDeck = d,
                      pHand = [], pBoard = [], pFatigue = 0\<rparr>"

definition dealt :: "nat \<Rightarrow> Player \<Rightarrow> Player" where
  "dealt k p = p\<lparr>pDeck := drop k (pDeck p), pHand := pHand p @ take k (pDeck p)\<rparr>"

lemma dealHands_fields [simp]:
  "RoomID (dealHands k s) = RoomID s" "Turn (dealHands k s) = Turn s"
  "Round (dealHands k s) = Round s" "Seed (dealHands k s) = Seed s"
  "Over (dealHands k s) = Over s" "Winner (dealHands k s) = Winner s"
  "InitDecks (dealHands k s) = InitDecks s" "cat (dealHands k s) = cat s"
  "rng (dealHands k s) = rng s" "nextInstID (dealHands k s) = nextInstID s"
  "length (Players (dealHands k s)) = length (Players s)"
  by (induction k arbitrary: s) simp_all

lemma player_dealHands:
  "length (Players s) = 2 \<Longrightarrow> i < 2 \<Longrightarrow> player (dealHands k s) i = dealt k (player s i)"
proof (induction k arbitrary: s)
  case 0
  then show ?case by (simp add: dealt_def)
next
  case (Suc k)
  then show ?case
    by (cases "pDeck (player s i)") (auto simp: dealt_def less_two)
qed

lemma checkDecks_None:
  "checkDecks xs = None \<longleftrightarrow> (\<forall>x \<in> set xs. HandStart < length (iCards x))"
  by (induction xs) auto

text \<open>The table before the first turn begins.\<close>

definition table ::
  "shuffle_lib \<Rightarrow> string \<Rightarrow> Catalog \<Rightarrow> PlayerInit \<Rightarrow> PlayerInit \<Rightarrow> int \<Rightarrow> State" where
  "table sw roomID c a b seed =
     (let (da, g) = shuffle sw \<lparr>seedOf = seed, shuffled = []\<rparr> (iCards a);
          (db, g') = shuffle sw g (iCards b)
      in \<lparr>RoomID = roomID, Players = [freshPlayer (iID a) da, freshPlayer (iID b) db], Turn = 0,
          Round = 1, Seed = seed, Over = False, Winner = [],
          InitDecks = [iCards a, iCards b], cat = c, rng = g', nextInstID = 0\<rparr>)"

lemma NewState_Inr:
  "NewState sw roomID oc a b seed = Inr s \<longleftrightarrow>
     (\<exists>c. oc = Some c \<and> iID a \<noteq> [] \<and> iID b \<noteq> [] \<and> iID a \<noteq> iID b \<and>
        HandStart < length (iCards a) \<and> HandStart < length (iCards b) \<and>
        s = beginTurn (dealHands HandStart (table sw roomID c a b seed)) 0)"
  by (auto simp: NewState_def addPlayer_def table_def freshPlayer_def Let_def not_le
      split: option.splits prod.splits if_splits)

lemma table_fields [simp]:
  "length (Players (table sw r c a b seed)) = 2" "Turn (table sw r c a b seed) = 0"
  "Round (table sw r c a b seed) = 1" "Seed (table sw r c a b seed) = seed"
  "Over (table sw r c a b seed) = False" "Winner (table sw r c a b seed) = []"
  "InitDecks (table sw r c a b seed) = [iCards a, iCards b]" "cat (table sw r c a b seed) = c"
  "nextInstID (table sw r c a b seed) = 0" "RoomID (table sw r c a b seed) = r"
  by (simp_all add: table_def split: prod.splits)

lemma player_table:
  assumes "shuffle_ok sw"
  obtains da db where
    "player (table sw r c a b seed) 0 = freshPlayer (iID a) da" "mset da = mset (iCards a)"
    "player (table sw r c a b seed) (Suc 0) = freshPlayer (iID b) db" "mset db = mset (iCards b)"
proof -
  let ?g = "\<lparr>seedOf = seed, shuffled = []\<rparr>"
  obtain da g where 1: "shuffle sw ?g (iCards a) = (da, g)" by (cases "shuffle sw ?g (iCards a)")
  obtain db g' where 2: "shuffle sw g (iCards b) = (db, g')" by (cases "shuffle sw g (iCards b)")
  show ?thesis
    by (rule that [of da db])
      (use 1 2 shuffle_mset [OF assms, of ?g "iCards a"] shuffle_mset [OF assms, of g "iCards b"]
        in \<open>auto simp: table_def player_def\<close>)
qed

lemma set_turn_same: "Turn s = t \<Longrightarrow> Round s = r \<Longrightarrow> s\<lparr>Turn := t, Round := r\<rparr> = s"
  by (cases s) simp

lemma NewState_wf:
  assumes new: "NewState sw roomID (Some c) a b seed = Inr s" and "shuffle_ok sw" and "wf_catalog c"
  shows "wf_state s"
proof -
  let ?t = "table sw roomID c a b seed" and ?d = "dealHands HandStart (table sw roomID c a b seed)"
  from new have ids: "iID a \<noteq> []" "iID b \<noteq> []" "iID a \<noteq> iID b"
    and s: "s = beginTurn ?d 0" by (auto simp: NewState_Inr)
  obtain da db where t: "player ?t 0 = freshPlayer (iID a) da" "mset da = mset (iCards a)"
      "player ?t (Suc 0) = freshPlayer (iID b) db" "mset db = mset (iCards b)"
    by (rule player_table [OF assms(2)])
  have held: "held (dealt k (freshPlayer i d)) = mset d" for k i d
    by (simp add: held_def dealt_def freshPlayer_def flip: mset_append)
  have p: "player ?d 0 = dealt HandStart (freshPlayer (iID a) da)"
    "player ?d (Suc 0) = dealt HandStart (freshPlayer (iID b) db)"
    by (simp_all add: player_dealHands t)
  have "cards_ok ?d"
    using t(2,4) mset_eq_length [OF t(2)] mset_eq_length [OF t(4)]
    by (simp add: cards_ok_def two_players p held)
  moreover have "shape_ok ?d"
    using ids assms(3) by (simp add: shape_ok_def p dealt_def freshPlayer_def)
  moreover have "player_ok n k (dealt HandStart (freshPlayer i d))"
      "alive (dealt HandStart (freshPlayer i d))" for n k i d
    by (simp_all add: player_ok_def alive_def dealt_def freshPlayer_def battle_consts)
  then have "\<forall>i<2. player_ok (cat ?d) (nextInstID ?d) (player ?d i) \<and> alive (player ?d i)"
    by (simp add: two_players p)
  moreover have "distinct (board_ids ?d)"
    by (simp add: board_ids_def p dealt_def freshPlayer_def)
  moreover have "outcome_ok ?d"
    by (simp add: outcome_ok_def p dealt_def freshPlayer_def StartHP_def)
  ultimately have "wf_state ?d" by (simp add: wf_state_def)
  then have "wf_state (beginTurn (?d\<lparr>Turn := 0, Round := 1\<rparr>) 0)"
    by (rule wf_ended) simp_all
  moreover have "?d\<lparr>Turn := 0, Round := 1\<rparr> = ?d"
    by (rule set_turn_same) simp_all
  ultimately show ?thesis unfolding s by (simp only:)
qed

section \<open>Reachable states\<close>

inductive game :: "shuffle_lib \<Rightarrow> State \<Rightarrow> bool" for sw where
  start: "wf_catalog c \<Longrightarrow> NewState sw roomID (Some c) a b seed = Inr s \<Longrightarrow> game sw s"
| act: "game sw s \<Longrightarrow> game sw (fst (Apply s pid a))"

lemma game_wf:
  assumes "shuffle_ok sw"
  shows "game sw s \<Longrightarrow> wf_state s"
  by (induction rule: game.induct) (use assms NewState_wf Apply_wf in blast)+

section \<open>The checker of the fuzz test\<close>

fun checkBoard :: "string list \<Rightarrow> Minion list \<Rightarrow> string list option" where
  "checkBoard seen [] = Some seen"
| "checkBoard seen (m # ms) =
     (if mHP m \<le> 0 \<or> mHP m > mMaxHP m then None
      else if mInstID m \<in> set seen then None
      else checkBoard (mInstID m # seen) ms)"

fun checkPlayers :: "string list \<Rightarrow> Player list \<Rightarrow> nat list \<Rightarrow> nat list \<Rightarrow> bool" where
  "checkPlayers seen (p # ps) (n # ns) (k # ks) =
     (if pHP p > StartHP then False
      else if pMana p < 0 \<or> pMana p > pMaxMana p \<or> pMaxMana p > MaxMana then False
      else if pFatigue p < 0 then False
      else if pFatigue p > 0 \<and> length (pDeck p) > 0 then False
      else if length (pBoard p) > BoardLimit then False
      else
        (case checkBoard seen (pBoard p) of
           None \<Rightarrow> False
         | Some seen' \<Rightarrow>
             if length (pHand p) + length (pDeck p) + k \<noteq> n then False
             else checkPlayers seen' ps ns ks))"
| "checkPlayers seen [] ns ks = True"
| "checkPlayers seen ps ns ks = False"

definition checkInvariants :: "State \<Rightarrow> nat list \<Rightarrow> nat list \<Rightarrow> bool" where
  "checkInvariants s init played =
     (if Turn s \<noteq> 0 \<and> Turn s \<noteq> 1 then False
      else if \<not> checkPlayers [] (Players s) init played then False
      else if played ! 0 + played ! 1 \<noteq> nextInstID s then False
      else
        (let dead0 = pHP (player s 0) \<le> 0; dead1 = pHP (player s 1) \<le> 0 in
         if Over s \<noteq> (dead0 \<or> dead1) then False
         else if dead0 \<and> dead1 \<and> Winner s \<noteq> [] then False
         else if dead0 \<and> \<not> dead1 \<and> Winner s \<noteq> pID (player s 1) \<or>
                 dead1 \<and> \<not> dead0 \<and> Winner s \<noteq> pID (player s 0) then False
         else True))"

text \<open>One iteration of the fuzz loop: an accepted \<open>play_card\<close> is counted.\<close>

definition fuzzStep :: "string \<times> Action \<Rightarrow> State \<times> nat list \<Rightarrow> State \<times> nat list" where
  "fuzzStep pa st =
     (let (pid, act) = pa; (s, played) = st in
      case Apply s pid act of
        (s', Some e) \<Rightarrow> (s', played)
      | (s', None) \<Rightarrow>
          (s', if aType act = ''play_card''
               then (case indexOf s' pid of None \<Rightarrow> played | Some i \<Rightarrow> played[i := played ! i + 1])
               else played))"

text \<open>What the counters add to the invariant.\<close>

definition counted :: "State \<Rightarrow> nat list \<Rightarrow> bool" where
  "counted s played \<longleftrightarrow>
     length played = 2 \<and> (\<forall>i<2. size (held (player s i)) + played ! i = length (InitDecks s ! i))"

lemma indexOf_unique:
  assumes "shape_ok s" "i < 2" "pID (player s i) = pid"
  shows "indexOf s pid = Some i"
proof -
  have len: "length (Players s) = 2" using assms(1) by (simp add: shape_ok_def)
  then have "pid \<in> pID ` set (Players s)"
    using assms(2,3) nth_mem [of i "Players s"] by (auto simp: player_def)
  then obtain j where j: "indexOf s pid = Some j"
    using indexOf_None by (cases "indexOf s pid") auto
  with indexOf_Some [OF j] assms len show ?thesis
    by (auto simp: shape_ok_def less_two)
qed

lemma checkBoard_Some:
  assumes "\<forall>m \<in> set ms. 0 < mHP m \<and> mHP m \<le> mMaxHP m" "distinct (map mInstID ms)"
    "mInstID ` set ms \<inter> set seen = {}"
  shows "checkBoard seen ms = Some (rev (map mInstID ms) @ seen)"
  using assms by (induction ms arbitrary: seen) auto

lemma checkInvariants_wf:
  assumes wf: "wf_state s" and counted: "counted s played"
    and init: "init = map length (InitDecks s)"
  shows "checkInvariants s init played"
proof -
  note d = wf_stateD [OF wf]
  obtain p q where pl: "Players s = [p, q]" by (rule length_twoE [OF d(1)])
  obtain da db where ini: "InitDecks s = [da, db]"
    using d(7) length_twoE unfolding shape_ok_def by metis
  obtain k l where ks: "played = [k, l]" using counted length_twoE unfolding counted_def by metis
  have p0: "player s 0 = p" "player s (Suc 0) = q" by (simp_all add: player_def pl)
  have ok: "player_ok (cat s) (nextInstID s) p" "player_ok (cat s) (nextInstID s) q"
    "alive p" "alive q"
    using d(8,9) [of 0] d(8,9) [of 1] by (auto simp: p0)
  have ids: "distinct (map mInstID (pBoard p))" "distinct (map mInstID (pBoard q))"
    "mInstID ` set (pBoard q) \<inter> mInstID ` set (pBoard p) = {}"
    using d(6) by (auto simp: board_ids_def p0)
  have "checkBoard [] (pBoard p) = Some (rev (map mInstID (pBoard p)))"
    using checkBoard_Some [of "pBoard p" "[]"] ok(1,3) ids
    by (auto simp: player_ok_def minion_ok_def alive_def)
  moreover have "checkBoard (rev (map mInstID (pBoard p))) (pBoard q) \<noteq> None"
    using checkBoard_Some [of "pBoard q" "rev (map mInstID (pBoard p))"] ok(2,4) ids
    by (auto simp: player_ok_def minion_ok_def alive_def)
  moreover have "length (pHand p) + length (pDeck p) + k = length da"
    "length (pHand q) + length (pDeck q) + l = length db"
    using counted by (auto simp: counted_def two_players p0 ini ks held_def)
  moreover have "\<not> StartHP < pHP x \<and> \<not> (pMana x < 0 \<or> pMaxMana x < pMana x \<or> MaxMana < pMaxMana x) \<and>
      \<not> pFatigue x < 0 \<and> \<not> (0 < pFatigue x \<and> 0 < length (pDeck x)) \<and> \<not> BoardLimit < length (pBoard x)"
    if "player_ok (cat s) (nextInstID s) x" for x
    using that by (auto simp: player_ok_def)
  note this [OF ok(1)] this [OF ok(2)]
  ultimately have "checkPlayers [] (Players s) init played"
    by (simp add: pl init ini ks split: option.split)
  moreover have "played ! 0 + played ! 1 = nextInstID s"
    using counted d(5) by (auto simp: counted_def cards_ok_def two_players ks)
  moreover have "Turn s = 0 \<or> Turn s = 1" using d(2) by auto
  ultimately show ?thesis
    using d(4) by (auto simp: checkInvariants_def outcome_ok_def Let_def)
qed

lemma Apply_accepted_index:
  assumes "wf_state s" and "Apply s pid a = (s', None)"
  shows "\<exists>i<2. i = Turn s \<and> \<not> Over s \<and> indexOf s pid = Some i"
  using wf_stateD(1) [OF assms(1)] by (cases rule: Apply_cases [where pid = pid and a = a]) (use assms(2) in auto)

lemma shape_ok_index:
  assumes "shape_ok s" "shape_ok s'" "indexOf s pid = Some i" "i < 2"
    "pID (player s' i) = pID (player s i)"
  shows "indexOf s' pid = Some i"
  using indexOf_unique [OF assms(2,4)] indexOf_Some [OF assms(3)] assms(5) by simp

lemma held_attacked:
  assumes "length (Players s) = 2" "i < 2" "j < 2"
  shows "held (player (checkOver (removeDead (attacked_state s i ka target))) j) = held (player s j)"
    and "pID (player (checkOver (removeDead (attacked_state s i ka target))) j) = pID (player s j)"
  using two_cases [OF assms(2,3)] assms player_attacked_state [OF assms(1,2), of ka target]
  by (auto simp: held_def Let_def split: option.splits)

lemma fuzzStep_counted:
  assumes wf: "wf_state s" and counted: "counted s played"
  shows "counted (fst (fuzzStep (pid, a) (s, played))) (snd (fuzzStep (pid, a) (s, played)))"
  using wf_stateD(1) [OF wf]
proof (cases rule: Apply_cases [where pid = pid and a = a])
  case (rejected e)
  then show ?thesis using counted by (simp add: fuzzStep_def)
next
  case (played i hi cd)
  let ?q = "playedCard (player s i) hi cd (Suc (nextInstID s))"
  let ?t = "setPlayer (s\<lparr>nextInstID := Suc (nextInstID s)\<rparr>) i ?q"
  note d = wf_stateD [OF wf]
  have sh: "shape_ok ?t" using wf_stateD(7) [OF Apply_wf [OF wf, of pid a]] played by simp
  have "indexOf ?t pid = Some i"
    using shape_ok_index [OF d(7) sh] played(2,4) d(1) by simp
  moreover have "size (held (player s i)) = Suc (size (held ?q))"
    using held_played [OF played(6), of cd "Suc (nextInstID s)"] by (metis size_add_mset)
  ultimately show ?thesis
    using counted played(4,5,11) d(1) by (auto simp: fuzzStep_def counted_def two_players less_two)
next
  case (attacked i ka target)
  then show ?thesis
    using counted held_attacked(1) [OF wf_stateD(1) [OF wf], of i _ ka target]
    by (simp add: fuzzStep_def counted_def two_players)
next
  case (ended i)
  then show ?thesis
    using counted wf_stateD(1) [OF wf] by (simp add: fuzzStep_def counted_def two_players)
qed

text \<open>What no action changes.\<close>

lemma Apply_const:
  assumes "length (Players s) = 2"
  shows "InitDecks (fst (Apply s pid a)) = InitDecks s \<and> Seed (fst (Apply s pid a)) = Seed s \<and>
    RoomID (fst (Apply s pid a)) = RoomID s \<and> cat (fst (Apply s pid a)) = cat s \<and>
    rng (fst (Apply s pid a)) = rng s \<and> length (Players (fst (Apply s pid a))) = 2 \<and>
    (\<forall>j<2. pID (player (fst (Apply s pid a)) j) = pID (player s j))"
  using assms
proof (cases rule: Apply_cases [where pid = pid and a = a])
  case (attacked i ka target)
  then show ?thesis
    using assms held_attacked(2) [OF assms, of i _ ka target]
    by (simp add: two_players)
qed (use assms in auto)

lemmas Apply_InitDecks = Apply_const [THEN conjunct1]

lemma fuzz_run:
  assumes "wf_state s" "counted s played"
  shows "fold fuzzStep acts (s, played) = (s', played') \<Longrightarrow>
    wf_state s' \<and> counted s' played' \<and> InitDecks s' = InitDecks s"
  using assms
proof (induction acts arbitrary: s played)
  case Nil
  then show ?case by simp
next
  case (Cons pa acts)
  obtain pid a where pa: "pa = (pid, a)" by (cases pa)
  obtain s1 p1 where st: "fuzzStep pa (s, played) = (s1, p1)" by (cases "fuzzStep pa (s, played)")
  have s1: "s1 = fst (Apply s pid a)"
    using st by (auto simp: fuzzStep_def pa split: prod.splits option.splits)
  have "wf_state s1" using Apply_wf [OF Cons.prems(2)] by (simp add: s1)
  moreover have "counted s1 p1"
    using fuzzStep_counted [OF Cons.prems(2,3), of pid a] st pa by simp
  moreover have "InitDecks s1 = InitDecks s"
    using Apply_InitDecks [OF wf_stateD(1) [OF Cons.prems(2)]] by (simp add: s1)
  ultimately show ?case using Cons.IH [of s1 p1] Cons.prems(1) st by simp
qed

text \<open>The current player's actions reach their handler.\<close>

lemma Apply_current:
  assumes "wf_state s" "\<not> Over s" "i = Turn s"
  shows "aType a = ''play_card'' \<Longrightarrow> Apply s (pID (player s i)) a = playCard s i a"
    and "aType a = ''attack'' \<Longrightarrow> Apply s (pID (player s i)) a = attack s i a"
    and "aType a = ''end_turn'' \<Longrightarrow> Apply s (pID (player s i)) a = endTurn s i"
proof -
  have "indexOf s (pID (player s i)) = Some (Turn s)"
    using wf_stateD(2,7) [OF assms(1)] assms(3) by (intro indexOf_unique) simp_all
  note ix = this
  show "aType a = ''play_card'' \<Longrightarrow> Apply s (pID (player s i)) a = playCard s i a"
    and "aType a = ''attack'' \<Longrightarrow> Apply s (pID (player s i)) a = attack s i a"
    and "aType a = ''end_turn'' \<Longrightarrow> Apply s (pID (player s i)) a = endTurn s i"
    by (simp_all add: Apply_def ix assms(2) flip: assms(3))
qed

lemma endTurn_legal:
  assumes "wf_state s" "\<not> Over s" "i = Turn s" "aType a = ''end_turn''"
  shows "snd (Apply s (pID (player s i)) a) = None"
  using Apply_current(3) [OF assms] by (simp add: endTurn_def Let_def)

end
