(* ===== verification/Battle_Replay.thy ===== *)
theory Battle_Replay
  imports Rules Battle_Progress
begin

text \<open>
  \<open>internal/battle/replay.go\<close> on the rules of the game: \<open>Replay\<close>, the
  interpretation of the interface of rules by \<open>Apply\<close>, and what follows for whole
  games: their replay and their length.
\<close>

datatype ReplayErr = NewStateFailed NewErr | ReplayError nat Err

definition Replay ::
  "shuffle_lib \<Rightarrow> Catalog option \<Rightarrow> string \<Rightarrow> PlayerInit \<Rightarrow> PlayerInit \<Rightarrow> int \<Rightarrow> Step list \<Rightarrow>
     (int \<Rightarrow> State \<Rightarrow> 'acc \<Rightarrow> 'acc) option \<Rightarrow> 'acc \<Rightarrow> State option \<times> ReplayErr option \<times> 'acc" where
  "Replay sw oc roomID a b seed steps onStep acc =
     (case NewState sw roomID oc a b seed of
        Inl e \<Rightarrow> (None, Some (NewStateFailed e), acc)
      | Inr s \<Rightarrow>
          (let call = (case onStep of None \<Rightarrow> (\<lambda>i s acc. acc) | Some f \<Rightarrow> f)
           in case replayFrom Apply call 0 s steps (call (-1) s acc) of
                (s', Some (i, e), acc') \<Rightarrow> (Some s', Some (ReplayError i e), acc')
              | (s', None, acc') \<Rightarrow> (Some s', None, acc')))"

section \<open>The rules are rules\<close>

lemma Apply_rejected: "length (Players s) = 2 \<Longrightarrow> Apply s pid a = (s', Some e) \<Longrightarrow> s' = s"
  by (cases rule: Apply_cases [where pid = pid and a = a and s = s]) auto

lemma Summon_rejected: "Summon s i c = (s', Some e) \<Longrightarrow> s' = s"
  by (auto simp: Summon_def Let_def split: option.splits if_splits prod.splits)

lemma attack_rejected: "attack s i a = (s', Some e) \<Longrightarrow> s' = s"
  using attack_cases [of s i a] by auto

lemma Apply_rejected_same: "Apply s pid a = (s', Some e) \<Longrightarrow> s' = s"
  by (auto simp: Apply_def playCard_def endTurn_def Let_def
      dest: Summon_rejected attack_rejected split: if_splits option.splits prod.splits)

definition invar_game :: "State \<Rightarrow> bool" where
  "invar_game s \<longleftrightarrow> wf_state s \<and> tired_state s"

interpretation game_rules: bounded_rules Apply invar_game fuel
  by unfold_locales
    (auto simp: invar_game_def intro: Apply_rejected_same Apply_wf Apply_tired Apply_fuel)

lemma NewState_invar:
  "NewState sw r (Some c) a b seed = Inr s \<Longrightarrow> shuffle_ok sw \<Longrightarrow> wf_catalog c \<Longrightarrow> invar_game s"
  by (auto simp: invar_game_def intro: NewState_wf NewState_tired)

lemma game_invar:
  assumes "shuffle_ok sw"
  shows "game sw s \<Longrightarrow> invar_game s"
  by (induction rule: game.induct) (use assms in \<open>auto intro: NewState_invar game_rules.invar_app\<close>)

lemma NewState_fuel:
  assumes "NewState sw r (Some c) a b seed = Inr s" "shuffle_ok sw"
  shows "fuel s = 7 * (length (iCards a) + length (iCards b)) + 30"
proof -
  let ?d = "dealHands HandStart (table sw r c a b seed)"
  from assms(1) have s: "s = beginTurn ?d 0"
    and len: "HandStart < length (iCards a)" "HandStart < length (iCards b)"
    by (auto simp: NewState_Inr)
  obtain da db where t: "player (table sw r c a b seed) 0 = freshPlayer (iID a) da" "mset da = mset (iCards a)"
      "player (table sw r c a b seed) (Suc 0) = freshPlayer (iID b) db" "mset db = mset (iCards b)"
    by (rule player_table [OF assms(2)])
  have p: "player ?d 0 = dealt HandStart (freshPlayer (iID a) da)"
    "player ?d (Suc 0) = dealt HandStart (freshPlayer (iID b) db)"
    by (simp_all add: player_dealHands t)
  show ?thesis
    using len mset_eq_length [OF t(2)] mset_eq_length [OF t(4)]
    by (simp add: s fuel_def p turnsLeft_def held_def ready_def dealt_def freshPlayer_def)
      (simp add: HandStart_def)
qed

end
