(* ===== verification/Sample.thy ===== *)
theory Sample
  imports Battle_Replay
begin

text \<open>
  Concrete data for the witnesses: the card table of \<open>configs/cards.yaml\<close> (the names
  in UTF-8), a shuffle library, two decks and the game they start.
\<close>

definition yaml_cards :: "Card list" where
  "yaml_cards = [
    \<lparr>cID = ''slime'', cName = [CHR 0xE5, CHR 0x8F, CHR 0xB2, CHR 0xE8, CHR 0x8E, CHR 0xB1, CHR 0xE5, CHR 0xA7, CHR 0x86], cType = ''minion'', cCost = 1,
      cAtk = 1, cHP = 2, cDamage = 0, cHeal = 0\<rparr>,
    \<lparr>cID = ''wolf'', cName = [CHR 0xE5, CHR 0xB9, CHR 0xBC, CHR 0xE7, CHR 0x8B, CHR 0xBC], cType = ''minion'', cCost = 2,
      cAtk = 2, cHP = 2, cDamage = 0, cHeal = 0\<rparr>,
    \<lparr>cID = ''knight'', cName = [CHR 0xE9, CHR 0xAA, CHR 0x91, CHR 0xE5, CHR 0xA3, CHR 0xAB], cType = ''minion'', cCost = 3,
      cAtk = 3, cHP = 4, cDamage = 0, cHeal = 0\<rparr>,
    \<lparr>cID = ''dragon'', cName = [CHR 0xE5, CHR 0xB9, CHR 0xBC, CHR 0xE9, CHR 0xBE, CHR 0x99], cType = ''minion'', cCost = 5,
      cAtk = 5, cHP = 6, cDamage = 0, cHeal = 0\<rparr>,
    \<lparr>cID = ''bolt'', cName = [CHR 0xE9, CHR 0x9B, CHR 0xB7, CHR 0xE5, CHR 0x87, CHR 0xBB], cType = ''spell'', cCost = 1,
      cAtk = 0, cHP = 0, cDamage = 3, cHeal = 0\<rparr>,
    \<lparr>cID = ''heal'', cName = [CHR 0xE6, CHR 0xB2, CHR 0xBB, CHR 0xE7, CHR 0x96, CHR 0x97], cType = ''spell'', cCost = 2,
      cAtk = 0, cHP = 0, cDamage = 0, cHeal = 3\<rparr>]"

definition sample_catalog :: Catalog where
  "sample_catalog =
     (case loadCards 0 yaml_cards emptyCatalog of Inl _ \<Rightarrow> emptyCatalog | Inr c \<Rightarrow> c)"

text \<open>A shuffle library: every shuffle swaps the first and the last card.\<close>

definition sample_swaps :: shuffle_lib where
  "sample_swaps sd ns n = (if n = 0 then [] else [(0, n - 1)])"

definition sample_a :: PlayerInit where
  "sample_a = \<lparr>iID = ''alice'',
     iCards = [''slime'', ''slime'', ''wolf'', ''wolf'', ''knight'', ''knight'', ''dragon'', ''dragon'']\<rparr>"

definition sample_b :: PlayerInit where
  "sample_b = \<lparr>iID = ''bob'',
     iCards = [''slime'', ''slime'', ''wolf'', ''wolf'', ''knight'', ''knight'', ''bolt'', ''heal'']\<rparr>"

text \<open>The game they start, written out.\<close>

definition sample_p0 :: Player where
  "sample_p0 = \<lparr>pID = ''alice'', pHP = 20, pMana = 1, pMaxMana = 1,
     pDeck = [''knight'', ''knight'', ''dragon'', ''slime''],
     pHand = [''dragon'', ''slime'', ''wolf'', ''wolf''], pBoard = [], pFatigue = 0\<rparr>"

definition sample_p1 :: Player where
  "sample_p1 = \<lparr>pID = ''bob'', pHP = 20, pMana = 0, pMaxMana = 0,
     pDeck = [''wolf'', ''knight'', ''knight'', ''bolt'', ''slime''],
     pHand = [''heal'', ''slime'', ''wolf''], pBoard = [], pFatigue = 0\<rparr>"

definition sample_state :: State where
  "sample_state = \<lparr>RoomID = ''room'', Players = [sample_p0, sample_p1], Turn = 0, Round = 1,
     Seed = 5, Over = False, Winner = [], InitDecks = [iCards sample_a, iCards sample_b],
     cat = sample_catalog, rng = \<lparr>seedOf = 5, shuffled = [8, 8]\<rparr>, nextInstID = 0\<rparr>"

definition end_turn :: Action where
  "end_turn = \<lparr>aType = ''end_turn'', aCardID = [], aInstID = [], aTarget = []\<rparr>"

definition play :: "string \<Rightarrow> Action" where
  "play c = \<lparr>aType = ''play_card'', aCardID = c, aInstID = [], aTarget = []\<rparr>"

definition strike_at :: "string \<Rightarrow> string \<Rightarrow> Action" where
  "strike_at m t = \<lparr>aType = ''attack'', aCardID = [], aInstID = m, aTarget = t\<rparr>"

lemma yaml_cards_valid: "\<forall>cd \<in> set yaml_cards. valid_card cd"
  by (simp add: yaml_cards_def valid_card_def TypeMinion_def TypeSpell_def)

lemma yaml_cards_distinct: "distinct (map cID yaml_cards)"
  by (simp add: yaml_cards_def)

lemma load_sample: "loadCards 0 yaml_cards emptyCatalog = Inr sample_catalog"
  using loadCards_complete [OF yaml_cards_valid yaml_cards_distinct, of emptyCatalog 0]
  by (auto simp: sample_catalog_def emptyCatalog_def)

lemma sample_catalog_wf: "wf_catalog sample_catalog"
  by (rule loadCards_wf [OF load_sample]) simp

lemma sample_swaps_ok: "shuffle_ok sample_swaps"
  by (simp add: shuffle_ok_def sample_swaps_def)

lemma sample_NewState:
  "NewState sample_swaps ''room'' (Some sample_catalog) sample_a sample_b 5 = Inr sample_state"
proof -
  have "table sample_swaps ''room'' sample_catalog sample_a sample_b 5 =
      sample_state\<lparr>Players := [freshPlayer ''alice''
          [''dragon'', ''slime'', ''wolf'', ''wolf'', ''knight'', ''knight'', ''dragon'', ''slime''],
        freshPlayer ''bob''
          [''heal'', ''slime'', ''wolf'', ''wolf'', ''knight'', ''knight'', ''bolt'', ''slime'']]\<rparr>"
    by (simp add: table_def shuffle_def sample_swaps_def swap_at_def sample_a_def sample_b_def
        sample_state_def)
  then show ?thesis
    unfolding NewState_Inr
    by (simp add: sample_a_def sample_b_def HandStart_def numeral_3_eq_3 beginTurn_eq Draw_def
        player_def setPlayer_def freshPlayer_def sample_state_def sample_p0_def sample_p1_def
        begun_def StartHP_def MaxMana_def)
qed

lemma sample_game: "game sample_swaps sample_state"
  by (rule game.start [OF sample_catalog_wf sample_NewState])

lemma sample_invar: "invar_game sample_state"
  by (rule NewState_invar [OF sample_NewState sample_swaps_ok sample_catalog_wf])

text \<open>
  Four actions later: each side has played a slime and it is the first player's turn
  again, with a minion ready to attack.
\<close>

definition slime :: Card where
  "slime = yaml_cards ! 0"

lemma sample_slime: "Get sample_catalog ''slime'' = Some slime"
proof -
  have "byId sample_catalog = (byId emptyCatalog)(map cID yaml_cards [\<mapsto>] yaml_cards)"
    using loadCards_Inr [OF load_sample] by simp
  then show ?thesis by (simp add: Get_def yaml_cards_def slime_def)
qed

definition a_slime :: Minion where
  "a_slime = \<lparr>mInstID = ''m1'', mCardID = ''slime'', mAtk = 1, mHP = 2, mMaxHP = 2, mCanAttack = True\<rparr>"
definition b_slime :: Minion where
  "b_slime = \<lparr>mInstID = ''m2'', mCardID = ''slime'', mAtk = 1, mHP = 2, mMaxHP = 2, mCanAttack = False\<rparr>"

definition first_turns :: "Step list" where
  "first_turns = [\<lparr>sPlayer = ''alice'', sAction = play ''slime''\<rparr>, \<lparr>sPlayer = ''alice'', sAction = end_turn\<rparr>,
     \<lparr>sPlayer = ''bob'', sAction = play ''slime''\<rparr>, \<lparr>sPlayer = ''bob'', sAction = end_turn\<rparr>]"

definition fight_a :: Player where
  "fight_a = \<lparr>pID = ''alice'', pHP = 20, pMana = 2, pMaxMana = 2,
     pDeck = [''knight'', ''dragon'', ''slime''],
     pHand = [''dragon'', ''wolf'', ''wolf'', ''knight''], pBoard = [a_slime], pFatigue = 0\<rparr>"
definition fight_b :: Player where
  "fight_b = \<lparr>pID = ''bob'', pHP = 20, pMana = 0, pMaxMana = 1,
     pDeck = [''knight'', ''knight'', ''bolt'', ''slime''],
     pHand = [''heal'', ''wolf'', ''wolf''], pBoard = [b_slime], pFatigue = 0\<rparr>"

definition sample_fight :: State where
  "sample_fight = sample_state\<lparr>Players := [fight_a, fight_b], Round := 3, nextInstID := 2\<rparr>"

definition after_play :: State where
  "after_play = sample_state\<lparr>Players := [sample_p0\<lparr>pMana := 0, pHand := [''dragon'', ''wolf'', ''wolf''],
     pBoard := [a_slime\<lparr>mCanAttack := False\<rparr>]\<rparr>, sample_p1], nextInstID := 1\<rparr>"

lemma inst_ids: "inst_id (Suc 0) = ''m1''" "inst_id 2 = ''m2''"
  by (simp_all add: inst_id_def show_nat.simps digit_def char_of_def bit_0)

lemma play_1: "Apply sample_state ''alice'' (play ''slime'') = (after_play, None)"
proof -
  have "indexOf sample_state ''alice'' = Some 0"
    by (simp add: indexOf_def sample_state_def sample_p0_def sample_p1_def)
  then have "Apply sample_state ''alice'' (play ''slime'') = playCard sample_state 0 (play ''slime'')"
    by (simp add: Apply_def sample_state_def play_def)
  also have "\<dots> = (after_play, None)"
    by (simp add: playCard_def Summon_def newInstID_def Let_def play_def sample_slime sample_state_def
        player_def setPlayer_def sample_p0_def indexOfString_def slime_def yaml_cards_def
        TypeMinion_def BoardLimit_def inst_ids remove_at_def after_play_def a_slime_def)
  finally show ?thesis .
qed

definition bob_turn :: State where
  "bob_turn = after_play\<lparr>Players := [hd (Players after_play),
     sample_p1\<lparr>pMana := 1, pMaxMana := 1, pDeck := [''knight'', ''knight'', ''bolt'', ''slime''],
       pHand := [''heal'', ''slime'', ''wolf'', ''wolf'']\<rparr>], Turn := 1, Round := 2\<rparr>"

lemma end_2: "Apply after_play ''alice'' end_turn = (bob_turn, None)"
proof -
  have "indexOf after_play ''alice'' = Some 0"
    by (simp add: indexOf_def after_play_def sample_state_def sample_p0_def sample_p1_def)
  then have "Apply after_play ''alice'' end_turn = endTurn after_play 0"
    by (simp add: Apply_def after_play_def sample_state_def end_turn_def)
  also have "\<dots> = (bob_turn, None)"
    by (simp add: endTurn_eq beginTurn_eq player_def setPlayer_def after_play_def sample_state_def
        sample_p1_def bob_turn_def begun_def MaxMana_def)
  finally show ?thesis .
qed

definition bob_played :: State where
  "bob_played = bob_turn\<lparr>Players := [hd (Players after_play), fight_b], nextInstID := 2\<rparr>"

lemma play_3: "Apply bob_turn ''bob'' (play ''slime'') = (bob_played, None)"
proof -
  have "indexOf bob_turn ''bob'' = Some 1"
    by (simp add: indexOf_def bob_turn_def after_play_def sample_state_def sample_p0_def sample_p1_def)
  then have "Apply bob_turn ''bob'' (play ''slime'') = playCard bob_turn 1 (play ''slime'')"
    by (simp add: Apply_def bob_turn_def after_play_def sample_state_def play_def)
  also have "\<dots> = (bob_played, None)"
    by (simp add: playCard_def Summon_def newInstID_def Let_def play_def sample_slime sample_state_def
        player_def setPlayer_def sample_p1_def indexOfString_def slime_def yaml_cards_def
        TypeMinion_def BoardLimit_def inst_ids remove_at_def bob_turn_def after_play_def bob_played_def
        fight_b_def b_slime_def flip: numeral_2_eq_2)
  finally show ?thesis .
qed

lemma end_4: "Apply bob_played ''bob'' end_turn = (sample_fight, None)"
proof -
  have "indexOf bob_played ''bob'' = Some 1"
    by (simp add: indexOf_def bob_played_def bob_turn_def after_play_def sample_state_def sample_p0_def fight_b_def)
  then have "Apply bob_played ''bob'' end_turn = endTurn bob_played 1"
    by (simp add: Apply_def bob_played_def bob_turn_def after_play_def sample_state_def end_turn_def)
  also have "\<dots> = (sample_fight, None)"
    by (simp add: endTurn_eq beginTurn_eq player_def setPlayer_def bob_played_def bob_turn_def after_play_def sample_state_def
        sample_p0_def sample_fight_def begun_def MaxMana_def fight_a_def a_slime_def)
  finally show ?thesis .
qed

lemma first_turns_fight: "attempt Apply sample_state first_turns = sample_fight"
  by (simp add: first_turns_def play_1 end_2 play_3 end_4)

lemma sample_fight_invar: "invar_game sample_fight"
  using game_rules.attempt_invar [OF sample_invar, of first_turns] by (simp only: first_turns_fight)


end
