(* ===== verification/Battle_Bounds.thy ===== *)
theory Battle_Bounds
  imports Battle_Replay
begin

text \<open>
  The numbers of a game. The plies played and the turns left add up to a constant,
  which bounds the length of a game; and on a catalog whose numbers fit Go's
  \<open>int\<close> every number of a reachable state fits it too, the ones an attack computes
  before the dead are removed included.
\<close>

section \<open>The clock\<close>

definition clock_ok :: "State \<Rightarrow> bool" where
  "clock_ok s \<longleftrightarrow>
     Round s + int (turnsLeft (player s 0) + turnsLeft (player s 1)) =
       int (length (InitDecks s ! 0) + length (InitDecks s ! 1)) + 6 \<and>
     Turn s = nat ((Round s - 1) mod 2) \<and> 1 \<le> Round s"

lemma turnsLeft_cong: "pDeck q = pDeck p \<Longrightarrow> pFatigue q = pFatigue p \<Longrightarrow> turnsLeft q = turnsLeft p"
  by (simp add: turnsLeft_def)

lemma next_turn: "i = nat ((r - 1) mod 2) \<Longrightarrow> Suc 0 - i = nat ((r + 1 - 1) mod 2)"
  by (cases "even r") (auto simp: mod_2_eq_odd odd_two_times_div_two_succ)

lemma Apply_clock:
  assumes inv: "invar_game s" and c: "clock_ok s"
  shows "clock_ok (fst (Apply s pid a))"
proof -
  from inv have wf: "wf_state s" and t: "tired_state s" by (auto simp: invar_game_def)
  from wf_stateD(1) [OF wf] show ?thesis
  proof (cases rule: Apply_cases [where pid = pid and a = a])
    case (played i hi cd)
    let ?t = "fst (Apply s pid a)"
    have "turnsLeft (player ?t j) = turnsLeft (player s j)" for j
      using played wf_stateD(1) [OF wf] by (auto intro: turnsLeft_cong)
    with c played(11) show ?thesis by (simp add: clock_ok_def)
  next
    case (attacked i ka target)
    let ?t = "fst (Apply s pid a)"
    have "turnsLeft (player ?t j) = turnsLeft (player s j)" if "j < 2" for j
      using attacked_player [OF wf_stateD(1) [OF wf] attacked(4) that, of ka target] attacked(8,10)
      by (auto intro: turnsLeft_cong)
    note this [of 0] this [of 1]
    with c attacked(10) show ?thesis by (simp add: clock_ok_def)
  next
    case (ended i)
    let ?j = "Suc 0 - i" and ?t = "fst (Apply s pid a)"
    have len: "length (Players s) = 2" by (rule wf_stateD(1) [OF wf])
    have "tired (player s ?j)" "0 < pHP (player s ?j)" "0 \<le> pFatigue (player s ?j)"
      using t outcome_hp [OF wf_stateD(4) [OF wf] ended(1)] wf_stateD(8) [OF wf, of ?j]
      by (auto simp: tired_state_def player_ok_def)
    then have less: "turnsLeft (player s ?j) = Suc (turnsLeft (begun (player s ?j)))"
      by (rule turnsLeft_begun)
    have pl: "player ?t k = (if k = ?j then begun (player s ?j) else player s k)" for k
      using ended(6) len by simp
    have f: "Round ?t = Round s + 1" "Turn ?t = ?j" "InitDecks ?t = InitDecks s"
      using ended(6) len by simp_all
    from c ended(3) have r: "i = nat ((Round s - 1) mod 2)" "1 \<le> Round s"
      by (simp_all add: clock_ok_def)
    have "Suc (turnsLeft (player ?t 0) + turnsLeft (player ?t 1)) =
        turnsLeft (player s 0) + turnsLeft (player s 1)"
    proof (cases "i = 0")
      case True
      with less show ?thesis by (simp add: pl)
    next
      case False
      with ended(4) have "i = Suc 0" by simp
      with less show ?thesis by (simp add: pl)
    qed
    with c have "Round ?t + int (turnsLeft (player ?t 0) + turnsLeft (player ?t 1)) =
        int (length (InitDecks ?t ! 0) + length (InitDecks ?t ! 1)) + 6"
      unfolding clock_ok_def f by linarith
    moreover have "?j = nat ((Round ?t - 1) mod 2)"
      unfolding f(1) by (rule next_turn [OF r(1)])
    ultimately show ?thesis using f(2) r(2) by (simp add: clock_ok_def f(1))
  qed (use c in simp)
qed

lemma NewState_clock:
  assumes "NewState sw r (Some c) a b seed = Inr s" "shuffle_ok sw"
  shows "clock_ok s"
proof -
  let ?d = "dealHands HandStart (table sw r c a b seed)"
  from assms(1) have s: "s = beginTurn ?d 0"
    and len: "HandStart < length (iCards a)" "HandStart < length (iCards b)"
    by (auto simp: NewState_Inr)
  obtain da db where t: "player (table sw r c a b seed) 0 = freshPlayer (iID a) da" "mset da = mset (iCards a)"
      "player (table sw r c a b seed) (Suc 0) = freshPlayer (iID b) db" "mset db = mset (iCards b)"
    by (rule player_table [OF assms(2)])
  have p: "player ?d 0 = dealt HandStart (freshPlayer (iID a) da)"
    "player ?d (Suc 0) = dealt HandStart (freshPlayer (iID b) db)"
    by (simp_all add: player_dealHands t)
  show ?thesis
    using len mset_eq_length [OF t(2)] mset_eq_length [OF t(4)]
    by (simp add: s clock_ok_def p turnsLeft_def dealt_def freshPlayer_def) (simp add: HandStart_def)
qed

lemma game_clock:
  assumes "shuffle_ok sw"
  shows "game sw s \<Longrightarrow> clock_ok s"
  by (induction rule: game.induct)
    (use assms in \<open>auto intro: NewState_clock Apply_clock game_invar\<close>)

section \<open>64-bit integers\<close>

definition in64 :: "int \<Rightarrow> bool" where
  "in64 x \<longleftrightarrow> - (2 ^ 63) \<le> x \<and> x < 2 ^ 63"

text \<open>The fields of a card are Go \<open>int\<close>s.\<close>

definition catalog64 :: "Catalog \<Rightarrow> bool" where
  "catalog64 c \<longleftrightarrow>
     (\<forall>i cd. Get c i = Some cd \<longrightarrow> in64 (cCost cd) \<and> in64 (cAtk cd) \<and> in64 (cHP cd))"

definition player64 :: "Player \<Rightarrow> bool" where
  "player64 p \<longleftrightarrow>
     in64 (pHP p) \<and> in64 (pMana p) \<and> in64 (pMaxMana p) \<and> in64 (pFatigue p) \<and>
     (\<forall>m \<in> set (pBoard p). in64 (mAtk m) \<and> in64 (mHP m) \<and> in64 (mMaxHP m))"

definition hp_low :: "State \<Rightarrow> bool" where
  "hp_low s \<longleftrightarrow> (\<forall>i<2. - (2 ^ 63) \<le> pHP (player s i))"

lemma minion_atk64:
  assumes "player_ok c n p" "catalog64 c" "m \<in> set (pBoard p)"
  shows "mAtk m < 2 ^ 63"
  using assms by (fastforce simp: player_ok_def minion_ok_def catalog64_def in64_def)

lemma player64_ok:
  assumes "player_ok c n p" "wf_catalog c" "catalog64 c" "tired p" "- (2 ^ 63) \<le> pHP p"
    and "\<forall>m \<in> set (pBoard p). - (2 ^ 63) \<le> mHP m"
  shows "player64 p"
proof -
  have "in64 (mAtk m) \<and> in64 (mHP m) \<and> in64 (mMaxHP m)" if m: "m \<in> set (pBoard p)" for m
  proof -
    from assms(1) m have ok: "minion_ok c n m" by (simp add: player_ok_def)
    then obtain cd where "Get c (mCardID m) = Some cd" "mAtk m = cAtk cd" "mMaxHP m = cHP cd"
      by (auto simp: minion_ok_def)
    with assms(3) have "in64 (mAtk m)" "in64 (mMaxHP m)" by (auto simp: catalog64_def)
    moreover from this ok assms(6) m have "in64 (mHP m)" by (auto simp: minion_ok_def in64_def)
    ultimately show ?thesis by blast
  qed
  then show ?thesis
    using assms(1,4,5) by (auto simp: player64_def player_ok_def tired_def in64_def battle_consts)
qed

lemma Apply_hp_low:
  assumes inv: "invar_game s" and c: "catalog64 (cat s)" and low: "hp_low s"
  shows "hp_low (fst (Apply s pid a))"
proof -
  from inv have wf: "wf_state s" and t: "tired_state s" by (auto simp: invar_game_def)
  from wf_stateD(1) [OF wf] show ?thesis
  proof (cases rule: Apply_cases [where pid = pid and a = a])
    case (played i hi cd)
    then show ?thesis using low wf_stateD(1) [OF wf] by (auto simp: hp_low_def)
  next
    case (attacked i ka target)
    have "pBoard (player s i) ! ka \<in> set (pBoard (player s i))"
      using findMinion_Some [OF attacked(6)] by simp
    with wf_stateD(8) [OF wf attacked(4)] c have "mAtk (pBoard (player s i) ! ka) < 2 ^ 63"
      by (intro minion_atk64)
    then have "- (2 ^ 63) \<le> pHP (player (fst (Apply s pid a)) j)" if "j < 2" for j
      using attacked_player [OF wf_stateD(1) [OF wf] attacked(4) that, of ka target] attacked(8,10)
        outcome_hp [OF wf_stateD(4) [OF wf] attacked(1) that] by simp
    then show ?thesis by (simp add: hp_low_def)
  next
    case (ended i)
    have "pFatigue (player s j) \<le> 5" if "j < 2" for j
      using t outcome_hp [OF wf_stateD(4) [OF wf] ended(1) that] that
      by (auto simp: tired_state_def intro: tired_alive)
    then have "- (2 ^ 63) \<le> pHP (begun (player s j))" if "j < 2" for j
      using outcome_hp [OF wf_stateD(4) [OF wf] ended(1) that] that by force
    then show ?thesis using low ended(6) wf_stateD(1) [OF wf] by (auto simp: hp_low_def)
  qed (use low in simp)
qed

lemma game_hp_low:
  assumes "shuffle_ok sw"
  shows "game sw s \<Longrightarrow> catalog64 (cat s) \<Longrightarrow> hp_low s"
proof (induction rule: game.induct)
  case (start c roomID a b seed s)
  let ?d = "dealHands HandStart (table sw roomID c a b seed)"
  obtain da db where t: "player (table sw roomID c a b seed) 0 = freshPlayer (iID a) da"
      "player (table sw roomID c a b seed) (Suc 0) = freshPlayer (iID b) db"
    by (rule player_table [OF assms])
  have "s = beginTurn ?d 0" using start by (simp add: NewState_Inr)
  then show ?case
    by (simp add: hp_low_def two_players player_dealHands t dealt_def freshPlayer_def StartHP_def)
next
  case (act s pid a)
  have inv: "invar_game s" using act(1) assms by (rule game_invar [rotated])
  then have "length (Players s) = 2" by (simp add: invar_game_def wf_stateD(1))
  from Apply_const [OF this, of pid a] act(2,3) inv show ?case by (intro Apply_hp_low) auto
qed

text \<open>Every integer a state holds; and what subtracting an attack from a life leaves.\<close>

definition state64 :: "State \<Rightarrow> bool" where
  "state64 s \<longleftrightarrow>
     player64 (player s 0) \<and> player64 (player s 1) \<and> in64 (Round s) \<and> in64 (int (nextInstID s)) \<and> in64 (int (Turn s))"

lemma in64_sub: "0 < x \<Longrightarrow> in64 x \<Longrightarrow> 0 \<le> d \<Longrightarrow> in64 d \<Longrightarrow> in64 (x - d)"
  by (simp add: in64_def)

lemma player64_hit:
  assumes "player64 p" "alive p" "k < length (pBoard p)" "0 \<le> d" "in64 d"
  shows "player64 (hitMinion p k d)"
proof -
  let ?m = "pBoard p ! k"
  have m: "?m \<in> set (pBoard p)" using assms(3) by simp
  have "in64 (mHP ?m - d)" using assms m by (intro in64_sub) (auto simp: alive_def player64_def)
  then have "in64 (mAtk x) \<and> in64 (mHP x) \<and> in64 (mMaxHP x)" if "x \<in> set ((pBoard p)[k := ?m\<lparr>mHP := mHP ?m - d\<rparr>])" for x
    using subsetD [OF set_update_subset_insert that] assms(1) m by (auto simp: player64_def)
  with assms(1) show ?thesis by (simp add: player64_def hitMinion_def)
qed

lemma minion_atk:
  assumes "player_ok c n p" "wf_catalog c" "catalog64 c" "m \<in> set (pBoard p)"
  shows "0 \<le> mAtk m" "in64 (mAtk m)"
proof -
  from assms(1,4) obtain cd where cd: "Get c (mCardID m) = Some cd" "cType cd = TypeMinion" "mAtk m = cAtk cd"
    by (auto simp: player_ok_def minion_ok_def)
  with assms(2) have "valid_card cd" by (auto simp: wf_catalog_def Get_def)
  with cd(2,3) show "0 \<le> mAtk m" by (auto simp: valid_card_def)
  from assms(3) cd show "in64 (mAtk m)" by (auto simp: catalog64_def)
qed

end
