(* ===== verification/Battle_View.thy ===== *)
theory Battle_View
  imports Battle_Game "HOL-Library.Word"
begin

text \<open>
  \<open>internal/battle/view.go\<close>: what a player sees of a game (\<open>ViewFor\<close>) and what a replay
  shows (\<open>GodView\<close>). A hand is an option: \<open>None\<close> is the nil slice of a hidden hand.
  \<open>looks_same i\<close> relates two states that player \<open>i\<close> cannot tell apart: the views agree
  on exactly those, and no action of player \<open>i\<close> leaves the relation.
\<close>

section \<open>Views\<close>

record PlayerView =
  vID :: string
  vHP :: int
  vMana :: int
  vMaxMana :: int
  vFatigue :: int
  vBoard :: "Minion list"
  vHand :: "string list option"
  vHandCount :: nat
  vDeckCount :: nat

record View =
  vSeq :: "64 word"
  vMe :: PlayerView
  vOpp :: PlayerView
  vYourTurn :: bool
  vRound :: int
  vOver :: bool
  vWinner :: string

definition toView :: "Player \<Rightarrow> bool \<Rightarrow> PlayerView" where
  "toView p showhand =
     \<lparr>vID = pID p, vHP = pHP p, vMana = pMana p, vMaxMana = pMaxMana p, vFatigue = pFatigue p,
      vBoard = pBoard p, vHand = (if showhand then Some (pHand p) else None),
      vHandCount = length (pHand p), vDeckCount = length (pDeck p)\<rparr>"

definition ViewFor :: "State \<Rightarrow> nat \<Rightarrow> View" where
  "ViewFor s i =
     \<lparr>vSeq = 0, vMe = toView (player s i) True, vOpp = toView (player s (1 - i)) False,
      vYourTurn = (i = Turn s), vRound = Round s, vOver = Over s, vWinner = Winner s\<rparr>"

record GodView =
  gPlayers :: "PlayerView list"
  gTurn :: nat
  gRound :: int
  gOver :: bool
  gWinner :: string

definition godView :: "State \<Rightarrow> GodView" where
  "godView s =
     \<lparr>gPlayers = [toView (player s 0) True, toView (player s 1) True],
      gTurn = Turn s, gRound = Round s, gOver = Over s, gWinner = Winner s\<rparr>"

section \<open>What a player cannot see\<close>

text \<open>\<open>same_side\<close>: own player up to the deck's order; \<open>same_front\<close>: up to the hand as well.\<close>

definition same_front :: "Player \<Rightarrow> Player \<Rightarrow> bool" where
  "same_front p q \<longleftrightarrow>
     q = p\<lparr>pDeck := pDeck q, pHand := pHand q\<rparr> \<and> length (pDeck q) = length (pDeck p) \<and>
     length (pHand q) = length (pHand p)"

definition same_side :: "Player \<Rightarrow> Player \<Rightarrow> bool" where
  "same_side p q \<longleftrightarrow> same_front p q \<and> pHand q = pHand p"

definition looks_same :: "nat \<Rightarrow> State \<Rightarrow> State \<Rightarrow> bool" where
  "looks_same i s t \<longleftrightarrow>
     same_side (player s i) (player t i) \<and> same_front (player s (1 - i)) (player t (1 - i)) \<and>
     (i = Turn s \<longleftrightarrow> i = Turn t) \<and> Round t = Round s \<and> Over t = Over s \<and> Winner t = Winner s"

lemma same_front_iff:
  "same_front p q \<longleftrightarrow>
     pID q = pID p \<and> pHP q = pHP p \<and> pMana q = pMana p \<and> pMaxMana q = pMaxMana p \<and>
     pBoard q = pBoard p \<and> pFatigue q = pFatigue p \<and> length (pDeck q) = length (pDeck p) \<and>
     length (pHand q) = length (pHand p)"
  by (cases p; cases q) (auto simp: same_front_def)

lemma toView_True: "toView p True = toView q True \<longleftrightarrow> same_side p q"
  by (auto simp: toView_def same_side_def same_front_iff)

lemma toView_False: "toView p False = toView q False \<longleftrightarrow> same_front p q"
  by (auto simp: toView_def same_front_iff)

text \<open>Public data besides the players: what an action's result depends on.\<close>

definition same_table :: "State \<Rightarrow> State \<Rightarrow> bool" where
  "same_table s t \<longleftrightarrow>
     length (Players s) = 2 \<and> length (Players t) = 2 \<and> cat t = cat s \<and>
     nextInstID t = nextInstID s \<and> Turn t = Turn s"

lemma same_front_updates:
  assumes "same_front p q"
  shows "same_front (hitMinion p k d) (hitMinion q k d)"
    "same_front (tireMinion p k) (tireMinion q k)"
    "same_front (p\<lparr>pHP := pHP p - d\<rparr>) (q\<lparr>pHP := pHP q - d\<rparr>)"
    "same_front (p\<lparr>pBoard := filter P (pBoard p)\<rparr>) (q\<lparr>pBoard := filter P (pBoard q)\<rparr>)"
    "same_front (begun p) (begun q)"
  using assms by (auto simp: same_front_iff hitMinion_def tireMinion_def)

lemma same_side_updates:
  assumes "same_side p q"
  shows "same_side (hitMinion p k d) (hitMinion q k d)"
    "same_side (tireMinion p k) (tireMinion q k)"
    "same_side (p\<lparr>pHP := pHP p - d\<rparr>) (q\<lparr>pHP := pHP q - d\<rparr>)"
    "same_side (p\<lparr>pBoard := filter P (pBoard p)\<rparr>) (q\<lparr>pBoard := filter P (pBoard q)\<rparr>)"
    "same_side (playedCard p hi cd n) (playedCard q hi cd n)"
  using assms same_front_updates [of p q] 
  by (auto simp: same_side_def hitMinion_def tireMinion_def same_front_iff playedCard_def)


lemma same_pID:
  assumes "looks_same i s t" "i < 2" "j < 2" shows "pID (player t j) = pID (player s j)"
  using assms two_cases [OF assms(2,3)]
  by (auto simp: looks_same_def same_side_def same_front_iff)

lemma indexOf_cong:
  assumes "length (Players s) = 2" "length (Players t) = 2"
    "\<And>j. j < 2 \<Longrightarrow> pID (player t j) = pID (player s j)"
  shows "indexOf t pid = indexOf s pid"
proof -
  obtain p q where s: "Players s = [p, q]" by (rule length_twoE [OF assms(1)])
  obtain p' q' where t: "Players t = [p', q']" by (rule length_twoE [OF assms(2)])
  show ?thesis using assms(3) [of 0] assms(3) [of 1]
    by (simp add: indexOf_def s t player_def)
qed

definition alike :: "nat \<Rightarrow> State \<times> Err option \<Rightarrow> State \<times> Err option \<Rightarrow> bool" where
  "alike i x y \<longleftrightarrow>
     snd y = snd x \<and> looks_same i (fst x) (fst y) \<and> same_table (fst x) (fst y)"

lemma alike_reject: "looks_same i s t \<Longrightarrow> same_table s t \<Longrightarrow> alike i (s, e) (t, e)"
  by (simp add: alike_def)

lemma looks_sameD:
  assumes "looks_same i s t"
  shows "same_side (player s i) (player t i)" "same_front (player s (Suc 0 - i)) (player t (Suc 0 - i))"
    "pHand (player t i) = pHand (player s i)" "pBoard (player t i) = pBoard (player s i)"
    "pMana (player t i) = pMana (player s i)"
    "pBoard (player t (Suc 0 - i)) = pBoard (player s (Suc 0 - i))"
    "Round t = Round s" "Over t = Over s" "Winner t = Winner s"
  using assms by (auto simp: looks_same_def same_side_def same_front_iff)

lemma looks_sameI:
  assumes "same_side (player s i) (player t i)" "same_front (player s (Suc 0 - i)) (player t (Suc 0 - i))"
    "Turn t = Turn s" "Round t = Round s" "Over t = Over s" "Winner t = Winner s"
  shows "looks_same i s t"
  using assms by (simp add: looks_same_def)

lemma looks_same_checkOver:
  assumes "looks_same i s t" "i < 2" "same_table s t"
  shows "looks_same i (checkOver s) (checkOver t)"
proof -
  have "pHP (player t 0) = pHP (player s 0) \<and> pID (player t 0) = pID (player s 0) \<and>
      pHP (player t (Suc 0)) = pHP (player s (Suc 0)) \<and> pID (player t (Suc 0)) = pID (player s (Suc 0))"
    using assms(1,2) by (auto simp: looks_same_def same_side_def same_front_iff less_two)
  then have "Over (checkOver t) = Over (checkOver s) \<and> Winner (checkOver t) = Winner (checkOver s)"
    using looks_sameD(8,9) [OF assms(1)] by (simp add: checkOver_def Let_def)
  with assms looks_sameD [OF assms(1)] show ?thesis
    by (intro looks_sameI) (simp_all add: same_table_def)
qed

lemma same_table_checkOver: "same_table s t \<Longrightarrow> same_table (checkOver s) (checkOver t)"
  by (simp add: same_table_def)

text \<open>The checks of \<open>playCard\<close> and \<open>Summon\<close> in one list: the first that fails decides.\<close>

definition playCheck :: "Player \<Rightarrow> Catalog \<Rightarrow> string \<Rightarrow> Err option" where
  "playCheck p c cid =
     (case indexOfString (pHand p) cid of
        None \<Rightarrow> fail CodeCardNotInHand (MsgNotInHand cid)
      | Some hi \<Rightarrow>
          (case Get c cid of
             None \<Rightarrow> fail CodeUnknownCard (MsgNoSuchCard cid)
           | Some cd \<Rightarrow>
               if pMana p < cCost cd then fail CodeNotEnoughMana (MsgNeedMana (cCost cd) (pMana p))
               else if cType cd \<noteq> TypeMinion then fail CodeNotImplemented (MsgNotAMinion cid)
               else if BoardLimit \<le> length (pBoard p)
               then fail CodeBoardFull (MsgBoardFull BoardLimit) else None))"

lemma playCard_eq:
  assumes "i < length (Players s)"
  shows "playCard s i a =
    (case playCheck (player s i) (cat s) (aCardID a) of
       Some e \<Rightarrow> (s, Some e)
     | None \<Rightarrow> (setPlayer (s\<lparr>nextInstID := Suc (nextInstID s)\<rparr>) i
         (playedCard (player s i) (the (indexOfString (pHand (player s i)) (aCardID a)))
            (the (Get (cat s) (aCardID a))) (Suc (nextInstID s))), None))"
proof (cases "indexOfString (pHand (player s i)) (aCardID a)")
  case None
  then show ?thesis by (simp add: playCard_def playCheck_def fail_def Let_def del: indexOfString_None)
next
  case (Some hi)
  show ?thesis
  proof (cases "Get (cat s) (aCardID a)")
    case None
    with Some show ?thesis by (simp add: playCard_def playCheck_def fail_def Let_def)
  next
    case cd: (Some cd)
    with Some assms show ?thesis
      by (simp add: playCard_def playCheck_def Summon_def newInstID_def fail_def Let_def
          playedCard_def newMinion_def)
  qed
qed

lemma playCard_alike:
  assumes l: "looks_same i s t" and e: "same_table s t" and i: "i < 2"
  shows "alike i (playCard s i a) (playCard t i a)"
proof -
  note f = looks_sameD [OF l]
  have len: "length (Players s) = 2" "length (Players t) = 2" and
    same: "cat t = cat s" "nextInstID t = nextInstID s" "Turn t = Turn s"
    using e by (simp_all add: same_table_def)
  have "looks_same i
      (setPlayer (s\<lparr>nextInstID := Suc (nextInstID s)\<rparr>) i (playedCard (player s i) hi cd n))
      (setPlayer (t\<lparr>nextInstID := Suc (nextInstID s)\<rparr>) i (playedCard (player t i) hi cd n))"
    for hi cd n
    using f len same i same_side_updates(5) [OF f(1)] by (intro looks_sameI) simp_all
  then have "alike i
      (setPlayer (s\<lparr>nextInstID := Suc (nextInstID s)\<rparr>) i (playedCard (player s i) hi cd n), None)
      (setPlayer (t\<lparr>nextInstID := Suc (nextInstID s)\<rparr>) i (playedCard (player t i) hi cd n), None)"
    for hi cd n
    using len same by (simp add: alike_def same_table_def)
  moreover have "playCheck (player t i) (cat t) (aCardID a) = playCheck (player s i) (cat s) (aCardID a)"
    unfolding playCheck_def f(3-5) same(1) by (rule refl)
  ultimately show ?thesis
    using i len alike_reject [OF l e] same f(3)
    by (simp add: playCard_eq split: option.split)
qed

text \<open>\<open>attack\<close> reads the two boards and nothing hidden.\<close>

lemma attacked_alike:
  assumes l: "looks_same i s t" and e: "same_table s t" and i: "i < 2"
  shows "looks_same i (removeDead (attacked_state s i ka target)) (removeDead (attacked_state t i ka target)) \<and>
    same_table (removeDead (attacked_state s i ka target)) (removeDead (attacked_state t i ka target))"
proof -
  note f = looks_sameD [OF l]
  have len: "length (Players s) = 2" "length (Players t) = 2" and
    same: "cat t = cat s" "nextInstID t = nextInstID s" "Turn t = Turn s"
    using e by (simp_all add: same_table_def)
  have ne: "i \<noteq> Suc 0 - i" "Suc 0 - i \<noteq> i" using other_neq [OF i] by simp_all
  show ?thesis
  proof (cases target)
    case None
    show ?thesis
      using i len same f ne
      by (simp add: None attacked_state_def strike_def Let_def same_table_def looks_same_def
          same_side_def same_front_iff hitMinion_def tireMinion_def)
  next
    case (Some kd)
    show ?thesis
      using i len same f ne
      by (simp add: Some attacked_state_def strike_def Let_def same_table_def looks_same_def
          same_side_def same_front_iff hitMinion_def tireMinion_def)
  qed
qed

lemma attack_alike:
  assumes l: "looks_same i s t" and e: "same_table s t" and i: "i < 2"
  shows "alike i (attack s i a) (attack t i a)"
proof -
  note f = looks_sameD [OF l]
  have "alike i (checkOver (removeDead (attacked_state s i ka target)), None)
      (checkOver (removeDead (attacked_state t i ka target)), None)" for ka target
    using attacked_alike [OF l e i, of ka target] looks_same_checkOver same_table_checkOver i
    by (auto simp: alike_def)
  note fin = this [unfolded attacked_state_def Let_def]
  have find: "findMinion (player t i) x = findMinion (player s i) x"
    "findMinion (player t (Suc 0 - i)) x = findMinion (player s (Suc 0 - i)) x" for x
    by (simp_all add: findMinion_def f)
  have choose: "chooseTarget (player t i) (player t (Suc 0 - i)) x =
      chooseTarget (player s i) (player s (Suc 0 - i)) x" for x
    unfolding chooseTarget_def find by (rule refl)
  show ?thesis
  proof (cases "findMinion (player s i) (aInstID a)")
    case None
    then show ?thesis
      by (simp add: attack_def Let_def find alike_reject [OF l e] del: findMinion_None)
  next
    case (Some ka)
    then show ?thesis
      by (cases "chooseTarget (player s i) (player s (Suc 0 - i)) (aTarget a)")
        (simp_all add: attack_def Let_def find choose f(4) fin alike_reject [OF l e])
  qed
qed

lemma endTurn_alike:
  assumes l: "looks_same i s t" and e: "same_table s t" and i: "i < 2"
  shows "alike i (endTurn s i) (endTurn t i)"
proof -
  note f = looks_sameD [OF l]
  let ?f = "\<lambda>s. setPlayer (s\<lparr>Turn := Suc 0 - i, Round := Round s + 1\<rparr>) (Suc 0 - i) (begun (player s (Suc 0 - i)))"
  have "i \<noteq> Suc 0 - i" using other_neq [OF i] by simp
  then have "looks_same i (?f s) (?f t)" "same_table (?f s) (?f t)"
    using f e i same_front_updates(5) [OF f(2)]
    by (simp_all add: looks_same_def same_table_def)
  moreover have "pDeck (player t (Suc 0 - i)) = [] \<longleftrightarrow> pDeck (player s (Suc 0 - i)) = []"
    using f(2) by (auto simp: same_front_iff)
  ultimately show ?thesis
    using looks_same_checkOver [of i "?f s" "?f t"] same_table_checkOver [of "?f s" "?f t"] i e
    by (simp add: alike_def endTurn_eq beginTurn_eq same_table_def)
qed


lemma Apply_alike:
  assumes "looks_same i s t" "same_table s t" "i < 2" "pID (player s i) = pid"
    and "shape_ok s"
  shows "alike i (Apply s pid a) (Apply t pid a)"
proof -
  have len: "length (Players s) = 2" "length (Players t) = 2" and turn: "Turn t = Turn s"
    using assms(2) by (simp_all add: same_table_def)
  have ix: "indexOf s pid = Some i" by (rule indexOf_unique [OF assms(5,3,4)])
  then have ix': "indexOf t pid = Some i"
    using indexOf_cong [OF len same_pID [OF assms(1,3)]] by simp
  have turn_of: "pID (player t (Turn s)) = pID (player s (Turn s))"
    using same_pID [OF assms(1,3)] assms(5) by (simp add: shape_ok_def)
  show ?thesis
    using looks_sameD(8) [OF assms(1)] turn turn_of ix ix' alike_reject [OF assms(1,2)]
      playCard_alike [OF assms(1-3), of a] attack_alike [OF assms(1-3), of a] endTurn_alike [OF assms(1-3)]
    by (cases "i = Turn s") (simp_all add: Apply_def)
qed

end
