(* ===== verification/Strategy.thy ===== *)
theory Strategy
  imports Battle_View Battle_Replay
begin

text \<open>
  \<open>scripts/bot/strategy.go\<close>: the bot's choice of an action from its view of the game.
  \<open>intn\<close> stands for \<open>rng.Intn\<close> at the time of the call, which documents
  \<open>0 <= Intn(n) < n\<close> for a positive \<open>n\<close>. What the bot chooses is never rejected.
\<close>

section \<open>The choice\<close>

text \<open>The loop over the hand; \<open>seen\<close> is the set of ids met before.\<close>

fun playCands :: "Catalog \<Rightarrow> int \<Rightarrow> string set \<Rightarrow> string list \<Rightarrow> Action list" where
  "playCands c mana seen [] = []"
| "playCands c mana seen (i # is) =
     (if i \<in> seen then playCands c mana seen is
      else
        (case Get c i of
           None \<Rightarrow> []
         | Some cd \<Rightarrow>
             if cType cd = TypeMinion \<and> cCost cd \<le> mana
             then [\<lparr>aType = ''play_card'', aCardID = i, aInstID = [], aTarget = []\<rparr>] else [])
        @ playCands c mana (insert i seen) is)"

definition attackOn :: "Minion \<Rightarrow> string \<Rightarrow> Action" where
  "attackOn m target = \<lparr>aType = ''attack'', aCardID = [], aInstID = mInstID m, aTarget = target\<rparr>"

fun attackCands :: "Minion list \<Rightarrow> Minion list \<Rightarrow> Action list" where
  "attackCands opp [] = []"
| "attackCands opp (m # ms) =
     (if \<not> mCanAttack m \<or> mAtk m \<le> 0 then attackCands opp ms
      else attackOn m ''face'' # map (\<lambda>e. attackOn m (mInstID e)) opp @ attackCands opp ms)"

definition candidates :: "View \<Rightarrow> Catalog \<Rightarrow> Action list" where
  "candidates v c =
     (if length (vBoard (vMe v)) < BoardLimit
      then playCands c (vMana (vMe v)) {} (case vHand (vMe v) of None \<Rightarrow> [] | Some h \<Rightarrow> h) else []) @
     attackCands (vBoard (vOpp v)) (vBoard (vMe v))"

definition endTurnAction :: Action where
  "endTurnAction = \<lparr>aType = ''end_turn'', aCardID = [], aInstID = [], aTarget = []\<rparr>"

definition chooseAction :: "View \<Rightarrow> Catalog \<Rightarrow> (nat \<Rightarrow> nat) \<Rightarrow> Action" where
  "chooseAction v c intn =
     (let cands = candidates v c in
      if length cands = 0 then endTurnAction else cands ! intn (length cands))"

section \<open>Every candidate is a legal action\<close>

lemma playCands_mem:
  "a \<in> set (playCands c mana seen h) \<Longrightarrow>
     aType a = ''play_card'' \<and> aCardID a \<in> set h \<and>
     (\<exists>cd. Get c (aCardID a) = Some cd \<and> cType cd = TypeMinion \<and> cCost cd \<le> mana)"
  by (induction h arbitrary: seen) (fastforce split: if_splits option.splits)+

lemma attackCands_mem:
  "a \<in> set (attackCands opp ms) \<Longrightarrow>
     \<exists>m target. m \<in> set ms \<and> mCanAttack m \<and> 0 < mAtk m \<and> a = attackOn m target \<and>
       (target = ''face'' \<or> target \<in> mInstID ` set opp)"
proof (induction ms)
  case (Cons m ms)
  show ?case
  proof (cases "a \<in> set (attackCands opp ms)")
    case True
    with Cons.IH show ?thesis by (meson list.set_intros(2))
  next
    case False
    with Cons.prems have "mCanAttack m \<and> 0 < mAtk m \<and>
        (a = attackOn m ''face'' \<or> (\<exists>e \<in> set opp. a = attackOn m (mInstID e)))"
      by (auto split: if_splits)
    then obtain target where "a = attackOn m target" "mCanAttack m" "0 < mAtk m"
      "target = ''face'' \<or> target \<in> mInstID ` set opp" by blast
    moreover have "m \<in> set (m # ms)" by simp
    ultimately show ?thesis by blast
  qed
qed simp

lemma findMinion_unique:
  assumes "distinct (map mInstID (pBoard p))" "m \<in> set (pBoard p)"
  shows "\<exists>k. findMinion p (mInstID m) = Some k \<and> pBoard p ! k = m"
proof -
  have "findMinion p (mInstID m) \<noteq> None" using assms(2) by auto
  then obtain k where k: "findMinion p (mInstID m) = Some k" by (auto simp del: findMinion_None)
  with assms have "pBoard p ! k = m"
    using findMinion_Some [OF k] by (metis distinct_map inj_onD nth_mem)
  with k show ?thesis by blast
qed

lemma board_ids_parts:
  assumes "wf_state s" "i < 2"
  shows "distinct (map mInstID (pBoard (player s i)))"
    and "mInstID ` set (pBoard (player s i)) \<inter> mInstID ` set (pBoard (player s (1 - i))) = {}"
    and "''face'' \<notin> mInstID ` set (pBoard (player s i))"
proof -
  have d: "distinct (map mInstID (pBoard (player s 0)))"
    "distinct (map mInstID (pBoard (player s (Suc 0))))"
    "mInstID ` set (pBoard (player s 0)) \<inter> mInstID ` set (pBoard (player s (Suc 0))) = {}"
    using wf_stateD(6) [OF assms(1)] by (simp_all add: board_ids_def)
  from assms(2) have "i = 0 \<or> i = Suc 0" by (simp add: less_two)
  then show "distinct (map mInstID (pBoard (player s i)))"
    and "mInstID ` set (pBoard (player s i)) \<inter> mInstID ` set (pBoard (player s (1 - i))) = {}"
    using d by (elim disjE; simp add: Int_commute)+
  have "mInstID m \<noteq> ''face''" if "m \<in> set (pBoard (player s i))" for m
  proof -
    have "minion_ok (cat s) (nextInstID s) m"
      using wf_stateD(8) [OF assms] that by (simp add: player_ok_def)
    then obtain k where "mInstID m = inst_id k" unfolding minion_ok_def by blast
    then show ?thesis by simp
  qed
  then show "''face'' \<notin> mInstID ` set (pBoard (player s i))" unfolding image_iff by metis
qed

lemma attack_accepted:
  assumes wf: "wf_state s" and i: "i < 2" and m: "m \<in> set (pBoard (player s i))"
    and can: "mCanAttack m" "0 < mAtk m"
    and tgt: "target = ''face'' \<or> target \<in> mInstID ` set (pBoard (player s (1 - i)))"
  shows "snd (attack s i (attackOn m target)) = None"
proof -
  obtain k where k: "findMinion (player s i) (mInstID m) = Some k" "pBoard (player s i) ! k = m"
    using findMinion_unique [OF board_ids_parts(1) [OF wf i] m] by blast
  have "\<exists>t. chooseTarget (player s i) (player s (1 - i)) target = Inr t"
  proof (cases "target = ''face''")
    case False
    with tgt board_ids_parts(2) [OF wf i] have "target \<notin> mInstID ` set (pBoard (player s i))"
      and opp: "target \<in> mInstID ` set (pBoard (player s (1 - i)))" by auto
    then have "findMinion (player s i) target = None" by simp
    moreover obtain kd where "findMinion (player s (1 - i)) target = Some kd"
      using opp findMinion_None [of "player s (1 - i)" target]
      by (cases "findMinion (player s (1 - i)) target") simp_all
    ultimately show ?thesis using False by (simp add: chooseTarget_def del: findMinion_None)
  qed (simp add: chooseTarget_def)
  then obtain t where "chooseTarget (player s i) (player s (1 - i)) target = Inr t" by blast
  with k can show ?thesis by (simp add: attack_def attackOn_def Let_def)
qed

lemma candidates_legal:
  assumes wf: "wf_state s" and run: "\<not> Over s" and i: "i = Turn s"
    and a: "a \<in> set (candidates (ViewFor s i) (cat s))"
  shows "snd (Apply s (pID (player s i)) a) = None"
proof -
  have i2: "i < 2" using wf_stateD(2) [OF wf] i by simp
  have v: "vBoard (vMe (ViewFor s i)) = pBoard (player s i)" "vMana (vMe (ViewFor s i)) = pMana (player s i)"
    "vHand (vMe (ViewFor s i)) = Some (pHand (player s i))"
    "vBoard (vOpp (ViewFor s i)) = pBoard (player s (1 - i))"
    by (simp_all add: ViewFor_def toView_def)
  from a consider
      (play) "length (pBoard (player s i)) < BoardLimit"
        "a \<in> set (playCands (cat s) (pMana (player s i)) {} (pHand (player s i)))"
    | (attack) "a \<in> set (attackCands (pBoard (player s (1 - i))) (pBoard (player s i)))"
    unfolding candidates_def v set_append Un_iff by (metis empty_iff empty_set option.case(2))
  then show ?thesis
  proof cases
    case play
    from playCands_mem [OF play(2)] obtain cd where
      t: "aType a = ''play_card''" "aCardID a \<in> set (pHand (player s i))"
        "Get (cat s) (aCardID a) = Some cd" "cType cd = TypeMinion" "cCost cd \<le> pMana (player s i)"
      by blast
    moreover obtain hi where "indexOfString (pHand (player s i)) (aCardID a) = Some hi"
      using t(2) indexOfString_None [of "pHand (player s i)" "aCardID a"]
      by (cases "indexOfString (pHand (player s i)) (aCardID a)") simp_all
    ultimately have "playCheck (player s i) (cat s) (aCardID a) = None"
      using play(1) by (simp add: playCheck_def)
    with i2 wf_stateD(1) [OF wf] have "snd (playCard s i a) = None" by (simp add: playCard_eq)
    with t(1) show ?thesis by (simp only: Apply_current(1) [OF wf run i])
  next
    case attack
    from attackCands_mem [OF this] obtain m target where m: "m \<in> set (pBoard (player s i))" "mCanAttack m" "0 < mAtk m"
      "a = attackOn m target" "target = ''face'' \<or> target \<in> mInstID ` set (pBoard (player s (1 - i)))"
      by (elim exE conjE) (rule that)
    have "snd (attack s i a) = None" unfolding m(4) by (rule attack_accepted [OF wf i2 m(1-3,5)])
    moreover have "aType a = ''attack''" by (simp add: m(4) attackOn_def)
    ultimately show ?thesis by (simp only: Apply_current(2) [OF wf run i])
  qed
qed

lemma chooseAction_legal:
  assumes "wf_state s" "\<not> Over s" "i = Turn s" and "\<And>n. 0 < n \<Longrightarrow> intn n < n"
  shows "snd (Apply s (pID (player s i)) (chooseAction (ViewFor s i) (cat s) intn)) = None"
proof (cases "candidates (ViewFor s i) (cat s) = []")
  case True
  then show ?thesis
    using endTurn_legal [OF assms(1-3)] by (simp add: chooseAction_def endTurnAction_def)
next
  case False
  then have "candidates (ViewFor s i) (cat s) ! intn (length (candidates (ViewFor s i) (cat s)))
      \<in> set (candidates (ViewFor s i) (cat s))"
    using assms(4) by (intro nth_mem) simp
  with candidates_legal [OF assms(1-3)] False show ?thesis
    by (simp add: chooseAction_def Let_def)
qed


section \<open>Two bots\<close>

text \<open>
  The moves of two bots on the state itself: whoever is on turn chooses from its view.
  \<open>rngs k\<close> is the draw with \<open>k\<close> moves left to simulate.
\<close>

fun botGame :: "(nat \<Rightarrow> nat \<Rightarrow> nat) \<Rightarrow> nat \<Rightarrow> State \<Rightarrow> State" where
  "botGame rngs 0 s = s"
| "botGame rngs (Suc k) s =
     (if Over s then s
      else botGame rngs k
             (fst (Apply s (pID (player s (Turn s)))
                     (chooseAction (ViewFor s (Turn s)) (cat s) (rngs k)))))"


lemma botGame_over:
  assumes "invar_game s" "fuel s < k" and "\<And>j n. 0 < n \<Longrightarrow> rngs j n < n"
  shows "Over (botGame rngs k s)"
  using assms(1,2)
proof (induction k arbitrary: s)
  case (Suc k)
  show ?case
  proof (cases "Over s")
    case False
    let ?a = "chooseAction (ViewFor s (Turn s)) (cat s) (rngs k)"
    let ?r = "Apply s (pID (player s (Turn s))) ?a"
    have "wf_state s" using Suc.prems(1) by (simp add: invar_game_def)
    from this False refl assms(3) have "snd ?r = None" by (rule chooseAction_legal)
    then have "?r = (fst ?r, None)" by (simp only: prod_eq_iff fst_conv snd_conv)
    from game_rules.accept_decreases [OF Suc.prems(1) this] have "fuel (fst ?r) < k"
      using Suc.prems(2) by simp
    with Suc.IH [OF game_rules.invar_app [OF Suc.prems(1)]]
    have "Over (botGame rngs k (fst ?r))" by blast
    with False show ?thesis by (simp only: botGame.simps if_False)
  qed simp
qed simp

end
