(* ===== verification/Checksum.thy ===== *)
theory Checksum
  imports Battle_Model "HOL-Library.Word"
begin

text \<open>
  \<open>internal/battle/checksum.go\<close>: the 64-bit FNV-1a hash of a text that lists the state.
  Strings are lists of bytes. \<open>strconv.Quote\<close> is written out for ASCII strings; what it
  does with other bytes depends on tables of Unicode and is the argument \<open>quoteU\<close>. The
  hash of two texts that differ in one byte only is never the same, because the FNV
  prime is odd.
\<close>

unbundle bit_operations_syntax

section \<open>Hexadecimal digits\<close>

definition hexdigit :: "nat \<Rightarrow> char" where
  "hexdigit n = (if n < 10 then char_of (48 + n) else char_of (87 + n))"

fun hex_digits :: "nat \<Rightarrow> nat \<Rightarrow> string" where
  "hex_digits 0 n = []"
| "hex_digits (Suc k) n = hex_digits k (n div 16) @ [hexdigit (n mod 16)]"

lemma of_char_hexdigit:
  assumes "n < 16" shows "(of_char (hexdigit n) :: nat) = (if n < 10 then 48 + n else 87 + n)"
  using assms by (simp only: hexdigit_def if_distrib of_char_of) (simp only: mod_less split: if_split; linarith)

lemma hexdigit_inject:
  assumes "m < 16" "n < 16" shows "hexdigit m = hexdigit n \<longleftrightarrow> m = n"
proof
  assume "hexdigit m = hexdigit n"
  then have "(if m < 10 then 48 + m else 87 + m) = (if n < 10 then 48 + n else 87 + n)"
    by (metis of_char_hexdigit assms)
  then show "m = n" using assms by (simp split: if_splits)
qed simp

lemma length_hex_digits [simp]: "length (hex_digits k n) = k"
  by (induction k arbitrary: n) simp_all

lemma same_div_mod: "m div 16 = n div 16 \<Longrightarrow> m mod 16 = n mod 16 \<Longrightarrow> m = (n :: nat)"
  by (metis div_mult_mod_eq)

lemma hex_digits_inject:
  "m < 16 ^ k \<Longrightarrow> n < 16 ^ k \<Longrightarrow> hex_digits k m = hex_digits k n \<longleftrightarrow> m = n"
proof (induction k arbitrary: m n)
  case (Suc k)
  have "m div 16 < 16 ^ k" "n div 16 < 16 ^ k"
    using Suc.prems by (simp_all add: less_mult_imp_div_less mult.commute)
  with Suc.IH have "hex_digits k (m div 16) = hex_digits k (n div 16) \<longleftrightarrow> m div 16 = n div 16"
    by blast
  then show ?case
    using hexdigit_inject [of "m mod 16" "n mod 16"] by (auto intro: same_div_mod)
qed simp

section \<open>Quoting\<close>

definition is_ascii :: "string \<Rightarrow> bool" where
  "is_ascii s \<longleftrightarrow> list_all (\<lambda>c. (of_char c :: nat) < 128) s"

text \<open>One ASCII byte inside \<open>strconv.Quote\<close>.\<close>

definition quote_char :: "char \<Rightarrow> string" where
  "quote_char c =
     (let n = of_char c :: nat; esc = (\<lambda>e. [CHR 0x5C, e]) in
      if n = 34 \<or> n = 92 then esc c
      else if 32 \<le> n \<and> n < 127 then [c]
      else if n = 7 then esc (CHR ''a'')
      else if n = 8 then esc (CHR ''b'')
      else if n = 12 then esc (CHR ''f'')
      else if n = 10 then esc (CHR ''n'')
      else if n = 13 then esc (CHR ''r'')
      else if n = 9 then esc (CHR ''t'')
      else if n = 11 then esc (CHR ''v'')
      else [CHR 0x5C, CHR ''x''] @ hex_digits 2 n)"

definition quote :: "(string \<Rightarrow> string) \<Rightarrow> string \<Rightarrow> string" where
  "quote quoteU s =
     (if is_ascii s then [CHR 0x22] @ concat (map quote_char s) @ [CHR 0x22] else quoteU s)"

text \<open>\<open>%q\<close> of a slice of strings: quoted, separated by spaces, in brackets.\<close>

fun spaced :: "string list \<Rightarrow> string" where
  "spaced [] = []"
| "spaced [x] = x"
| "spaced (x # y # ys) = x @ '' '' @ spaced (y # ys)"

definition quotes :: "(string \<Rightarrow> string) \<Rightarrow> string list \<Rightarrow> string" where
  "quotes quoteU xs = ''['' @ spaced (map (quote quoteU) xs) @ '']''"

section \<open>FNV-1a\<close>

definition fnv_offset :: "64 word" where "fnv_offset = 14695981039346656037"
definition fnv_prime :: "64 word" where "fnv_prime = 1099511628211"

definition fnv_step :: "64 word \<Rightarrow> char \<Rightarrow> 64 word" where
  "fnv_step h b = (h XOR word_of_nat (of_char b)) * fnv_prime"

definition fnv1a :: "string \<Rightarrow> 64 word" where
  "fnv1a bs = foldl fnv_step fnv_offset bs"

section \<open>The checksum of a state\<close>

definition minionText :: "Minion \<Rightarrow> string" where
  "minionText m =
     '';'' @ mInstID m @ '','' @ mCardID m @ '','' @ show_int (mAtk m) @ '','' @
     show_int (mHP m) @ '','' @ show_int (mMaxHP m) @ '','' @ show_bool (mCanAttack m)"

definition playerText :: "(string \<Rightarrow> string) \<Rightarrow> Player \<Rightarrow> string" where
  "playerText quoteU p =
     ''|'' @ pID p @ '','' @ show_int (pHP p) @ '','' @ show_int (pMana p) @ '','' @
     show_int (pMaxMana p) @ '','' @ show_int (pFatigue p) @ '','' @
     quotes quoteU (pHand p) @ '','' @ quotes quoteU (pDeck p) @ concat (map minionText (pBoard p))"

definition stateText :: "(string \<Rightarrow> string) \<Rightarrow> State \<Rightarrow> string" where
  "stateText quoteU s =
     show_nat (Turn s) @ ''|'' @ show_int (Round s) @ ''|'' @ show_bool (Over s) @ ''|'' @
     Winner s @ ''|'' @ show_nat (nextInstID s) @ concat (map (playerText quoteU) (Players s))"

definition Checksum :: "(string \<Rightarrow> string) \<Rightarrow> State \<Rightarrow> string" where
  "Checksum quoteU s = hex_digits 16 (unat (fnv1a (stateText quoteU s)))"

section \<open>What the hash separates\<close>

lemma fnv_prime_unit: "fnv_prime * 14886173955864302971 = 1"
  by (simp add: fnv_prime_def)

lemma fnv_cancel: "x * fnv_prime = y * fnv_prime \<longleftrightarrow> x = y"
proof
  assume "x * fnv_prime = y * fnv_prime"
  then have "x * (fnv_prime * 14886173955864302971) = y * (fnv_prime * 14886173955864302971)"
    by (simp only: mult.assoc [symmetric])
  then show "x = y" by (simp add: fnv_prime_unit)
qed simp

lemma xor_cancel: "x XOR z = y XOR z \<longleftrightarrow> x = (y :: 64 word)"
proof
  assume "x XOR z = y XOR z"
  then have "(x XOR z) XOR z = (y XOR z) XOR z" by (rule arg_cong)
  then show "x = y" by (simp only: xor.assoc xor_self_eq xor.right_neutral)
qed simp

lemma word_of_char_inject: "(word_of_nat (of_char b) :: 64 word) = word_of_nat (of_char c) \<longleftrightarrow> b = c"
proof
  assume "(word_of_nat (of_char b) :: 64 word) = word_of_nat (of_char c)"
  then have "take_bit 64 (of_char b :: nat) = take_bit 64 (of_char c :: nat)"
    by (simp add: word_of_nat_eq_iff)
  moreover have "take_bit 64 (of_char x :: nat) = of_char x" for x
    by (rule take_bit_nat_eq_self) (rule less_trans [OF nat_of_char_less_256], simp)
  ultimately show "b = c" by (simp only: of_char_eq_iff)
qed simp

lemma fnv_step_inject: "fnv_step h b = fnv_step g b \<longleftrightarrow> h = g"
  unfolding fnv_step_def fnv_cancel by (rule xor_cancel)

lemma fnv_step_byte: "fnv_step h b = fnv_step h c \<longleftrightarrow> b = c"
  unfolding fnv_step_def fnv_cancel xor.commute [of h] xor_cancel by (rule word_of_char_inject)

lemma fnv_foldl: "foldl fnv_step h bs = foldl fnv_step g bs \<longleftrightarrow> h = g"
  by (induction bs arbitrary: h g) (simp_all add: fnv_step_inject)

lemma fnv1a_one_byte: "fnv1a (xs @ b # ys) = fnv1a (xs @ c # ys) \<longleftrightarrow> b = c"
  by (simp add: fnv1a_def fnv_foldl fnv_step_byte)

lemma unat_64: "unat (w :: 64 word) < 16 ^ 16"
  using unsigned_less [of w, where ?'a = nat] by simp

lemma Checksum_eq: "Checksum q s = Checksum q t \<longleftrightarrow> fnv1a (stateText q s) = fnv1a (stateText q t)"
  unfolding Checksum_def by (subst hex_digits_inject) (simp_all add: unat_64 word_unat_eq_iff del: power_numeral)


lemma Checksum_one_byte:
  assumes "stateText q s = u @ b # v" "stateText q t = u @ c # v"
  shows "Checksum q s = Checksum q t \<longleftrightarrow> b = c"
  by (simp only: Checksum_eq assms fnv1a_one_byte)

lemma length_Checksum [simp]: "length (Checksum q s) = 16"
  by (simp add: Checksum_def)

lemma Checksum_nonempty [simp]: "Checksum q s \<noteq> []"
  using length_Checksum [of q s] by fastforce

end
