(* ===== verification/Battle_Props.thy ===== *)
theory Battle_Props
  imports Sample Battle_Bounds Strategy Checksum
begin

text \<open>
  The properties of the rules of the game: each is applied once to the sample game,
  where its hypotheses hold.
\<close>

section \<open>Shared lemmas\<close>

lemma fold_append:
  "fold (\<lambda>(k, u) acc. acc @ [(int k, u)]) xs acc = acc @ map (\<lambda>(k, u). (int k, u)) xs"
  by (induction xs arbitrary: acc) (auto simp: case_prod_unfold)

lemma replayFrom_error:
  "replayFrom app f i s xs acc = (t, Some (k, e), acc') \<Longrightarrow>
     i \<le> k \<and> k < i + length xs \<and>
     (\<exists>u. plays app s (take (k - i) xs) u \<and>
          app u (sPlayer (xs ! (k - i))) (sAction (xs ! (k - i))) = (t, Some e))"
proof (induction xs arbitrary: i s acc)
  case (Cons st xs)
  obtain s' oe where step: "app s (sPlayer st) (sAction st) = (s', oe)"
    by (cases "app s (sPlayer st) (sAction st)")
  show ?case
  proof (cases oe)
    case (Some e')
    with step Cons.prems show ?thesis by simp
  next
    case None
    with step Cons.prems have "replayFrom app f (i + 1) s' xs (f (int i) s' acc) = (t, Some (k, e), acc')"
      by simp
    from Cons.IH [OF this] obtain u where k: "Suc i \<le> k" "k < Suc i + length xs"
      and u: "plays app s' (take (k - Suc i) xs) u"
        "app u (sPlayer (xs ! (k - Suc i))) (sAction (xs ! (k - Suc i))) = (t, Some e)" by auto
    have "k - i = Suc (k - Suc i)" using k(1) by simp
    with k u step None show ?thesis by auto
  qed
qed simp

lemma game_player64:
  assumes sw: "shuffle_ok sw" and g: "game sw s" and c: "catalog64 (cat s)" and i: "i < 2"
  shows "player64 (player s i)"
proof -
  have inv: "wf_state s" "tired_state s" using game_invar [OF sw g] by (auto simp: invar_game_def)
  have "- (2 ^ 63) \<le> mHP m" if "m \<in> set (pBoard (player s i))" for m
    using wf_stateD(9) [OF inv(1) i] that by (force simp: alive_def)
  with inv i game_hp_low [OF sw g c] show ?thesis
    by (intro player64_ok [OF wf_stateD(8) [OF inv(1) i] wf_stateD(3) [OF inv(1)] c])
      (auto simp: tired_state_def hp_low_def)
qed

lemma strike64:
  assumes sw: "shuffle_ok sw" and g: "game sw s" and c: "catalog64 (cat s)" and s64: "state64 s" and n: "\<not> Over s"
    and i: "i < 2" and ka: "ka < length (pBoard (player s i))"
    and t: "\<forall>kd. target = Some kd \<longrightarrow> kd < length (pBoard (player s (1 - i)))"
  shows "state64 (strike s i ka target)"
proof -
  have wf: "wf_state s" using game_invar [OF sw g] by (simp add: invar_game_def)
  have len: "length (Players s) = 2" by (rule wf_stateD(1) [OF wf])
  have j: "1 - i < 2" "1 - i \<noteq> i" using i by auto
  have p64: "player64 (player s k)" if "k < 2" for k by (rule game_player64 [OF sw g c that])
  note atk = minion_atk [OF wf_stateD(8) [OF wf] wf_stateD(3) [OF wf] c]
  have a: "0 \<le> mAtk (pBoard (player s i) ! ka)" "in64 (mAtk (pBoard (player s i) ! ka))"
    using atk [OF i] ka by simp_all
  have "player64 (player (strike s i ka target) k)" if k: "k < 2" for k
  proof (cases target)
    case None
    have "0 < pHP (player s (1 - i))" using outcome_hp [OF wf_stateD(4) [OF wf] n j(1)] .
    with p64 [OF j(1)] a have "player64 ((player s (1 - i))\<lparr>pHP := pHP (player s (1 - i)) - mAtk (pBoard (player s i) ! ka)\<rparr>)"
      by (auto simp: player64_def intro: in64_sub)
    with p64 [OF k] len None j show ?thesis by (simp add: strike_def Let_def)
  next
    case (Some kd)
    then have kd: "kd < length (pBoard (player s (1 - i)))" using t by simp
    have d: "0 \<le> mAtk (pBoard (player s (1 - i)) ! kd)" "in64 (mAtk (pBoard (player s (1 - i)) ! kd))"
      using atk [OF j(1)] kd by simp_all
    have "player64 (hitMinion (player s i) ka (mAtk (pBoard (player s (1 - i)) ! kd)))"
      by (rule player64_hit [OF p64 [OF i] wf_stateD(9) [OF wf i] ka d])
    moreover have "player64 (hitMinion (player s (1 - i)) kd (mAtk (pBoard (player s i) ! ka)))"
      by (rule player64_hit [OF p64 [OF j(1)] wf_stateD(9) [OF wf j(1)] kd a])
    ultimately show ?thesis using p64 [OF k] len Some i j by (simp add: strike_def Let_def)
  qed
  then have "player64 (player (strike s i ka target) 0)" "player64 (player (strike s i ka target) 1)" by simp_all
  moreover have "Round (strike s i ka target) = Round s" "nextInstID (strike s i ka target) = nextInstID s"
    "Turn (strike s i ka target) = Turn s"
    by (simp_all add: strike_def Let_def split: option.split)
  ultimately show ?thesis using s64 by (simp add: state64_def)
qed

lemma sample_wf: "wf_state sample_state"
  using sample_invar by (simp add: invar_game_def)

lemma sample_current: "\<not> Over sample_state" "Turn sample_state = 0" "pID (player sample_state 0) = ''alice''"
  by (simp_all add: sample_state_def player_def sample_p0_def)

section \<open>Whole games\<close>

text \<open>
  C1. In every game started by \<open>NewState\<close> on a loaded catalog, after any sequence of
  attempted actions by anyone, the checker of the project's own fuzz test
  (\<open>checkInvariants\<close>: bounds of life, mana, fatigue and board, unique minion ids, every
  card accounted for, the outcome) accepts the state.
\<close>
theorem fuzz_invariants:
  assumes "shuffle_ok sw" and "wf_catalog c" and "NewState sw r (Some c) a b seed = Inr s"
    and "fold fuzzStep acts (s, [0, 0]) = (t, played)"
  shows "checkInvariants t (map length (InitDecks s)) played"
proof -
  have wf: "wf_state s" by (rule NewState_wf [OF assms(3,1,2)])
  obtain da db where t: "player (table sw r c a b seed) 0 = freshPlayer (iID a) da" "mset da = mset (iCards a)"
      "player (table sw r c a b seed) (Suc 0) = freshPlayer (iID b) db" "mset db = mset (iCards b)"
    by (rule player_table [OF assms(1)])
  have "size (held (dealt k (freshPlayer i d))) = length d" for k i d
    by (simp add: held_def dealt_def freshPlayer_def flip: mset_append size_mset)
  moreover have "s = beginTurn (dealHands HandStart (table sw r c a b seed)) 0"
    using assms(3) by (simp add: NewState_Inr)
  ultimately have "counted s [0, 0]"
    using mset_eq_length [OF t(2)] mset_eq_length [OF t(4)]
    by (simp add: counted_def two_players player_dealHands t)
  from fuzz_run [OF wf this assms(4)] show ?thesis by (intro checkInvariants_wf) auto
qed

theorem fuzz_invariants_witness:
  "checkInvariants (fst (fold fuzzStep [(''alice'', play ''slime''), (''bob'', end_turn)] (sample_state, [0, 0])))
     (map length (InitDecks sample_state))
     (snd (fold fuzzStep [(''alice'', play ''slime''), (''bob'', end_turn)] (sample_state, [0, 0])))"
  by (rule fuzz_invariants [OF sample_swaps_ok sample_catalog_wf sample_NewState surjective_pairing])

text \<open>
  C2. A live game tries actions of which the rules reject some; replaying only the
  accepted ones from the same seed and decks with \<open>Replay\<close> reports no error, ends in
  the very same state, and the callback sees the opening and then the state after each
  accepted action.
\<close>
theorem replay_reproduces_game:
  assumes "NewState sw r c a b seed = Inr s"
  shows "Replay sw c r a b seed (accepted Apply s xs) (Some (\<lambda>i u acc. acc @ [(i, u)])) [] =
    (Some (attempt Apply s xs), None,
     (-1, s) # map (\<lambda>(k, u). (int k, u))
       (zip [0..<length (accepted Apply s xs)] (trail Apply s (accepted Apply s xs))))"
  by (simp add: Replay_def assms game_rules.replay_accepted fold_append)

theorem replay_reproduces_game_witness:
  "Replay sample_swaps (Some sample_catalog) ''room'' sample_a sample_b 5
      (accepted Apply sample_state [\<lparr>sPlayer = ''alice'', sAction = end_turn\<rparr>])
      (Some (\<lambda>i u acc. acc @ [(i, u)])) [] =
    (Some (attempt Apply sample_state [\<lparr>sPlayer = ''alice'', sAction = end_turn\<rparr>]), None,
     (-1, sample_state) # map (\<lambda>(k, u). (int k, u))
       (zip [0..<length (accepted Apply sample_state [\<lparr>sPlayer = ''alice'', sAction = end_turn\<rparr>])]
         (trail Apply sample_state (accepted Apply sample_state [\<lparr>sPlayer = ''alice'', sAction = end_turn\<rparr>]))))"
  by (rule replay_reproduces_game [OF sample_NewState])

text \<open>
  When \<open>Replay\<close> reports a \<open>ReplayError\<close> of step \<open>k\<close>, the steps before \<open>k\<close> were all
  accepted and step \<open>k\<close> is the one the rules reject, with the error reported, in the
  state returned.
\<close>
theorem replay_error_index:
  assumes "Replay sw c r a b seed steps onStep acc = (t, Some (ReplayError k e), acc')"
  shows "\<exists>s u. NewState sw r c a b seed = Inr s \<and> k < length steps \<and> plays Apply s (take k steps) u \<and>
    t = Some u \<and> Apply u (sPlayer (steps ! k)) (sAction (steps ! k)) = (u, Some e)"
proof -
  obtain s where s: "NewState sw r c a b seed = Inr s"
    using assms by (auto simp: Replay_def split: sum.splits)
  with assms obtain f acc0 t' where "replayFrom Apply f 0 s steps acc0 = (t', Some (k, e), acc')" "t = Some t'"
    by (auto simp: Replay_def Let_def split: prod.splits option.splits)
  with s replayFrom_error [of Apply f 0 s steps acc0 t' k e acc'] Apply_rejected_same show ?thesis
    by fastforce
qed

theorem replay_error_index_witness:
  "\<exists>s u. NewState sample_swaps ''room'' (Some sample_catalog) sample_a sample_b 5 = Inr s \<and>
    0 < length [\<lparr>sPlayer = ''bob'', sAction = end_turn\<rparr>] \<and>
    plays Apply s (take 0 [\<lparr>sPlayer = ''bob'', sAction = end_turn\<rparr>]) u \<and> Some sample_state = Some u \<and>
    Apply u (sPlayer ([\<lparr>sPlayer = ''bob'', sAction = end_turn\<rparr>] ! 0))
      (sAction ([\<lparr>sPlayer = ''bob'', sAction = end_turn\<rparr>] ! 0)) =
      (u, Some \<lparr>eCode = CodeNotYourTurn, eMsg = MsgTurnOf ''alice''\<rparr>)"
proof (rule replay_error_index [of _ _ _ _ _ _ _ None "()" _ _ _ "()"])
  have "indexOf sample_state ''bob'' = Some 1"
    by (simp add: indexOf_def sample_state_def sample_p0_def sample_p1_def)
  then show "Replay sample_swaps (Some sample_catalog) ''room'' sample_a sample_b 5
      [\<lparr>sPlayer = ''bob'', sAction = end_turn\<rparr>] None () =
    (Some sample_state, Some (ReplayError 0 \<lparr>eCode = CodeNotYourTurn, eMsg = MsgTurnOf ''alice''\<rparr>), ())"
    using sample_current by (simp add: Replay_def sample_NewState Apply_def fail_def)
qed

text \<open>
  A game is short: whatever the players try, at most seven actions per card of the
  two decks plus thirty are ever accepted.
\<close>
theorem game_length_bound:
  assumes "shuffle_ok sw" and "wf_catalog c" and "NewState sw r (Some c) a b seed = Inr s"
  shows "length (accepted Apply s xs) \<le> 7 * (length (iCards a) + length (iCards b)) + 30"
  using game_rules.accepted_bounded [OF NewState_invar [OF assms(3,1,2)], of xs]
    NewState_fuel [OF assms(3,1)] by simp

theorem game_length_bound_witness:
  "length (accepted Apply sample_state (replicate 500 \<lparr>sPlayer = ''alice'', sAction = end_turn\<rparr>)) \<le>
     7 * (length (iCards sample_a) + length (iCards sample_b)) + 30"
  by (rule game_length_bound [OF sample_swaps_ok sample_catalog_wf sample_NewState])

text \<open>
  Two bots that follow \<open>chooseAction\<close> finish every game: after at most seven moves
  per card plus thirty-one the game is over, whatever the random draws.
\<close>
theorem bot_game_finishes:
  assumes "shuffle_ok sw" and "wf_catalog c" and "NewState sw r (Some c) a b seed = Inr s"
    and "\<And>j n. 0 < n \<Longrightarrow> rngs j n < n"
  shows "Over (botGame rngs (7 * (length (iCards a) + length (iCards b)) + 31) s)"
  using NewState_fuel [OF assms(3,1)] assms(4)
  by (intro botGame_over NewState_invar [OF assms(3,1,2)]) simp_all

theorem bot_game_finishes_witness:
  "Over (botGame (\<lambda>_ _. 0) (7 * (length (iCards sample_a) + length (iCards sample_b)) + 31) sample_state)"
  by (rule bot_game_finishes [OF sample_swaps_ok sample_catalog_wf sample_NewState]) simp

text \<open>
  C39. In every reachable state on a catalog of 64-bit numbers, with decks that fit a slice, every
  integer of the state but the seed it was given fits Go's \<open>int\<close>, and so does every integer an attack by any minion leaves
  before the dead are removed; all other numbers the rules compute are kept in the state. The number
  of plies never exceeds the cards of the two decks plus six, that of minions the cards.
\<close>
theorem game_numbers_bounded:
  assumes "shuffle_ok sw" and "game sw s" and "catalog64 (cat s)"
    and "int (length (InitDecks s ! 0) + length (InitDecks s ! 1)) + 7 < 2 ^ 63"
  shows "state64 s \<and> 1 \<le> Round s \<and> Round s \<le> int (length (InitDecks s ! 0) + length (InitDecks s ! 1)) + 6 \<and>
    in64 (Round s + 1) \<and> nextInstID s \<le> length (InitDecks s ! 0) + length (InitDecks s ! 1) \<and>
    (\<forall>i ka target. \<not> Over s \<and> i < 2 \<and> ka < length (pBoard (player s i)) \<and>
       (\<forall>kd. target = Some kd \<longrightarrow> kd < length (pBoard (player s (1 - i)))) \<longrightarrow>
       state64 (strike s i ka target))"
proof -
  have p64: "player64 (player s i)" if "i < 2" for i by (rule game_player64 [OF assms(1-3) that])
  have wf: "wf_state s" using game_invar [OF assms(1,2)] by (simp add: invar_game_def)
  have n: "nextInstID s \<le> length (InitDecks s ! 0) + length (InitDecks s ! 1)"
    using wf_stateD(5) [OF wf] by (simp add: cards_ok_def)
  have r: "1 \<le> Round s" "Round s \<le> int (length (InitDecks s ! 0) + length (InitDecks s ! 1)) + 6"
    using game_clock [OF assms(1,2)] by (simp_all add: clock_ok_def)
  then have s: "state64 s" using n assms(4) wf_stateD(2) [OF wf] p64 by (simp add: state64_def in64_def)
  have "in64 (Round s + 1)" using r assms(4) by (simp add: in64_def)
  with n r s strike64 [OF assms(1-3) s] show ?thesis by blast
qed

lemma sample_catalog64: "catalog64 sample_catalog"
proof -
  have "byId sample_catalog = (byId emptyCatalog)(map cID yaml_cards [\<mapsto>] yaml_cards)"
    using loadCards_Inr [OF load_sample] by simp
  then have "cd \<in> set yaml_cards" if "Get sample_catalog i = Some cd" for i cd
    using that by (auto simp: Get_def emptyCatalog_def map_upds_def dest!: map_of_SomeD set_zip_rightD)
  moreover have "\<forall>cd \<in> set yaml_cards. in64 (cCost cd) \<and> in64 (cAtk cd) \<and> in64 (cHP cd)"
    by (simp add: yaml_cards_def in64_def)
  ultimately show ?thesis by (auto simp: catalog64_def)
qed

theorem game_numbers_bounded_witness:
  "state64 sample_state \<and> Round sample_state \<le>
      int (length (InitDecks sample_state ! 0) + length (InitDecks sample_state ! 1)) + 6"
proof -
  have "catalog64 (cat sample_state)" by (simp add: sample_state_def sample_catalog64)
  moreover have "int (length (InitDecks sample_state ! 0) + length (InitDecks sample_state ! 1)) + 7 < 2 ^ 63"
    by (simp add: sample_state_def sample_a_def sample_b_def)
  ultimately show ?thesis using game_numbers_bounded [OF sample_swaps_ok sample_game] by blast
qed

end
