(* ===== verification/Battle_Actions.thy ===== *)
theory Battle_Actions
  imports Battle_Props
begin

text \<open>
  What each action does, on every branch, as properties of single calls: attacks and
  their damage, ends of turn, plays, refusals, and what a player learns.
\<close>

section \<open>Shared lemmas\<close>

lemma list_update_map:
  assumes "distinct (map f xs)" "k < length xs"
  shows "xs[k := g (xs ! k)] = map (\<lambda>x. if f x = f (xs ! k) then g x else x) xs"
proof (rule nth_equalityI)
  fix j assume j: "j < length (xs[k := g (xs ! k)])"
  have "f (xs ! j) = f (xs ! k) \<longleftrightarrow> j = k"
    using assms j by (metis distinct_conv_nth length_list_update length_map nth_map)
  then show "xs[k := g (xs ! k)] ! j = map (\<lambda>x. if f x = f (xs ! k) then g x else x) xs ! j"
    using j assms(2) by (cases "j = k") auto
qed simp

text \<open>A minion after a fight: hurt, tired or untouched; the dead are gone.\<close>

definition hurt :: "int \<Rightarrow> Minion \<Rightarrow> Minion" where
  "hurt d m = m\<lparr>mHP := mHP m - d\<rparr>"

definition tire :: "Minion \<Rightarrow> Minion" where
  "tire m = m\<lparr>mCanAttack := False\<rparr>"

definition board_after :: "string \<Rightarrow> (Minion \<Rightarrow> Minion) \<Rightarrow> Minion list \<Rightarrow> Minion list" where
  "board_after iid f b = filter (\<lambda>m. 0 < mHP m) (map (\<lambda>m. if mInstID m = iid then f m else m) b)"

lemma board_after_update:
  assumes "distinct (map mInstID b)" "k < length b"
  shows "filter (\<lambda>m. 0 < mHP m) (b[k := f (b ! k)]) = board_after (mInstID (b ! k)) f b"
  unfolding board_after_def by (simp only: list_update_map [OF assms])

lemma alive_filter: "alive p \<Longrightarrow> filter (\<lambda>m. 0 < mHP m) (pBoard p) = pBoard p"
  by (simp add: alive_def filter_id_conv)

lemma attack_on_minion:
  assumes wf: "wf_state s" and i: "i < 2"
    and m: "m \<in> set (pBoard (player s i))" "mCanAttack m" "0 < mAtk m"
    and d: "d \<in> set (pBoard (player s (1 - i)))"
  defines "t \<equiv> fst (attack s i (attackOn m (mInstID d)))"
  shows "snd (attack s i (attackOn m (mInstID d))) = None"
    and "pBoard (player t i) = board_after (mInstID m) (tire \<circ> hurt (mAtk d)) (pBoard (player s i))"
    and "pBoard (player t (1 - i)) = board_after (mInstID d) (hurt (mAtk m)) (pBoard (player s (1 - i)))"
    and "pHP (player t i) = pHP (player s i)" "pHP (player t (1 - i)) = pHP (player s (1 - i))"
proof -
  have j: "1 - i < 2" by simp
  note len = wf_stateD(1) [OF wf]
  obtain k where k: "findMinion (player s i) (mInstID m) = Some k" "pBoard (player s i) ! k = m"
    using findMinion_unique [OF board_ids_parts(1) [OF wf i] m(1)] by blast
  obtain l where l: "findMinion (player s (1 - i)) (mInstID d) = Some l" "pBoard (player s (1 - i)) ! l = d"
    using findMinion_unique [OF board_ids_parts(1) [OF wf j] d] by blast
  have kl: "k < length (pBoard (player s i))" "l < length (pBoard (player s (1 - i)))"
    using findMinion_Some [OF k(1)] findMinion_Some [OF l(1)] by simp_all
  have "mInstID d \<notin> mInstID ` set (pBoard (player s i))" "mInstID d \<noteq> ''face''"
    using board_ids_parts(2) [OF wf i] board_ids_parts(3) [OF wf j] d
    by (fastforce, metis imageI)
  then have "chooseTarget (player s i) (player s (1 - i)) (mInstID d) = Inr (Some l)"
    using l(1) by (simp add: chooseTarget_def flip: findMinion_None)
  with k m have at: "attack s i (attackOn m (mInstID d)) =
      (checkOver (removeDead (attacked_state s i k (Some l))), None)"
    by (simp add: attack_def attackOn_def attacked_state_def Let_def)
  then show "snd (attack s i (attackOn m (mInstID d))) = None" by simp
  have t: "t = checkOver (removeDead (attacked_state s i k (Some l)))" by (simp add: t_def at)
  have pi: "player (attacked_state s i k (Some l)) i = tireMinion (hitMinion (player s i) k (mAtk d)) k"
    and pj: "player (attacked_state s i k (Some l)) (1 - i) = hitMinion (player s (1 - i)) l (mAtk m)"
    using player_attacked_state [OF len i, of k "Some l"] k(2) l(2) by (simp_all add: Let_def)
  have len': "length (Players (attacked_state s i k (Some l))) = 2"
    using len by (simp add: attacked_state_def strike_def Let_def)
  have "pBoard (player (attacked_state s i k (Some l)) i) =
      (pBoard (player s i))[k := (tire \<circ> hurt (mAtk d)) (pBoard (player s i) ! k)]"
    using kl(1) by (simp add: pi tireMinion_board tire_def hurt_def)
  with board_after_update [OF board_ids_parts(1) [OF wf i] kl(1), of "tire \<circ> hurt (mAtk d)"] k(2) i len'
  show "pBoard (player t i) = board_after (mInstID m) (tire \<circ> hurt (mAtk d)) (pBoard (player s i))"
    by (simp add: t)
  have "pBoard (player (attacked_state s i k (Some l)) (1 - i)) =
      (pBoard (player s (1 - i)))[l := hurt (mAtk m) (pBoard (player s (1 - i)) ! l)]"
    unfolding pj by (simp add: hitMinion_def hurt_def)
  with board_after_update [OF board_ids_parts(1) [OF wf j] kl(2), of "hurt (mAtk m)"] l(2) len'
  show "pBoard (player t (1 - i)) = board_after (mInstID d) (hurt (mAtk m)) (pBoard (player s (1 - i)))"
    by (simp add: t)
  show "pHP (player t i) = pHP (player s i)" "pHP (player t (1 - i)) = pHP (player s (1 - i))"
    using len' i pi pj by (simp_all add: t)
qed


lemma Apply_rest:
  assumes "wf_state s" and t: "t = fst (Apply s pid a)"
    and "\<And>j. j < 2 \<Longrightarrow> 0 < pHP (player t j)"
  shows "\<not> Over t"
  using Apply_wf [OF assms(1), of pid a] assms(3) [of 0] assms(3) [of 1]
  by (simp add: wf_state_def outcome_ok_def Let_def flip: t)

lemma attack_frame:
  assumes "length (Players s) = 2" "i < 2"
  shows "Turn (fst (attack s i a)) = Turn s \<and> Round (fst (attack s i a)) = Round s \<and>
    nextInstID (fst (attack s i a)) = nextInstID s"
  using attack_cases [of s i a] assms
  by (auto simp: attacked_state_def strike_def Let_def split: option.splits)

lemma attack_on_face:
  assumes wf: "wf_state s" and i: "i < 2"
    and m: "m \<in> set (pBoard (player s i))" "mCanAttack m" "0 < mAtk m"
  defines "t \<equiv> fst (attack s i (attackOn m ''face''))"
  shows "snd (attack s i (attackOn m ''face'')) = None"
    and "player t i = (player s i)\<lparr>pBoard := board_after (mInstID m) tire (pBoard (player s i))\<rparr>"
    and "player t (1 - i) = (player s (1 - i))\<lparr>pHP := pHP (player s (1 - i)) - mAtk m\<rparr>"
proof -
  have j: "1 - i < 2" by simp
  note len = wf_stateD(1) [OF wf]
  obtain k where k: "findMinion (player s i) (mInstID m) = Some k" "pBoard (player s i) ! k = m"
    using findMinion_unique [OF board_ids_parts(1) [OF wf i] m(1)] by blast
  have kl: "k < length (pBoard (player s i))" using findMinion_Some [OF k(1)] by simp
  have at: "attack s i (attackOn m ''face'') =
      (checkOver (removeDead (attacked_state s i k None)), None)"
    using k m by (simp add: attack_def attackOn_def attacked_state_def Let_def chooseTarget_def)
  then show "snd (attack s i (attackOn m ''face'')) = None" by simp
  have t: "t = checkOver (removeDead (attacked_state s i k None))" by (simp add: t_def at)
  have pi: "player (attacked_state s i k None) i = tireMinion (player s i) k"
    and pj: "player (attacked_state s i k None) (1 - i) =
      (player s (1 - i))\<lparr>pHP := pHP (player s (1 - i)) - mAtk m\<rparr>"
    using player_attacked_state [OF len i, of k None] k(2) by (simp_all add: Let_def)
  have len': "length (Players (attacked_state s i k None)) = 2"
    using len by (simp add: attacked_state_def strike_def Let_def)
  have "filter (\<lambda>m. 0 < mHP m) (pBoard (tireMinion (player s i) k)) =
      board_after (mInstID m) tire (pBoard (player s i))"
    using board_after_update [OF board_ids_parts(1) [OF wf i] kl, of tire] k(2)
    by (simp add: tireMinion_def tire_def)
  then show "player t i = (player s i)\<lparr>pBoard := board_after (mInstID m) tire (pBoard (player s i))\<rparr>"
    using len' i by (simp add: t pi tireMinion_def)
  show "player t (1 - i) = (player s (1 - i))\<lparr>pHP := pHP (player s (1 - i)) - mAtk m\<rparr>"
    using len' alive_filter [OF wf_stateD(9) [OF wf j]] pj by (simp add: t)
qed


section \<open>Properties of single actions\<close>

lemma fight_wf: "wf_state sample_fight"
  using sample_fight_invar by (simp add: invar_game_def)

lemma fight_current:
  "\<not> Over sample_fight" "Turn sample_fight = 0" "pID (player sample_fight 0) = ''alice''"
  "pBoard (player sample_fight 0) = [a_slime]" "pBoard (player sample_fight (Suc 0)) = [b_slime]"
  "player sample_fight (Suc 0) = fight_b"
  by (simp_all add: sample_fight_def sample_state_def player_def fight_a_def fight_b_def)

text \<open>
  C12. When the current player's minion \<open>m\<close> attacks an enemy minion \<open>d\<close>, the attack is
  accepted, both are hurt by the other's attack value, \<open>m\<close> cannot attack again this turn,
  the dead leave the boards in order, and nothing else on either board, no life total
  and neither the turn nor the round changes; the game goes on.
\<close>
theorem attack_trades_damage:
  assumes wf: "wf_state s" and run: "\<not> Over s" and i: "i = Turn s"
    and m: "m \<in> set (pBoard (player s i))" "mCanAttack m" "0 < mAtk m"
    and d: "d \<in> set (pBoard (player s (1 - i)))"
    and t: "Apply s (pID (player s i)) (attackOn m (mInstID d)) = (t, e)"
  shows "e = None \<and> \<not> Over t \<and> Turn t = Turn s \<and> Round t = Round s \<and>
    pBoard (player t i) = board_after (mInstID m) (tire \<circ> hurt (mAtk d)) (pBoard (player s i)) \<and>
    pBoard (player t (1 - i)) = board_after (mInstID d) (hurt (mAtk m)) (pBoard (player s (1 - i))) \<and>
    pHP (player t i) = pHP (player s i) \<and> pHP (player t (1 - i)) = pHP (player s (1 - i))"
proof -
  have i2: "i < 2" using wf_stateD(2) [OF wf] i by simp
  have at: "Apply s (pID (player s i)) (attackOn m (mInstID d)) = attack s i (attackOn m (mInstID d))"
    by (rule Apply_current(2) [OF wf run i]) (simp add: attackOn_def)
  note a = attack_on_minion [OF wf i2 m d]
  have te: "t = fst (attack s i (attackOn m (mInstID d)))" "e = snd (attack s i (attackOn m (mInstID d)))"
    using t unfolding at by simp_all
  have "0 < pHP (player t j)" if "j < 2" for j
    using two_cases [OF i2 that] a(4,5) outcome_hp [OF wf_stateD(4) [OF wf] run that]
    by (auto simp: te)
  then have "\<not> Over t" using Apply_rest [OF wf, of t "pID (player s i)" "attackOn m (mInstID d)"]
    by (simp add: at te)
  with a attack_frame [OF wf_stateD(1) [OF wf] i2] show ?thesis by (simp add: te)
qed

theorem attack_trades_damage_witness:
  "snd (Apply sample_fight ''alice'' (attackOn a_slime (mInstID b_slime))) = None \<and>
    \<not> Over (fst (Apply sample_fight ''alice'' (attackOn a_slime (mInstID b_slime))))"
  using attack_trades_damage [OF fight_wf fight_current(1) fight_current(2) [symmetric],
      of a_slime b_slime] fight_current
  by (simp add: a_slime_def prod_eq_iff)

text \<open>
  C13. When the current player's minion attacks the face, the opponent loses exactly its
  attack value in life, the minion is tired and nothing else changes on the two sides;
  the game is over exactly when the opponent has no life left, and then the attacker
  has won.
\<close>
theorem attack_face_damage:
  assumes wf: "wf_state s" and run: "\<not> Over s" and i: "i = Turn s"
    and m: "m \<in> set (pBoard (player s i))" "mCanAttack m" "0 < mAtk m"
    and t: "Apply s (pID (player s i)) (attackOn m ''face'') = (t, e)"
  shows "e = None \<and> Turn t = Turn s \<and> Round t = Round s \<and>
    player t i = (player s i)\<lparr>pBoard := board_after (mInstID m) tire (pBoard (player s i))\<rparr> \<and>
    player t (1 - i) = (player s (1 - i))\<lparr>pHP := pHP (player s (1 - i)) - mAtk m\<rparr> \<and>
    (Over t \<longleftrightarrow> pHP (player s (1 - i)) \<le> mAtk m) \<and>
    Winner t = (if Over t then pID (player s i) else [])"
proof -
  have i2: "i < 2" using wf_stateD(2) [OF wf] i by simp
  have at: "Apply s (pID (player s i)) (attackOn m ''face'') = attack s i (attackOn m ''face'')"
    by (rule Apply_current(2) [OF wf run i]) (simp add: attackOn_def)
  note a = attack_on_face [OF wf i2 m]
  have te: "t = fst (attack s i (attackOn m ''face''))" "e = snd (attack s i (attackOn m ''face''))"
    using t unfolding at by simp_all
  have hp: "0 < pHP (player s i)" by (rule outcome_hp [OF wf_stateD(4) [OF wf] run i2])
  have out: "outcome_ok t"
    using wf_stateD(4) [OF Apply_wf [OF wf, of "pID (player s i)" "attackOn m ''face''"]]
    by (simp add: at te)
  have "(Over t \<longleftrightarrow> pHP (player s (1 - i)) \<le> mAtk m) \<and>
      Winner t = (if Over t then pID (player s i) else [])"
  proof (cases "i = 0")
    case True
    then show ?thesis using out hp a(2,3) by (auto simp: outcome_ok_def Let_def te)
  next
    case False
    with i2 have "i = Suc 0" by simp
    then show ?thesis using out hp a(2,3) by (auto simp: outcome_ok_def Let_def te)
  qed
  with a attack_frame [OF wf_stateD(1) [OF wf] i2] show ?thesis by (simp add: te)
qed

theorem attack_face_damage_witness:
  "pHP (player (fst (Apply sample_fight ''alice'' (attackOn a_slime ''face''))) 1) = 19"
  using attack_face_damage [OF fight_wf fight_current(1) fight_current(2) [symmetric],
      of a_slime] fight_current
  by (simp add: a_slime_def prod_eq_iff fight_b_def)

text \<open>
  C14. Ending the turn is always possible for the current player and hands over: the other
  player gets one more mana crystal (ten at most), full mana, the top card of the deck,
  and every minion ready; with an empty deck fatigue grows by one and takes that much
  life, which may end the game in favour of the player who ended the turn. The player
  who ended the turn is untouched.
\<close>
theorem end_turn_hands_over:
  assumes wf: "wf_state s" and run: "\<not> Over s" and i: "i = Turn s" and a: "aType a = ''end_turn''"
    and t: "Apply s (pID (player s i)) a = (t, e)"
  shows "e = None \<and> Turn t = 1 - i \<and> Round t = Round s + 1 \<and> player t i = player s i \<and>
    (let p = player s (1 - i); q = player t (1 - i) in
       pMaxMana q = min MaxMana (pMaxMana p + 1) \<and> pMana q = pMaxMana q \<and>
       pBoard q = map (\<lambda>m. m\<lparr>mCanAttack := True\<rparr>) (pBoard p) \<and>
       (case pDeck p of
          c # rest \<Rightarrow> pDeck q = rest \<and> pHand q = pHand p @ [c] \<and> pHP q = pHP p \<and>
            pFatigue q = pFatigue p \<and> \<not> Over t
        | [] \<Rightarrow> pDeck q = [] \<and> pHand q = pHand p \<and> pFatigue q = pFatigue p + 1 \<and>
            pHP q = pHP p - pFatigue q \<and> (Over t \<longleftrightarrow> pHP q \<le> 0) \<and>
            Winner t = (if Over t then pID (player s i) else [])))"
proof -
  have i2: "i < 2" using wf_stateD(2) [OF wf] i by simp
  note len = wf_stateD(1) [OF wf]
  have at: "Apply s (pID (player s i)) a = endTurn s i" by (rule Apply_current(3) [OF wf run i a])
  have te: "t = beginTurn (s\<lparr>Turn := 1 - i, Round := Round s + 1\<rparr>) (1 - i)" "e = None"
    using t unfolding at endTurn_eq by simp_all
  have ne: "i \<noteq> Suc 0 - i" using other_neq [OF i2] by simp
  have pl: "player t i = player s i" "player t (Suc 0 - i) = begun (player s (Suc 0 - i))"
    using len ne by (simp_all add: te)
  have mm: "pMaxMana (player s (Suc 0 - i)) \<le> MaxMana"
    using wf_stateD(8) [OF wf, of "Suc 0 - i"] by (simp add: player_ok_def)
  have out: "outcome_ok t"
    using wf_stateD(4) [OF Apply_wf [OF wf, of "pID (player s i)" a]] t by simp
  have "(Over t \<longleftrightarrow> pHP (player t (Suc 0 - i)) \<le> 0) \<and> Winner t = (if Over t then pID (player s i) else [])"
  proof (cases "i = 0")
    case True
    then show ?thesis
      using out outcome_hp [OF wf_stateD(4) [OF wf] run i2] pl by (auto simp: outcome_ok_def Let_def)
  next
    case False
    with i2 have "i = Suc 0" by simp
    then show ?thesis
      using out outcome_hp [OF wf_stateD(4) [OF wf] run i2] pl by (auto simp: outcome_ok_def Let_def)
  qed
  moreover have "0 < pHP (player s (Suc 0 - i))"
    by (rule outcome_hp [OF wf_stateD(4) [OF wf] run]) simp
  ultimately show ?thesis
    using len mm pl by (cases "pDeck (player s (Suc 0 - i))") (simp_all add: te Let_def min_def)
qed

theorem end_turn_hands_over_witness:
  "pHand (player (fst (Apply sample_fight ''alice'' end_turn)) 1) = pHand fight_b @ [''knight'']"
  using end_turn_hands_over [OF fight_wf fight_current(1) fight_current(2) [symmetric], of end_turn]
    fight_current
  by (simp add: end_turn_def prod_eq_iff fight_b_def Let_def)

text \<open>
  C11. The current player's \<open>play_card\<close> goes through one list of checks in a fixed order
  (card in hand, card known, mana, a minion, room on the board); the first that fails is
  reported and nothing changes. When all pass, the cost is paid, one copy leaves the hand
  and a minion of the card joins the board, tired, under a fresh id; the last conjunct writes
  out the whole state, so that nothing else changes, and the game goes on.
\<close>
theorem play_card_outcome:
  assumes wf: "wf_state s" and run: "\<not> Over s" and i: "i = Turn s" and a: "aType a = ''play_card''"
    and t: "Apply s (pID (player s i)) a = (t, e)"
  shows "e = playCheck (player s i) (cat s) (aCardID a) \<and> (e \<noteq> None \<longrightarrow> t = s) \<and>
    (e = None \<longrightarrow>
      (\<exists>cd. Get (cat s) (aCardID a) = Some cd \<and>
        pMana (player t i) = pMana (player s i) - cCost cd \<and> 0 \<le> pMana (player t i) \<and>
        add_mset (aCardID a) (mset (pHand (player t i))) = mset (pHand (player s i)) \<and>
        pBoard (player t i) = pBoard (player s i) @ [newMinion cd (Suc (nextInstID s))] \<and>
        mInstID (newMinion cd (Suc (nextInstID s))) \<notin> set (board_ids s) \<and>
        player t (1 - i) = player s (1 - i) \<and> pHP (player t i) = pHP (player s i) \<and>
        Turn t = Turn s \<and> Round t = Round s \<and> \<not> Over t \<and>
        t = s\<lparr>nextInstID := Suc (nextInstID s), Players := (Players s)[i := (player s i)
          \<lparr>pBoard := pBoard (player t i), pMana := pMana (player t i), pHand := pHand (player t i)\<rparr>]\<rparr>))"
proof -
  have i2: "i < 2" using wf_stateD(2) [OF wf] i by simp
  note len = wf_stateD(1) [OF wf]
  have at: "Apply s (pID (player s i)) a = playCard s i a" by (rule Apply_current(1) [OF wf run i a])
  have i3: "i < length (Players s)" using i2 len by simp
  show ?thesis
  proof (cases "playCheck (player s i) (cat s) (aCardID a)")
    case (Some err)
    with t have "t = s" "e = Some err" unfolding at playCard_eq [OF i3] by simp_all
    with Some show ?thesis by simp
  next
    case None
    then obtain hi cd where hi: "indexOfString (pHand (player s i)) (aCardID a) = Some hi"
      and cd: "Get (cat s) (aCardID a) = Some cd" and cost: "cCost cd \<le> pMana (player s i)"
      by (auto simp: playCheck_def split: option.splits if_splits)
    have te: "e = None"
      "t = setPlayer (s\<lparr>nextInstID := Suc (nextInstID s)\<rparr>) i (playedCard (player s i) hi cd (Suc (nextInstID s)))"
      using t None hi cd unfolding at playCard_eq [OF i3] by simp_all
    have hand: "add_mset (aCardID a) (mset (remove_at hi (pHand (player s i)))) = mset (pHand (player s i))"
      using mset_remove_at [of hi "pHand (player s i)"] indexOfString_Some [OF hi] by simp
    have "inst_id (Suc (nextInstID s)) \<notin> set (board_ids s)"
      using fresh_inst_id [OF wf_stateD(8) [OF wf, of 0]] fresh_inst_id [OF wf_stateD(8) [OF wf, of 1]]
      by (simp add: board_ids_def)
    moreover have "i \<noteq> Suc 0 - i" using other_neq [OF i2] by simp
    moreover have i': "pBoard (player t i) = pBoard (player s i) @ [newMinion cd (Suc (nextInstID s))]"
      "pMana (player t i) = pMana (player s i) - cCost cd" "pHand (player t i) = remove_at hi (pHand (player s i))"
      "pHP (player t i) = pHP (player s i)" "player t (Suc 0 - i) = player s (Suc 0 - i)"
      "Turn t = Turn s" "Round t = Round s" "\<not> Over t"
      using i3 run len i2 other_neq [OF i2] by (simp_all add: te playedCard_def)
    moreover have "t = s\<lparr>nextInstID := Suc (nextInstID s), Players := (Players s)[i := (player s i)
        \<lparr>pBoard := pBoard (player t i), pMana := pMana (player t i), pHand := pHand (player t i)\<rparr>]\<rparr>"
      unfolding i'(1-3) by (simp add: te(2) setPlayer_def playedCard_def)
    ultimately show ?thesis using None cd cost hand by (simp add: te(1) newMinion_def)
  qed
qed

theorem play_card_outcome_witness:
  "snd (Apply sample_fight ''alice'' (play ''wolf'')) =
     playCheck (player sample_fight 0) (cat sample_fight) ''wolf''"
  using play_card_outcome [OF fight_wf fight_current(1) fight_current(2) [symmetric], of "play ''wolf''"]
    fight_current
  by (simp add: play_def prod_eq_iff)

text \<open>
  The guards of \<open>Apply\<close> come in a fixed order: a finished game refuses everything,
  then strangers, then the player who is not on turn, then unknown kinds of action; and
  whatever the reason of a refusal, the state is unchanged.
\<close>
theorem Apply_refuses:
  assumes wf: "wf_state s"
  shows "(Over s \<longrightarrow> Apply s pid a = (s, fail CodeGameOver MsgGameOver)) \<and>
    (\<not> Over s \<and> pid \<notin> pID ` set (Players s) \<longrightarrow> Apply s pid a = (s, fail CodeNotInGame (MsgNotInGame pid))) \<and>
    (\<not> Over s \<and> pid = pID (player s (1 - Turn s)) \<longrightarrow>
      Apply s pid a = (s, fail CodeNotYourTurn (MsgTurnOf (pID (player s (Turn s)))))) \<and>
    (\<not> Over s \<and> pid = pID (player s (Turn s)) \<and> aType a \<notin> {''play_card'', ''attack'', ''end_turn''} \<longrightarrow>
      Apply s pid a = (s, fail CodeUnknownAction (MsgUnknownAction (aType a)))) \<and>
    (snd (Apply s pid a) \<noteq> None \<longrightarrow> fst (Apply s pid a) = s)"
proof -
  note ix = indexOf_unique [OF wf_stateD(7) [OF wf]]
  have t: "Turn s < 2" by (rule wf_stateD(2) [OF wf])
  then have ne: "Suc 0 - Turn s \<noteq> Turn s" by simp
  have "pid \<notin> pID ` set (Players s) \<Longrightarrow> indexOf s pid = None" by simp
  moreover have "pid = pID (player s (Suc 0 - Turn s)) \<Longrightarrow> indexOf s pid = Some (Suc 0 - Turn s)"
    using ix [of "Suc 0 - Turn s" pid] by simp
  moreover have "pid = pID (player s (Turn s)) \<Longrightarrow> indexOf s pid = Some (Turn s)"
    using ix [of "Turn s" pid] t by simp
  moreover have "fst (Apply s pid a) = s" if "snd (Apply s pid a) \<noteq> None"
    using that Apply_rejected_same [of s pid a] by (metis not_None_eq prod.collapse)
  ultimately show ?thesis using ne by (auto simp: Apply_def simp del: indexOf_None)
qed

theorem Apply_refuses_witness:
  "Apply sample_fight ''bob'' end_turn = (sample_fight, fail CodeNotYourTurn (MsgTurnOf ''alice''))"
  using Apply_refuses [OF fight_wf, of "''bob''" end_turn] fight_current by (simp add: fight_b_def)

end
