(* ===== verification/Battle_Seen.thy ===== *)
theory Battle_Seen
  imports Battle_Actions
begin

text \<open>
  Properties of the opening, of what players see, of refused attacks, of the bot and of
  the checksum.
\<close>

section \<open>Shared lemmas\<close>

text \<open>The answers a player gets to a list of own actions: the error and the new view.\<close>

fun own_trace :: "nat \<Rightarrow> State \<Rightarrow> Action list \<Rightarrow> (Err option \<times> View) list" where
  "own_trace i s [] = []"
| "own_trace i s (a # as) =
     (let r = Apply s (pID (player s i)) a
      in (snd r, ViewFor (fst r) i) # own_trace i (fst r) as)"

lemma ViewFor_looks_same: "ViewFor s i = ViewFor t i \<longleftrightarrow> looks_same i s t"
  by (auto simp: ViewFor_def looks_same_def toView_True toView_False)

lemma own_trace_same:
  assumes "looks_same i s t" "same_table s t" "i < 2" "wf_state s"
  shows "own_trace i t as = own_trace i s as"
  using assms
proof (induction as arbitrary: s t)
  case (Cons a as)
  let ?x = "Apply s (pID (player s i)) a" and ?y = "Apply t (pID (player t i)) a"
  have "pID (player t i) = pID (player s i)" by (rule same_pID [OF Cons.prems(1,3,3)])
  then have al: "alike i ?x ?y"
    using Apply_alike [OF Cons.prems(1-3) refl wf_stateD(7) [OF Cons.prems(4)]] by simp
  then have "own_trace i (fst ?y) as = own_trace i (fst ?x) as"
    using Cons.IH [OF _ _ Cons.prems(3) Apply_wf [OF Cons.prems(4)]] by (simp add: alike_def)
  with al ViewFor_looks_same [of "fst ?x" i "fst ?y"] show ?case
    by (simp add: alike_def Let_def)
qed simp

lemma player_start:
  assumes "NewState sw r (Some c) a b seed = Inr s" and "shuffle_ok sw"
  shows "\<exists>da db. mset da = mset (iCards a) \<and> mset db = mset (iCards b) \<and>
    player s 0 = begun (dealt HandStart (freshPlayer (iID a) da)) \<and>
    player s (Suc 0) = dealt HandStart (freshPlayer (iID b) db)"
proof -
  obtain da db where t: "player (table sw r c a b seed) 0 = freshPlayer (iID a) da" "mset da = mset (iCards a)"
      "player (table sw r c a b seed) (Suc 0) = freshPlayer (iID b) db" "mset db = mset (iCards b)"
    by (rule player_table [OF assms(2)])
  have "s = beginTurn (dealHands HandStart (table sw r c a b seed)) 0"
    using assms(1) by (simp add: NewState_Inr)
  with t show ?thesis by (intro exI [of _ da] exI [of _ db]) (simp add: player_dealHands)
qed

lemma checkOver_alive:
  "0 < pHP (player s 0) \<Longrightarrow> 0 < pHP (player s (Suc 0)) \<Longrightarrow> checkOver s = s"
  by (simp add: checkOver_def)

section \<open>The opening\<close>

text \<open>
  \<open>NewState\<close> makes a game exactly when there is a catalog, the two players have
  distinct non-empty names and each deck has more cards than an opening hand.
\<close>
theorem NewState_accepts_iff:
  "(\<exists>s. NewState sw r oc a b seed = Inr s) \<longleftrightarrow>
     oc \<noteq> None \<and> iID a \<noteq> [] \<and> iID b \<noteq> [] \<and> iID a \<noteq> iID b \<and>
     3 < length (iCards a) \<and> 3 < length (iCards b)"
  by (auto simp: NewState_Inr HandStart_def)

text \<open>
  The opening: each deck is a permutation of the player's cards; the first player
  holds its first four cards with one mana, the second the first three with none; twenty
  life each, empty boards, first player on turn in round one.
\<close>
theorem NewState_opening:
  assumes "NewState sw r (Some c) a b seed = Inr s" and "shuffle_ok sw"
  shows "\<exists>da db. mset da = mset (iCards a) \<and> mset db = mset (iCards b) \<and>
    Players s =
      [\<lparr>pID = iID a, pHP = 20, pMana = 1, pMaxMana = 1, pDeck = drop 4 da, pHand = take 4 da,
        pBoard = [], pFatigue = 0\<rparr>,
       \<lparr>pID = iID b, pHP = 20, pMana = 0, pMaxMana = 0, pDeck = drop 3 db, pHand = take 3 db,
        pBoard = [], pFatigue = 0\<rparr>] \<and>
    Turn s = 0 \<and> Round s = 1 \<and> \<not> Over s \<and> Winner s = [] \<and> Seed s = seed \<and>
    InitDecks s = [iCards a, iCards b] \<and> cat s = c \<and> nextInstID s = 0"
proof -
  obtain da db where d: "mset da = mset (iCards a)" "mset db = mset (iCards b)"
    "player s 0 = begun (dealt HandStart (freshPlayer (iID a) da))"
    "player s (Suc 0) = dealt HandStart (freshPlayer (iID b) db)"
    using player_start [OF assms] by blast
  let ?d = "dealHands HandStart (table sw r c a b seed)"
  have s: "s = beginTurn ?d 0" and len: "3 < length (iCards a)" "3 < length (iCards b)"
    using assms(1) by (auto simp: NewState_Inr HandStart_def)
  have l2: "length (Players s) = 2" by (simp add: s)
  obtain p q where pq: "Players s = [p, q]" by (rule length_twoE [OF l2])
  have da: "3 < length da" using len(1) mset_eq_length [OF d(1)] by simp
  then have tk: "take 3 da @ take (Suc 0) (drop 3 da) = take 4 da" "drop 3 da \<noteq> []" "tl (drop 3 da) = drop 4 da"
    by (simp_all add: take_add [of 3 1, symmetric, simplified] tl_drop flip: drop_Suc)
  have "p = player s 0" "q = player s (Suc 0)" by (simp_all add: player_def pq)
  then have "p = \<lparr>pID = iID a, pHP = 20, pMana = 1, pMaxMana = 1, pDeck = drop 4 da, pHand = take 4 da,
        pBoard = [], pFatigue = 0\<rparr>"
      "q = \<lparr>pID = iID b, pHP = 20, pMana = 0, pMaxMana = 0, pDeck = drop 3 db, pHand = take 3 db,
        pBoard = [], pFatigue = 0\<rparr>"
    using d(3,4) tk da
    by (simp_all add: dealt_def freshPlayer_def begun_def battle_consts Let_def)
  moreover have "\<not> Over s \<and> Winner s = []"
  proof -
    let ?x = "setPlayer ?d 0 (begun (player ?d 0))"
    have x: "s = checkOver ?x \<or> s = ?x" using s by (simp add: beginTurn_eq)
    then have "player ?x 0 = p" "player ?x (Suc 0) = q"
      using \<open>p = player s 0\<close> \<open>q = player s (Suc 0)\<close> by auto
    with calculation have "checkOver ?x = ?x" by (intro checkOver_alive) simp_all
    with x show ?thesis by auto
  qed
  ultimately show ?thesis using d(1,2) pq by (intro exI [of _ da] exI [of _ db]) (simp add: s)
qed


theorem NewState_opening_witness:
  "\<exists>da. mset da = mset (iCards sample_a) \<and> pHand (player sample_state 0) = take 4 da"
  using NewState_opening [OF sample_NewState sample_swaps_ok] by (auto simp: player_def)

text \<open>
  The in-place compaction of \<open>removeDead\<close> (a read and a write index over the same
  slice) leaves on each board exactly the minions with life left, in their order, and
  touches nothing else.
\<close>
theorem removeDead_filters:
  "removeDead s =
     s\<lparr>Players := map (\<lambda>p. p\<lparr>pBoard := filter (\<lambda>m. 0 < mHP m) (pBoard p)\<rparr>) (Players s)\<rparr>"
  by (simp add: removeDead_def)

section \<open>What players see\<close>

text \<open>
  The view of player \<open>i\<close> reveals exactly the public facts and the own hand: two
  states give the same view if and only if they agree on everything except the order of
  the two decks and the contents of the opponent's hand (of which only the sizes show).
\<close>
theorem ViewFor_reveals:
  "ViewFor s i = ViewFor t i \<longleftrightarrow>
     same_side (player s i) (player t i) \<and> same_front (player s (1 - i)) (player t (1 - i)) \<and>
     (i = Turn s \<longleftrightarrow> i = Turn t) \<and> Round t = Round s \<and> Over t = Over s \<and> Winner t = Winner s"
  unfolding ViewFor_looks_same looks_same_def ..

text \<open>
  C36. Acting reveals nothing either: on two states that look the same to player \<open>i\<close> (with
  the same catalog, turn and id counter), any list of actions by \<open>i\<close> gets the same
  errors and the same views, whatever the opponent holds and however the decks are
  ordered.
\<close>
theorem own_actions_reveal_nothing:
  assumes "wf_state s" and "i < 2" and "ViewFor s i = ViewFor t i" and "same_table s t"
  shows "own_trace i t as = own_trace i s as"
  using assms own_trace_same by (simp add: ViewFor_looks_same)

text \<open>Bob's hand and deck exchanged for others of the same sizes.\<close>

definition sample_other :: State where
  "sample_other = sample_fight\<lparr>Players := [fight_a,
     fight_b\<lparr>pHand := [''dragon'', ''dragon'', ''bolt''], pDeck := rev (pDeck fight_b)\<rparr>]\<rparr>"

theorem own_actions_reveal_nothing_witness:
  "own_trace 0 sample_other [attackOn a_slime ''m2'', play ''wolf'', end_turn] =
   own_trace 0 sample_fight [attackOn a_slime ''m2'', play ''wolf'', end_turn]"
  by (rule own_actions_reveal_nothing [OF fight_wf])
    (simp_all add: ViewFor_def toView_def sample_other_def sample_fight_def same_table_def
      sample_state_def player_def fight_b_def)

section \<open>Refused attacks\<close>

text \<open>
  An attack of the current player is refused with the code of the first thing wrong:
  no such own minion; a minion that may not attack yet; one without attack power; a
  target on the own side; a target that is not on the enemy board. The state is then
  unchanged.
\<close>
theorem attack_refusals:
  assumes wf: "wf_state s" and run: "\<not> Over s" and i: "i = Turn s" and a: "aType a = ''attack''"
  shows "(aInstID a \<notin> mInstID ` set (pBoard (player s i)) \<longrightarrow>
      Apply s (pID (player s i)) a = (s, fail CodeMinionNotFound (MsgNoMinion (aInstID a)))) \<and>
    (\<forall>m \<in> set (pBoard (player s i)). mInstID m = aInstID a \<longrightarrow>
      (\<not> mCanAttack m \<longrightarrow>
        Apply s (pID (player s i)) a = (s, fail CodeCantAttack (MsgCannotAttackYet (aInstID a)))) \<and>
      (mCanAttack m \<and> mAtk m \<le> 0 \<longrightarrow>
        Apply s (pID (player s i)) a = (s, fail CodeCantAttack (MsgNoAttackPower (aInstID a)))) \<and>
      (mCanAttack m \<and> 0 < mAtk m \<and> aTarget a \<in> mInstID ` set (pBoard (player s i)) \<longrightarrow>
        Apply s (pID (player s i)) a = (s, fail CodeInvalidTarget MsgOwnSide)) \<and>
      (mCanAttack m \<and> 0 < mAtk m \<and> aTarget a \<noteq> ''face'' \<and>
        aTarget a \<notin> mInstID ` set (pBoard (player s i)) \<and>
        aTarget a \<notin> mInstID ` set (pBoard (player s (1 - i))) \<longrightarrow>
        Apply s (pID (player s i)) a = (s, fail CodeTargetNotFound (MsgNoTarget (aTarget a)))))"
proof -
  have i2: "i < 2" using wf_stateD(2) [OF wf] i by simp
  have at: "Apply s (pID (player s i)) a = attack s i a" by (rule Apply_current(2) [OF wf run i a])
  have "attack s i a = (s, fail CodeMinionNotFound (MsgNoMinion (aInstID a)))"
    if "aInstID a \<notin> mInstID ` set (pBoard (player s i))"
  proof -
    from that have "findMinion (player s i) (aInstID a) = None" by simp
    then show ?thesis by (simp add: attack_def Let_def del: findMinion_None)
  qed
  moreover have "(\<not> mCanAttack m \<longrightarrow> attack s i a = (s, fail CodeCantAttack (MsgCannotAttackYet (aInstID a)))) \<and>
      (mCanAttack m \<and> mAtk m \<le> 0 \<longrightarrow> attack s i a = (s, fail CodeCantAttack (MsgNoAttackPower (aInstID a)))) \<and>
      (mCanAttack m \<and> 0 < mAtk m \<and> aTarget a \<in> mInstID ` set (pBoard (player s i)) \<longrightarrow>
        attack s i a = (s, fail CodeInvalidTarget MsgOwnSide)) \<and>
      (mCanAttack m \<and> 0 < mAtk m \<and> aTarget a \<noteq> ''face'' \<and>
        aTarget a \<notin> mInstID ` set (pBoard (player s i)) \<and>
        aTarget a \<notin> mInstID ` set (pBoard (player s (1 - i))) \<longrightarrow>
        attack s i a = (s, fail CodeTargetNotFound (MsgNoTarget (aTarget a))))"
    if m: "m \<in> set (pBoard (player s i))" "mInstID m = aInstID a" for m
  proof -
    obtain k where k: "findMinion (player s i) (aInstID a) = Some k" "pBoard (player s i) ! k = m"
      using findMinion_unique [OF board_ids_parts(1) [OF wf i2] m(1)] m(2) by auto
    have own: "aTarget a \<noteq> ''face''" "\<exists>x. findMinion (player s i) (aTarget a) = Some x"
      if "aTarget a \<in> mInstID ` set (pBoard (player s i))"
      using that board_ids_parts(3) [OF wf i2] findMinion_None [of "player s i" "aTarget a"]
      by (metis, metis not_None_eq)
    have "attack s i a = (s, fail CodeInvalidTarget MsgOwnSide)"
      if "mCanAttack m" "0 < mAtk m" "aTarget a \<in> mInstID ` set (pBoard (player s i))"
      using own [OF that(3)] that(1,2) k by (auto simp: attack_def chooseTarget_def Let_def)
    moreover have "attack s i a = (s, fail CodeTargetNotFound (MsgNoTarget (aTarget a)))"
      if "mCanAttack m" "0 < mAtk m" "aTarget a \<noteq> ''face''"
        "aTarget a \<notin> mInstID ` set (pBoard (player s i))"
        "aTarget a \<notin> mInstID ` set (pBoard (player s (1 - i)))"
    proof -
      from that have "findMinion (player s i) (aTarget a) = None"
        "findMinion (player s (1 - i)) (aTarget a) = None" by simp_all
      with that(1-3) k show ?thesis by (simp add: attack_def chooseTarget_def Let_def del: findMinion_None)
    qed
    ultimately show ?thesis using k by (simp add: attack_def Let_def)
  qed
  ultimately show ?thesis unfolding at by blast
qed

theorem attack_refusals_witness:
  "Apply sample_fight ''alice'' (strike_at ''m1'' ''m1'') = (sample_fight, fail CodeInvalidTarget MsgOwnSide)"
  using attack_refusals [OF fight_wf fight_current(1) fight_current(2) [symmetric], of "strike_at ''m1'' ''m1''"]
    fight_current
  by (simp add: strike_at_def a_slime_def)

section \<open>The bot and the checksum\<close>

text \<open>
  The bot plays by the rules: on its turn of a running game, the action \<open>chooseAction\<close>
  picks from its view is never rejected, whatever the random draw.
\<close>
theorem bot_action_accepted:
  assumes "wf_state s" and "\<not> Over s" and "i = Turn s" and "\<And>n. 0 < n \<Longrightarrow> intn n < n"
  shows "snd (Apply s (pID (player s i)) (chooseAction (ViewFor s i) (cat s) intn)) = None"
  using assms by (rule chooseAction_legal)

theorem bot_action_accepted_witness:
  "snd (Apply sample_fight (pID (player sample_fight 0))
     (chooseAction (ViewFor sample_fight 0) (cat sample_fight) (\<lambda>n. n - 1))) = None"
  by (rule bot_action_accepted [OF fight_wf fight_current(1) fight_current(2) [symmetric]]) simp

text \<open>
  The checksum is sixteen hexadecimal digits, and two states whose texts differ in
  exactly one byte never have the same checksum.
\<close>
theorem checksum_one_byte:
  assumes "stateText q s = u @ b # v" and "stateText q t = u @ d # v"
  shows "length (Checksum q s) = 16 \<and> (Checksum q s = Checksum q t \<longleftrightarrow> b = d)"
  using Checksum_one_byte [OF assms] by simp

theorem checksum_one_byte_witness:
  "Checksum id (sample_fight\<lparr>Turn := 0\<rparr>) \<noteq> Checksum id (sample_fight\<lparr>Turn := 1\<rparr>)"
proof -
  have "show_nat 0 = [CHR ''0'']" "show_nat 1 = [CHR ''1'']"
    by (simp_all add: show_nat.simps digit_def char_of_def bit_0)
  then obtain v where "stateText id (sample_fight\<lparr>Turn := 0\<rparr>) = [] @ CHR ''0'' # v"
      "stateText id (sample_fight\<lparr>Turn := 1\<rparr>) = [] @ CHR ''1'' # v"
    by (simp add: stateText_def)
  from checksum_one_byte [OF this] show ?thesis by simp
qed

end
