(* ===== verification/Room_Model.thy ===== *)
theory Room_Model
  imports Battle_Replay Battle_View Checksum "HOL-Library.AList"
begin

text \<open>
  Package \<open>internal/room\<close>, files \<open>room.go\<close>, \<open>state.go\<close>, \<open>report.go\<close>, \<open>metrics.go\<close>: a
  room and the loop of its goroutine. Times are nanoseconds on a monotonic clock and an
  argument of what reads it. A call of \<open>Out\<close> is one element of \<open>rSent\<close>; since \<open>Out\<close> is
  foreign code, whether its \<open>n\<close>-th call panics is part of the room (\<open>rOut\<close>, \<open>None\<close> for a
  nil function), and every operation that may call it says whether it panicked.
\<close>

section \<open>Data\<close>

record Cmd =
  cmdPlayer :: string
  cmdType :: string
  cmdData :: string

record LogEntry =
  leSeq :: "64 word"
  lePlayer :: string
  leType :: string
  leData :: string
  leAuto :: bool
  leAtMs :: int
  leHash :: string

record Report =
  repRoomID :: string
  repPlayers :: "string list"
  repWinner :: string
  repReason :: string
  repSeed :: int
  repRounds :: int
  repActions :: "LogEntry list"
  repStartedAt :: "int option"
  repEndedAt :: int
  repInitDecks :: "string list list"

text \<open>What the JSON messages carry.\<close>

datatype ErrText = RuleText Msg | NotStarted | BadAction

datatype Payload =
    PState string string
  | PView View
  | PError string ErrText
  | PGameOver string
  | PCrashed string

record Room =
  rId :: string
  rPlayers :: "string list"
  rInbox :: "Cmd list"
  rCancelled :: bool
  rOut :: "(nat \<Rightarrow> bool) option"
  rSent :: "(string \<times> Payload) list"
  rGrace :: int
  rBattle :: "State option"
  rSeq :: "64 word"
  rTurnLimit :: int
  rOnFinish :: bool
  rReports :: "Report list"
  rLog :: "LogEntry list"
  rStartedAt :: "int option"

record session =
  stPlayers :: "string list"
  stJoined :: "(string \<times> bool) list"
  stOnline :: "(string \<times> bool) list"
  stOver :: bool
  stStarted :: bool

text \<open>\<open>json.Unmarshal\<close> into an empty \<open>Action\<close>, and \<open>strconv.Quote\<close> beyond ASCII.\<close>

record Env =
  decodeAction :: "string \<Rightarrow> string + Action"
  quoteRest :: "string \<Rightarrow> string"

definition defaultTurn :: int where "defaultTurn = 60 * 1000000000"
definition emptyGrace :: int where "emptyGrace = 3 * 60 * 1000000000"

definition NewRoom :: "string \<Rightarrow> string \<Rightarrow> string \<Rightarrow> (nat \<Rightarrow> bool) option \<Rightarrow> Room" where
  "NewRoom i a b out =
     \<lparr>rId = i, rPlayers = [a, b], rInbox = [], rCancelled = False, rOut = out, rSent = [],
      rGrace = emptyGrace, rBattle = None, rSeq = 0, rTurnLimit = defaultTurn,
      rOnFinish = False, rReports = [], rLog = [], rStartedAt = None\<rparr>"

definition newSession :: "string list \<Rightarrow> session" where
  "newSession ps = \<lparr>stPlayers = ps, stJoined = [], stOnline = [], stOver = False, stStarted = False\<rparr>"

definition stHas :: "session \<Rightarrow> string \<Rightarrow> bool" where
  "stHas st i \<longleftrightarrow> i = stPlayers st ! 0 \<or> i = stPlayers st ! 1"

definition countTrue :: "(string \<times> bool) list \<Rightarrow> nat" where
  "countTrue m = length (filter snd m)"

definition HasPlayer :: "Room \<Rightarrow> string \<Rightarrow> bool" where
  "HasPlayer r pid \<longleftrightarrow> pid = rPlayers r ! 0 \<or> pid = rPlayers r ! 1"

text \<open>\<open>Send\<close>: the new room, the result, and whether the drop counter goes up.\<close>

definition Send :: "Cmd \<Rightarrow> Room \<Rightarrow> Room \<times> bool \<times> bool" where
  "Send c r =
     (if rCancelled r then (r, False, False)
      else if length (rInbox r) < 64 then (r\<lparr>rInbox := rInbox r @ [c]\<rparr>, True, False)
      else (r, False, True))"

section \<open>Calls of \<open>Out\<close>\<close>

type_synonym effect = "Room \<Rightarrow> Room \<times> bool"

definition emit :: "string \<Rightarrow> Payload \<Rightarrow> effect" where
  "emit pid msg r =
     (case rOut r of
        None \<Rightarrow> (r, False)
      | Some boom \<Rightarrow> (r\<lparr>rSent := rSent r @ [(pid, msg)]\<rparr>, boom (length (rSent r))))"

text \<open>One effect for each player, as long as none panics.\<close>

fun eachPlayer :: "(string \<Rightarrow> effect) \<Rightarrow> string list \<Rightarrow> effect" where
  "eachPlayer f [] r = (r, False)"
| "eachPlayer f (p # ps) r =
     (case f p r of (r', True) \<Rightarrow> (r', True) | (r', False) \<Rightarrow> eachPlayer f ps r')"

definition broadcast :: "Payload \<Rightarrow> effect" where
  "broadcast msg r =
     (case rOut r of None \<Rightarrow> (r, False) | Some _ \<Rightarrow> eachPlayer (\<lambda>p. emit p msg) (rPlayers r) r)"

definition status :: "string \<Rightarrow> effect" where
  "status s r = broadcast (PState s (rId r)) r"

definition sendView :: "string \<Rightarrow> effect" where
  "sendView pid r =
     (case rOut r of
        None \<Rightarrow> (r, False)
      | Some _ \<Rightarrow>
          (case rBattle r of
             None \<Rightarrow> (r, False)
           | Some b \<Rightarrow>
               (case index_from (\<lambda>p. p = pid) 0 (rPlayers r) of
                  None \<Rightarrow> (r, False)
                | Some i \<Rightarrow> emit pid (PView ((ViewFor b i)\<lparr>vSeq := rSeq r\<rparr>)) r)))"

definition pushState :: effect where
  "pushState r =
     (case rOut r of
        None \<Rightarrow> (r, False)
      | Some _ \<Rightarrow>
          (case rBattle r of
             None \<Rightarrow> (r, False)
           | Some _ \<Rightarrow> eachPlayer sendView (rPlayers r) (r\<lparr>rSeq := rSeq r + 1\<rparr>)))"

definition sendErr :: "string \<Rightarrow> ErrText + Err \<Rightarrow> effect" where
  "sendErr pid err =
     (case err of
        Inl t \<Rightarrow> emit pid (PError ''internal'' t)
      | Inr e \<Rightarrow> emit pid (PError (code_string (eCode e)) (RuleText (eMsg e))))"

text \<open>\<open>notifyCrash\<close>: a second panic is swallowed.\<close>

definition notifyCrash :: "Room \<Rightarrow> Room" where
  "notifyCrash r = fst (broadcast (PCrashed (rId r)) r)"

section \<open>The log and the report\<close>

text \<open>
  \<open>time.Since\<close> in milliseconds. Before the session has started \<open>startedAt\<close> is the zero
  time, centuries back: \<open>Since\<close> then answers the largest \<open>Duration\<close>.
\<close>

definition sinceMs :: "int \<Rightarrow> int option \<Rightarrow> int" where
  "sinceMs now started =
     (case started of None \<Rightarrow> (2 ^ 63 - 1) div 1000000 | Some t \<Rightarrow> (now - t) div 1000000)"

definition recordEntry ::
  "Env \<Rightarrow> int \<Rightarrow> State \<Rightarrow> string \<Rightarrow> string \<Rightarrow> string \<Rightarrow> bool \<Rightarrow> Room \<Rightarrow> Room" where
  "recordEntry env now b pid typ data auto r =
     r\<lparr>rLog := rLog r @
        [\<lparr>leSeq = rSeq r + 1, lePlayer = pid, leType = typ, leData = data, leAuto = auto,
          leAtMs = sinceMs now (rStartedAt r), leHash = Checksum (quoteRest env) b\<rparr>]\<rparr>"

definition finish :: "int \<Rightarrow> session \<Rightarrow> string \<Rightarrow> Room \<Rightarrow> Room" where
  "finish now st reason r =
     (case rBattle r of
        None \<Rightarrow> r
      | Some b \<Rightarrow>
          if \<not> rOnFinish r \<or> \<not> stStarted st then r
          else
            (let reason' = (if Over b then ''finished'' else reason)
             in r\<lparr>rReports := rReports r @
                  [\<lparr>repRoomID = rId r, repPlayers = rPlayers r, repWinner = Winner b,
                    repReason = reason', repSeed = Seed b, repRounds = DisplayRound b,
                    repActions = rLog r, repStartedAt = rStartedAt r, repEndedAt = now,
                    repInitDecks = InitDecks b\<rparr>]\<rparr>))"

section \<open>The loop of the room\<close>

text \<open>
  The variables of \<open>Run\<close>: room, session, the deadlines of the two timers (\<open>None\<close> when
  the channel is nil) and \<open>lastTurn\<close>.
\<close>

record Loop =
  lRoom :: Room
  lSess :: session
  lGrace :: "int option"
  lTurn :: "int option"
  lLast :: int

datatype Flow = Stay | Return | Panicked

definition onRoom :: "effect \<Rightarrow> Loop \<Rightarrow> Loop \<times> Flow" where
  "onRoom f L = (case f (lRoom L) of (r, p) \<Rightarrow> (L\<lparr>lRoom := r\<rparr>, if p then Panicked else Stay))"

definition andThen :: "Loop \<times> Flow \<Rightarrow> (Loop \<Rightarrow> Loop \<times> Flow) \<Rightarrow> Loop \<times> Flow" where
  "andThen x g = (case x of (L, Stay) \<Rightarrow> g L | (L, Return) \<Rightarrow> (L, Return) | (L, Panicked) \<Rightarrow> (L, Panicked))"

definition graceOf :: "Room \<Rightarrow> int" where
  "graceOf r = (if rGrace r \<le> 0 then emptyGrace else rGrace r)"

definition turnLimitOf :: "Room \<Rightarrow> int" where
  "turnLimitOf r = (if rTurnLimit r \<le> 0 then defaultTurn else rTurnLimit r)"

definition initLoop :: "Room \<Rightarrow> Loop" where
  "initLoop r = \<lparr>lRoom = r, lSess = newSession (rPlayers r), lGrace = None, lTurn = None, lLast = -1\<rparr>"

definition startGrace :: "int \<Rightarrow> Loop \<Rightarrow> Loop" where
  "startGrace now L =
     (case lGrace L of Some _ \<Rightarrow> L | None \<Rightarrow> L\<lparr>lGrace := Some (now + graceOf (lRoom L))\<rparr>)"

definition cancelGrace :: "Loop \<Rightarrow> Loop" where
  "cancelGrace L = L\<lparr>lGrace := None\<rparr>"

definition resetTurn :: "int \<Rightarrow> Loop \<Rightarrow> Loop" where
  "resetTurn now L = L\<lparr>lTurn := Some (now + turnLimitOf (lRoom L))\<rparr>"

definition checkTurn :: "int \<Rightarrow> Loop \<Rightarrow> Loop" where
  "checkTurn now L =
     (case rBattle (lRoom L) of
        None \<Rightarrow> L
      | Some b \<Rightarrow>
          if stStarted (lSess L) \<and> \<not> Over b \<and> int (Turn b) \<noteq> lLast L
          then resetTurn now (L\<lparr>lLast := int (Turn b)\<rparr>) else L)"

definition gameOver :: "State \<Rightarrow> Loop \<Rightarrow> Loop \<times> Flow" where
  "gameOver b L =
     andThen (onRoom (broadcast (PGameOver (Winner b))) L) (\<lambda>L. (L, Return))"

subsection \<open>\<open>handle\<close>\<close>

definition handleJoin :: "int \<Rightarrow> Cmd \<Rightarrow> Loop \<Rightarrow> Loop \<times> Flow" where
  "handleJoin now cmd L =
     (let pid = cmdPlayer cmd;
          st = lSess L;
          st1 = st\<lparr>stJoined := AList.update pid True (stJoined st),
                   stOnline := AList.update pid True (stOnline st)\<rparr>;
          L1 = cancelGrace (L\<lparr>lSess := st1\<rparr>);
          both = (countTrue (stOnline st1) = 2)
      in andThen (onRoom (status (if both then ''ready'' else ''waiting'')) L1)
           (\<lambda>L. case rBattle (lRoom L) of
                  None \<Rightarrow> (L, Stay)
                | Some _ \<Rightarrow>
                    if \<not> stStarted (lSess L) \<and> both then
                      onRoom pushState
                        (L\<lparr>lSess := (lSess L)\<lparr>stStarted := True\<rparr>,
                           lRoom := (lRoom L)\<lparr>rStartedAt := Some now\<rparr>\<rparr>)
                    else if stStarted (lSess L) then onRoom (sendView pid) L
                    else (L, Stay)))"

definition handleAction :: "Env \<Rightarrow> int \<Rightarrow> Cmd \<Rightarrow> Loop \<Rightarrow> Loop \<times> Flow" where
  "handleAction env now cmd L =
     (let pid = cmdPlayer cmd in
      case rBattle (lRoom L) of
        None \<Rightarrow> onRoom (sendErr pid (Inl NotStarted)) L
      | Some b \<Rightarrow>
          (case decodeAction env (cmdData cmd) of
             Inl _ \<Rightarrow> onRoom (sendErr pid (Inl BadAction)) L
           | Inr a0 \<Rightarrow>
               (case Apply b pid (a0\<lparr>aType := cmdType cmd\<rparr>) of
                  (b', Some e) \<Rightarrow>
                    onRoom (sendErr pid (Inr e)) (L\<lparr>lRoom := (lRoom L)\<lparr>rBattle := Some b'\<rparr>\<rparr>)
                | (b', None) \<Rightarrow>
                    (let r = recordEntry env now b' pid (cmdType cmd) (cmdData cmd) False
                               ((lRoom L)\<lparr>rBattle := Some b'\<rparr>)
                     in andThen (onRoom pushState (L\<lparr>lRoom := r\<rparr>))
                          (\<lambda>L. if Over b' then gameOver b' L else (L, Stay))))))"

definition handleLeave :: "int \<Rightarrow> Cmd \<Rightarrow> Loop \<Rightarrow> Loop \<times> Flow" where
  "handleLeave now cmd L =
     (let st = (lSess L)\<lparr>stOnline := AList.update (cmdPlayer cmd) False (stOnline (lSess L))\<rparr>;
          L1 = L\<lparr>lSess := st\<rparr>
      in if countTrue (stOnline st) = 0 then (startGrace now L1, Stay)
         else onRoom (status ''waiting'') L1)"

definition handle :: "Env \<Rightarrow> int \<Rightarrow> Cmd \<Rightarrow> Loop \<Rightarrow> Loop \<times> Flow" where
  "handle env now cmd L =
     (if \<not> stHas (lSess L) (cmdPlayer cmd) then (L, Stay)
      else if cmdType cmd = ''join'' then handleJoin now cmd L
      else if cmdType cmd \<in> {''play_card'', ''end_turn'', ''attack''} then handleAction env now cmd L
      else if cmdType cmd = ''leave'' then handleLeave now cmd L
      else (L, Stay))"

subsection \<open>The cases of the select\<close>

text \<open>\<open>case cmd := <-r.inbox\<close>.\<close>

definition onCmd :: "Env \<Rightarrow> int \<Rightarrow> Cmd \<Rightarrow> Loop \<Rightarrow> Loop \<times> Flow" where
  "onCmd env now cmd L = andThen (handle env now cmd L) (\<lambda>L. (checkTurn now L, Stay))"

definition autoEndTurn :: Action where
  "autoEndTurn = \<lparr>aType = ''end_turn'', aCardID = [], aInstID = [], aTarget = []\<rparr>"

text \<open>\<open>case <-turnC\<close>. The timer is armed for a battle only, so \<open>r.Battle\<close> is not nil.\<close>

definition onTurn :: "Env \<Rightarrow> int \<Rightarrow> Loop \<Rightarrow> Loop \<times> Flow" where
  "onTurn env now L =
     (case rBattle (lRoom L) of
        None \<Rightarrow> (L\<lparr>lTurn := None\<rparr>, Panicked)
      | Some b \<Rightarrow>
          (let nowPlayer = pID (player b (Turn b));
               L0 = L\<lparr>lTurn := None\<rparr>;
               (b', e) = Apply b nowPlayer autoEndTurn;
               r0 = (lRoom L)\<lparr>rBattle := Some b'\<rparr>;
               r = (case e of Some _ \<Rightarrow> r0
                    | None \<Rightarrow> recordEntry env now b' nowPlayer ''end_turn'' [] True r0)
           in andThen (onRoom pushState (L0\<lparr>lRoom := r\<rparr>))
                (\<lambda>L. if Over b' then gameOver b' L else (checkTurn now L, Stay))))"

text \<open>The deferred calls of \<open>Run\<close>, in the order they run.\<close>

definition exitRun :: "int \<Rightarrow> string \<Rightarrow> bool \<Rightarrow> Loop \<Rightarrow> Loop" where
  "exitRun now reason panicked L =
     (let r0 = (if panicked then notifyCrash (lRoom L) else lRoom L);
          reason' = (if panicked then ''crashed'' else reason);
          r1 = finish now (lSess L) reason' r0
      in L\<lparr>lRoom := r1\<lparr>rCancelled := True\<rparr>, lGrace := None, lTurn := None\<rparr>)"

section \<open>The room as a system\<close>

text \<open>
  A room with its goroutine: the clock, whether the loop still runs, and the two
  counters of \<open>metrics.go\<close>. An event is one step of the outside (a command arrives, time
  passes, the context is cancelled) or one case of the select.
\<close>

record System =
  sLoop :: Loop
  sNow :: int
  sRunning :: bool
  sDropped :: nat
  sPanics :: nat

datatype Event = Arrive Cmd | Tick nat | Cancel | TakeCmd | GraceFires | TurnFires | SeeDone

definition settle :: "string \<Rightarrow> Loop \<times> Flow \<Rightarrow> System \<Rightarrow> System" where
  "settle reason x S =
     (case x of
        (L, Stay) \<Rightarrow> S\<lparr>sLoop := L\<rparr>
      | (L, Return) \<Rightarrow> S\<lparr>sLoop := exitRun (sNow S) reason False L, sRunning := False\<rparr>
      | (L, Panicked) \<Rightarrow>
          S\<lparr>sLoop := exitRun (sNow S) reason True L, sRunning := False, sPanics := sPanics S + 1\<rparr>)"

text \<open>\<open>None\<close>: the event cannot happen now.\<close>

fun step :: "Env \<Rightarrow> Event \<Rightarrow> System \<Rightarrow> System option" where
  "step env (Arrive c) S =
     (let (r, ok, drop) = Send c (lRoom (sLoop S))
      in Some (S\<lparr>sLoop := (sLoop S)\<lparr>lRoom := r\<rparr>,
                 sDropped := (if drop then sDropped S + 1 else sDropped S)\<rparr>))"
| "step env (Tick d) S = Some (S\<lparr>sNow := sNow S + int d\<rparr>)"
| "step env Cancel S = Some (S\<lparr>sLoop := (sLoop S)\<lparr>lRoom := (lRoom (sLoop S))\<lparr>rCancelled := True\<rparr>\<rparr>\<rparr>)"
| "step env TakeCmd S =
     (case rInbox (lRoom (sLoop S)) of
        [] \<Rightarrow> None
      | c # rest \<Rightarrow>
          if \<not> sRunning S then None
          else
            (let L = (sLoop S)\<lparr>lRoom := (lRoom (sLoop S))\<lparr>rInbox := rest\<rparr>\<rparr>
             in Some (settle ''finished'' (onCmd env (sNow S) c L) S)))"
| "step env GraceFires S =
     (case lGrace (sLoop S) of
        None \<Rightarrow> None
      | Some d \<Rightarrow>
          if sRunning S \<and> d \<le> sNow S then Some (settle ''abandoned'' (sLoop S, Return) S) else None)"
| "step env TurnFires S =
     (case lTurn (sLoop S) of
        None \<Rightarrow> None
      | Some d \<Rightarrow>
          if sRunning S \<and> d \<le> sNow S then Some (settle ''finished'' (onTurn env (sNow S) (sLoop S)) S)
          else None)"
| "step env SeeDone S =
     (if sRunning S \<and> rCancelled (lRoom (sLoop S))
      then Some (settle ''aborted'' (sLoop S, Return) S) else None)"

definition initSystem :: "int \<Rightarrow> Room \<Rightarrow> System" where
  "initSystem now r = \<lparr>sLoop = initLoop r, sNow = now, sRunning = True, sDropped = 0, sPanics = 0\<rparr>"

inductive reach :: "Env \<Rightarrow> System \<Rightarrow> System \<Rightarrow> bool" for env S0 where
  init: "reach env S0 S0"
| step: "reach env S0 S \<Longrightarrow> step env e S = Some T \<Longrightarrow> reach env S0 T"

text \<open>A run along given events, executable.\<close>

fun run :: "Env \<Rightarrow> Event list \<Rightarrow> System \<Rightarrow> System option" where
  "run env [] S = Some S"
| "run env (e # es) S = (case step env e S of None \<Rightarrow> None | Some T \<Rightarrow> run env es T)"

lemma reach_run: "reach env S0 S \<Longrightarrow> run env es S = Some T \<Longrightarrow> reach env S0 T"
  by (induction es arbitrary: S) (auto split: option.splits intro: reach.step)

end
