(* ===== verification/Room_Steps.thy ===== *)
theory Room_Steps
  imports Room_Model
begin

text \<open>
  \<open>internal/room/replay.go\<close> (\<open>Steps\<close>), and what the calls of \<open>Out\<close> leave of a room:
  only the list of messages grows, and \<open>pushState\<close> counts. The rules for \<open>andThen\<close> let the
  proofs about the loop follow its control flow.
\<close>

section \<open>Steps\<close>

datatype StepsErr = BadData nat "64 word" string

definition emptyAction :: Action where
  "emptyAction = \<lparr>aType = [], aCardID = [], aInstID = [], aTarget = []\<rparr>"

definition entryAction :: "Env \<Rightarrow> LogEntry \<Rightarrow> string + Action" where
  "entryAction env e =
     (if length (leData e) > 0 then decodeAction env (leData e) else Inr emptyAction)"

fun stepsFrom :: "Env \<Rightarrow> nat \<Rightarrow> LogEntry list \<Rightarrow> StepsErr + Step list" where
  "stepsFrom env i [] = Inr []"
| "stepsFrom env i (e # es) =
     (case entryAction env e of
        Inl err \<Rightarrow> Inl (BadData i (leSeq e) err)
      | Inr a \<Rightarrow>
          (case stepsFrom env (i + 1) es of
             Inl err \<Rightarrow> Inl err
           | Inr steps \<Rightarrow> Inr (\<lparr>sPlayer = lePlayer e, sAction = a\<lparr>aType := leType e\<rparr>\<rparr> # steps)))"

definition Steps :: "Env \<Rightarrow> LogEntry list \<Rightarrow> StepsErr + Step list" where
  "Steps env log = stepsFrom env 0 log"

lemma stepsFrom_snoc:
  "stepsFrom env i es = Inr steps \<Longrightarrow> entryAction env e = Inr a \<Longrightarrow>
     stepsFrom env i (es @ [e]) =
       Inr (steps @ [\<lparr>sPlayer = lePlayer e, sAction = a\<lparr>aType := leType e\<rparr>\<rparr>])"
  by (induction es arbitrary: i steps) (auto split: sum.splits)

lemma length_stepsFrom: "stepsFrom env i es = Inr steps \<Longrightarrow> length steps = length es"
  by (induction es arbitrary: i steps) (auto split: sum.splits)

lemma stepsFrom_nth:
  "stepsFrom env i es = Inr steps \<Longrightarrow> k < length es \<Longrightarrow>
     sPlayer (steps ! k) = lePlayer (es ! k) \<and> aType (sAction (steps ! k)) = leType (es ! k)"
proof (induction es arbitrary: i steps k)
  case (Cons e es)
  then show ?case by (cases k) (auto split: sum.splits)
qed simp

text \<open>What \<open>json.Unmarshal\<close> documents: no input is no JSON value.\<close>

definition decoder_ok :: "Env \<Rightarrow> bool" where
  "decoder_ok env \<longleftrightarrow> (\<exists>e. decodeAction env [] = Inl e)"

lemma decoder_nonempty: "decoder_ok env \<Longrightarrow> decodeAction env d = Inr a \<Longrightarrow> d \<noteq> []"
  by (auto simp: decoder_ok_def)

section \<open>Frames of the effects\<close>

lemma emit_frame:
  "\<exists>xs. fst (emit pid m r) = r\<lparr>rSent := rSent r @ xs\<rparr> \<and> (\<forall>x \<in> set xs. x = (pid, m))"
  by (cases "rOut r") (auto simp: emit_def intro: exI [of _ "[]"])

lemma eachPlayer_frame:
  assumes "\<And>p r. I r \<Longrightarrow> \<exists>xs. fst (f p r) = r\<lparr>rSent := rSent r @ xs\<rparr> \<and> (\<forall>x \<in> set xs. Q x)"
    and "\<And>r xs. I r \<Longrightarrow> I (r\<lparr>rSent := xs\<rparr>)"
  shows "I r \<Longrightarrow> \<exists>xs. fst (eachPlayer f ps r) = r\<lparr>rSent := rSent r @ xs\<rparr> \<and> (\<forall>x \<in> set xs. Q x)"
proof (induction ps arbitrary: r)
  case Nil
  then show ?case by (auto intro: exI [of _ "[]"])
next
  case (Cons p ps)
  obtain xs where xs: "fst (f p r) = r\<lparr>rSent := rSent r @ xs\<rparr>" "\<forall>x \<in> set xs. Q x"
    using assms(1) [OF Cons.prems] by blast
  obtain r' b where fp: "f p r = (r', b)" by (cases "f p r")
  show ?case
  proof (cases b)
    case True
    with xs fp show ?thesis by auto
  next
    case False
    have r': "r' = r\<lparr>rSent := rSent r @ xs\<rparr>" using xs(1) fp by simp
    have "I r'" unfolding r' by (rule assms(2) [OF Cons.prems])
    from Cons.IH [OF this] obtain ys where
      "fst (eachPlayer f ps r') = r'\<lparr>rSent := rSent r' @ ys\<rparr>" "\<forall>x \<in> set ys. Q x" by blast
    with xs(2) fp False show ?thesis
      by (intro exI [of _ "xs @ ys"]) (auto simp: r')
  qed
qed

lemma broadcast_frame:
  "\<exists>xs. fst (broadcast m r) = r\<lparr>rSent := rSent r @ xs\<rparr> \<and> (\<forall>x \<in> set xs. snd x = m)"
proof (cases "rOut r")
  case None
  then show ?thesis by (auto simp: broadcast_def intro: exI [of _ "[]"])
next
  case (Some f)
  have "\<exists>xs. fst (eachPlayer (\<lambda>p. emit p m) (rPlayers r) r) = r\<lparr>rSent := rSent r @ xs\<rparr> \<and>
      (\<forall>x \<in> set xs. snd x = m)"
    by (rule eachPlayer_frame [where I = "\<lambda>_. True"]) (use emit_frame in fastforce)+
  with Some show ?thesis by (simp add: broadcast_def)
qed

text \<open>A message that is a view of player \<open>pid\<close> on battle \<open>b\<close>.\<close>

definition view_msg :: "string list \<Rightarrow> State \<Rightarrow> 64 word \<Rightarrow> string \<times> Payload \<Rightarrow> bool" where
  "view_msg ps b n x \<longleftrightarrow>
     (\<exists>i < length ps. fst x = ps ! i \<and> snd x = PView ((ViewFor b i)\<lparr>vSeq := n\<rparr>))"

lemma sendView_frame:
  assumes "rBattle r = Some b"
  shows "\<exists>xs. fst (sendView pid r) = r\<lparr>rSent := rSent r @ xs\<rparr> \<and>
    (\<forall>x \<in> set xs. view_msg (rPlayers r) b (rSeq r) x)"
proof (cases "rOut r")
  case None
  then show ?thesis by (auto simp: sendView_def intro: exI [of _ "[]"])
next
  case (Some f)
  show ?thesis
  proof (cases "index_from (\<lambda>p. p = pid) 0 (rPlayers r)")
    case None
    with Some assms show ?thesis by (auto simp: sendView_def intro: exI [of _ "[]"])
  next
    case ix: (Some i)
    then have i: "i < length (rPlayers r)" "rPlayers r ! i = pid"
      using index_from_0_Some(1,2) [OF ix] by simp_all
    have "sendView pid r = emit pid (PView ((ViewFor b i)\<lparr>vSeq := rSeq r\<rparr>)) r"
      using Some assms ix by (simp add: sendView_def)
    with emit_frame [of pid "PView ((ViewFor b i)\<lparr>vSeq := rSeq r\<rparr>)" r] i show ?thesis
      by (fastforce simp: view_msg_def)
  qed
qed

lemma pushState_frame:
  assumes "rBattle r = Some b"
  shows "\<exists>xs. fst (pushState r) =
      r\<lparr>rSeq := (case rOut r of None \<Rightarrow> rSeq r | Some _ \<Rightarrow> rSeq r + 1), rSent := rSent r @ xs\<rparr> \<and>
    (\<forall>x \<in> set xs. \<exists>n. view_msg (rPlayers r) b n x)"
proof (cases "rOut r")
  case None
  then show ?thesis by (auto simp: pushState_def intro: exI [of _ "[]"])
next
  case (Some f)
  let ?r = "r\<lparr>rSeq := rSeq r + 1\<rparr>"
  have "\<exists>xs. fst (eachPlayer sendView (rPlayers r) ?r) = ?r\<lparr>rSent := rSent ?r @ xs\<rparr> \<and>
      (\<forall>x \<in> set xs. view_msg (rPlayers r) b (rSeq r + 1) x)"
    by (rule eachPlayer_frame [where I = "\<lambda>u. rBattle u = Some b \<and> rPlayers u = rPlayers r \<and> rSeq u = rSeq r + 1"])
      (use sendView_frame assms in fastforce)+
  with Some assms show ?thesis by (fastforce simp: pushState_def)
qed

section \<open>Rules for the control flow\<close>

definition ensures ::
  "(Loop \<Rightarrow> bool) \<Rightarrow> (Loop \<Rightarrow> bool) \<Rightarrow> (Loop \<Rightarrow> bool) \<Rightarrow> Loop \<times> Flow \<Rightarrow> bool" where
  "ensures P Q R x \<longleftrightarrow>
     (case snd x of Stay \<Rightarrow> P (fst x) | Return \<Rightarrow> Q (fst x) | Panicked \<Rightarrow> R (fst x))"

lemma ensures_simps [simp]:
  "ensures P Q R (L, Stay) \<longleftrightarrow> P L" "ensures P Q R (L, Return) \<longleftrightarrow> Q L"
  "ensures P Q R (L, Panicked) \<longleftrightarrow> R L"
  by (simp_all add: ensures_def)

lemma ensures_andThen:
  assumes "ensures P' Q R x" "\<And>L. P' L \<Longrightarrow> ensures P Q R (g L)"
  shows "ensures P Q R (andThen x g)"
  using assms by (cases x; cases "snd x") (auto simp: andThen_def)

lemma ensures_onRoom:
  assumes "P (L\<lparr>lRoom := fst (f (lRoom L))\<rparr>)" "R (L\<lparr>lRoom := fst (f (lRoom L))\<rparr>)"
  shows "ensures P Q R (onRoom f L)"
  using assms by (auto simp: onRoom_def ensures_def split: prod.split)

lemma ensures_mono:
  assumes "ensures P Q R x" "\<And>L. P L \<Longrightarrow> P' L" "\<And>L. Q L \<Longrightarrow> Q' L" "\<And>L. R L \<Longrightarrow> R' L"
  shows "ensures P' Q' R' x"
  using assms by (cases x; cases "snd x") (auto simp: ensures_def)

end
