(* ===== verification/Room_Inv.thy ===== *)
theory Room_Inv
  imports Room_Steps
begin

text \<open>
  The invariant of a room over its game: the log is a replay of the battle, with the
  checksum of every state; sequence numbers grow; each player is only ever sent the own
  view; while the loop runs the game is not over and the timer of the current turn is
  armed. \<open>safe\<close> holds at every exit of the loop, \<open>armed\<close> while it goes on.
\<close>

section \<open>What a played game keeps\<close>

lemma plays_const:
  "plays Apply s steps t \<Longrightarrow> length (Players s) = 2 \<Longrightarrow>
     InitDecks t = InitDecks s \<and> Seed t = Seed s \<and> RoomID t = RoomID s \<and> cat t = cat s \<and>
     length (Players t) = 2 \<and> (\<forall>j<2. pID (player t j) = pID (player s j))"
proof (induction steps arbitrary: s)
  case (Cons st steps)
  then obtain s' where step: "Apply s (sPlayer st) (sAction st) = (s', None)" and rest: "plays Apply s' steps t"
    by auto
  from Apply_const [OF Cons.prems(2), of "sPlayer st" "sAction st"] step
  have c: "InitDecks s' = InitDecks s" "Seed s' = Seed s" "RoomID s' = RoomID s" "cat s' = cat s"
    "length (Players s') = 2" "\<forall>j<2. pID (player s' j) = pID (player s j)" by simp_all
  from Cons.IH [OF rest c(5)] c show ?case by simp
qed simp

section \<open>The invariant\<close>

definition sent_ok :: "string \<times> Payload \<Rightarrow> bool" where
  "sent_ok x \<longleftrightarrow>
     (case snd x of PView v \<Rightarrow> vID (vMe v) = fst x \<and> vHand (vOpp v) = None | _ \<Rightarrow> True)"

definition game_part :: "Env \<Rightarrow> State \<Rightarrow> Loop \<Rightarrow> bool" where
  "game_part env s0 L \<longleftrightarrow>
     (\<exists>b steps. rBattle (lRoom L) = Some b \<and> stepsFrom env 0 (rLog (lRoom L)) = Inr steps \<and>
        plays Apply s0 steps b \<and>
        map leHash (rLog (lRoom L)) = map (Checksum (quoteRest env)) (trail Apply s0 steps)) \<and>
     rPlayers (lRoom L) = [pID (player s0 0), pID (player s0 1)] \<and>
     stPlayers (lSess L) = rPlayers (lRoom L)"

definition sess_part :: "int \<Rightarrow> Loop \<Rightarrow> bool" where
  "sess_part now L \<longleftrightarrow>
     distinct (map fst (stOnline (lSess L))) \<and>
     (lGrace L \<noteq> None \<longrightarrow> countTrue (stOnline (lSess L)) = 0) \<and>
     (case rStartedAt (lRoom L) of
        None \<Rightarrow> \<not> stStarted (lSess L) | Some t \<Rightarrow> stStarted (lSess L) \<and> t \<le> now)"

definition pushes :: "Loop \<Rightarrow> nat" where
  "pushes L = length (rLog (lRoom L)) + (if stStarted (lSess L) then 1 else 0)"

definition log_part :: "Loop \<Rightarrow> bool" where
  "log_part L \<longleftrightarrow>
     (\<exists>ns. map leSeq (rLog (lRoom L)) = map of_nat ns \<and>
        (rOut (lRoom L) \<noteq> None \<longrightarrow> sorted_wrt (<) ns \<and> (\<forall>n \<in> set ns. n \<le> pushes L))) \<and>
     (rOut (lRoom L) \<noteq> None \<longrightarrow> rSeq (lRoom L) = of_nat (pushes L)) \<and>
     (\<forall>e \<in> set (rLog (lRoom L)). 0 \<le> leAtMs e \<and>
        (if leAuto e then leType e = ''end_turn'' \<and> leData e = [] else leData e \<noteq> []))"

definition sent_part :: "Loop \<Rightarrow> bool" where
  "sent_part L \<longleftrightarrow> (\<forall>x \<in> set (rSent (lRoom L)). sent_ok x)"

definition sound :: "Env \<Rightarrow> State \<Rightarrow> int \<Rightarrow> Loop \<Rightarrow> bool" where
  "sound env s0 now L \<longleftrightarrow> game_part env s0 L \<and> sess_part now L \<and> log_part L \<and> sent_part L"

definition safe :: "Env \<Rightarrow> State \<Rightarrow> int \<Rightarrow> Loop \<Rightarrow> bool" where
  "safe env s0 now L \<longleftrightarrow> sound env s0 now L \<and> rReports (lRoom L) = []"

lemmas safe_parts = safe_def sound_def

definition over :: "Loop \<Rightarrow> bool" where
  "over L \<longleftrightarrow> (case rBattle (lRoom L) of None \<Rightarrow> False | Some b \<Rightarrow> Over b)"

text \<open>Before and after \<open>checkTurn\<close>.\<close>

definition going :: "Loop \<Rightarrow> bool" where
  "going L \<longleftrightarrow>
     \<not> over L \<and> (lTurn L \<noteq> None \<longrightarrow> stStarted (lSess L)) \<and>
     (\<not> stStarted (lSess L) \<longrightarrow> lLast L = -1) \<and>
     (\<forall>b. rBattle (lRoom L) = Some b \<and> lLast L = int (Turn b) \<longrightarrow> lTurn L \<noteq> None)"

definition armed :: "Loop \<Rightarrow> bool" where
  "armed L \<longleftrightarrow>
     going L \<and>
     (\<forall>b. rBattle (lRoom L) = Some b \<and> stStarted (lSess L) \<longrightarrow> lLast L = int (Turn b))"

section \<open>Sending\<close>

lemma game_battle:
  assumes "game_part env s0 L" "invar_game s0" "rBattle (lRoom L) = Some b"
  shows "invar_game b" "rPlayers (lRoom L) = [pID (player b 0), pID (player b 1)]"
    "InitDecks b = InitDecks s0" "Seed b = Seed s0" "RoomID b = RoomID s0" "cat b = cat s0"
proof -
  from assms(1,3) obtain steps where st: "plays Apply s0 steps b"
    and ps: "rPlayers (lRoom L) = [pID (player s0 0), pID (player s0 1)]"
    by (auto simp: game_part_def)
  have len: "length (Players s0) = 2" using assms(2) by (simp add: invar_game_def wf_stateD(1))
  note c = plays_const [OF st len]
  show "invar_game b" by (rule game_rules.plays_invar [OF assms(2) st])
  show "rPlayers (lRoom L) = [pID (player b 0), pID (player b 1)]" using ps c by simp
  show "InitDecks b = InitDecks s0" "Seed b = Seed s0" "RoomID b = RoomID s0" "cat b = cat s0"
    using c by simp_all
qed

lemma view_msg_sent_ok:
  assumes "view_msg [pID (player b 0), pID (player b 1)] b n x" shows "sent_ok x"
proof -
  from assms obtain i where i: "i < 2" "fst x = [pID (player b 0), pID (player b 1)] ! i"
    "snd x = PView ((ViewFor b i)\<lparr>vSeq := n\<rparr>)"
    unfolding view_msg_def by (auto simp: numeral_2_eq_2)
  from i(1,2) have "fst x = pID (player b i)" by (auto simp: less_two)
  with i(3) show ?thesis by (simp add: sent_ok_def ViewFor_def toView_def)
qed

definition withSent :: "(string \<times> Payload) list \<Rightarrow> Loop \<Rightarrow> Loop" where
  "withSent xs L = L\<lparr>lRoom := (lRoom L)\<lparr>rSent := rSent (lRoom L) @ xs\<rparr>\<rparr>"

lemma withSent_simps [simp]:
  "lSess (withSent xs L) = lSess L" "lGrace (withSent xs L) = lGrace L"
  "lTurn (withSent xs L) = lTurn L" "lLast (withSent xs L) = lLast L"
  "rBattle (lRoom (withSent xs L)) = rBattle (lRoom L)" "rLog (lRoom (withSent xs L)) = rLog (lRoom L)"
  "rPlayers (lRoom (withSent xs L)) = rPlayers (lRoom L)" "rOut (lRoom (withSent xs L)) = rOut (lRoom L)"
  "rSeq (lRoom (withSent xs L)) = rSeq (lRoom L)"
  "rStartedAt (lRoom (withSent xs L)) = rStartedAt (lRoom L)"
  "rReports (lRoom (withSent xs L)) = rReports (lRoom L)"
  "rSent (lRoom (withSent xs L)) = rSent (lRoom L) @ xs"
  by (simp_all add: withSent_def)

lemma parts_withSent [simp]:
  "game_part env s0 (withSent xs L) = game_part env s0 L"
  "sess_part now (withSent xs L) = sess_part now L"
  "log_part (withSent xs L) = log_part L"
  by (simp_all add: game_part_def sess_part_def log_part_def pushes_def cong: option.case_cong)

lemma safe_withSent:
  "safe env s0 now L \<Longrightarrow> \<forall>x \<in> set xs. sent_ok x \<Longrightarrow> safe env s0 now (withSent xs L)"
  by (auto simp: safe_parts sent_part_def)

lemma going_withSent [simp]: "going (withSent xs L) = going L" "over (withSent xs L) = over L"
  by (simp_all add: going_def over_def)

text \<open>An effect that only sends keeps whatever holds of the loop.\<close>

lemma ensures_send:
  assumes "safe env s0 now L"
    and "\<exists>xs. fst (f (lRoom L)) = (lRoom L)\<lparr>rSent := rSent (lRoom L) @ xs\<rparr> \<and> (\<forall>x \<in> set xs. sent_ok x)"
    and "\<And>xs. safe env s0 now (withSent xs L) \<Longrightarrow> P (withSent xs L)"
  shows "ensures P Q (safe env s0 now) (onRoom f L)"
proof -
  from assms(2) obtain xs where xs: "fst (f (lRoom L)) = (lRoom L)\<lparr>rSent := rSent (lRoom L) @ xs\<rparr>"
    "\<forall>x \<in> set xs. sent_ok x" by blast
  then have L: "L\<lparr>lRoom := fst (f (lRoom L))\<rparr> = withSent xs L" by (simp add: withSent_def)
  have "safe env s0 now (withSent xs L)" by (rule safe_withSent [OF assms(1) xs(2)])
  with assms(3) show ?thesis by (intro ensures_onRoom) (simp_all add: L)
qed

lemma broadcast_sends:
  assumes "\<And>v. m \<noteq> PView v"
  shows "\<exists>xs. fst (broadcast m r) = r\<lparr>rSent := rSent r @ xs\<rparr> \<and> (\<forall>x \<in> set xs. sent_ok x)"
proof -
  have "sent_ok x" if "snd x = m" for x
    using assms that by (cases m) (auto simp: sent_ok_def)
  with broadcast_frame [of m r] show ?thesis by blast
qed

lemma emit_sends:
  assumes "\<And>v. m \<noteq> PView v"
  shows "\<exists>xs. fst (emit p m r) = r\<lparr>rSent := rSent r @ xs\<rparr> \<and> (\<forall>x \<in> set xs. sent_ok x)"
proof -
  have "sent_ok (p, m)" using assms by (cases m) (auto simp: sent_ok_def)
  with emit_frame [of p m r] show ?thesis by fastforce
qed

lemma status_sends:
  "\<exists>xs. fst (status s r) = r\<lparr>rSent := rSent r @ xs\<rparr> \<and> (\<forall>x \<in> set xs. sent_ok x)"
  unfolding status_def by (rule broadcast_sends) simp

lemma sendErr_sends:
  "\<exists>xs. fst (sendErr p e r) = r\<lparr>rSent := rSent r @ xs\<rparr> \<and> (\<forall>x \<in> set xs. sent_ok x)"
  unfolding sendErr_def by (cases e) (auto intro!: emit_sends)

lemma sendView_sends:
  assumes "safe env s0 now L" "invar_game s0" "rBattle (lRoom L) = Some b"
  shows "\<exists>xs. fst (sendView p (lRoom L)) = (lRoom L)\<lparr>rSent := rSent (lRoom L) @ xs\<rparr> \<and>
    (\<forall>x \<in> set xs. sent_ok x)"
proof -
  have "rPlayers (lRoom L) = [pID (player b 0), pID (player b 1)]"
    using assms by (intro game_battle(2)) (auto simp: safe_parts)
  with sendView_frame [OF assms(3), of p] show ?thesis by (metis view_msg_sent_ok)
qed

end
