(* ===== verification/Room_Run.thy ===== *)
theory Room_Run
  imports Room_Inv
begin

text \<open>
  Every case of the loop keeps the invariant, and so does every event of the room as a
  system.
\<close>

section \<open>Recording and pushing\<close>

definition faithful :: "Env \<Rightarrow> string \<Rightarrow> string \<Rightarrow> bool \<Rightarrow> Action \<Rightarrow> bool" where
  "faithful env typ data auto a \<longleftrightarrow>
     (if auto then typ = ''end_turn'' \<and> data = [] \<and> a = emptyAction
      else data \<noteq> [] \<and> decodeAction env data = Inr a)"

lemma faithful_entry:
  "faithful env typ data auto a \<Longrightarrow> leData e = data \<Longrightarrow> entryAction env e = Inr a"
  by (auto simp: faithful_def entryAction_def split: if_splits)

definition recorded :: "Env \<Rightarrow> int \<Rightarrow> State \<Rightarrow> string \<Rightarrow> string \<Rightarrow> string \<Rightarrow> bool \<Rightarrow> Loop \<Rightarrow> Loop" where
  "recorded env now b' pid typ data auto L =
     L\<lparr>lRoom := recordEntry env now b' pid typ data auto ((lRoom L)\<lparr>rBattle := Some b'\<rparr>)\<rparr>"

definition bumped :: "Loop \<Rightarrow> Loop" where
  "bumped L = L\<lparr>lRoom := (lRoom L)\<lparr>rSeq := (case rOut (lRoom L) of None \<Rightarrow> rSeq (lRoom L)
                                       | Some _ \<Rightarrow> rSeq (lRoom L) + 1)\<rparr>\<rparr>"

lemma bumped_simps [simp]:
  "lSess (bumped L) = lSess L" "lGrace (bumped L) = lGrace L" "lTurn (bumped L) = lTurn L"
  "lLast (bumped L) = lLast L" "rBattle (lRoom (bumped L)) = rBattle (lRoom L)"
  "rLog (lRoom (bumped L)) = rLog (lRoom L)" "rPlayers (lRoom (bumped L)) = rPlayers (lRoom L)"
  "rOut (lRoom (bumped L)) = rOut (lRoom L)" "rSent (lRoom (bumped L)) = rSent (lRoom L)"
  "rStartedAt (lRoom (bumped L)) = rStartedAt (lRoom L)" "rReports (lRoom (bumped L)) = rReports (lRoom L)"
  "over (bumped L) = over L" "going (bumped L) = going L"
  by (simp_all add: bumped_def over_def going_def)

lemma recorded_simps [simp]:
  "lSess (recorded env now b' pid typ data auto L) = lSess L"
  "lGrace (recorded env now b' pid typ data auto L) = lGrace L"
  "lTurn (recorded env now b' pid typ data auto L) = lTurn L"
  "lLast (recorded env now b' pid typ data auto L) = lLast L"
  "rBattle (lRoom (recorded env now b' pid typ data auto L)) = Some b'"
  "rPlayers (lRoom (recorded env now b' pid typ data auto L)) = rPlayers (lRoom L)"
  "rOut (lRoom (recorded env now b' pid typ data auto L)) = rOut (lRoom L)"
  "rSent (lRoom (recorded env now b' pid typ data auto L)) = rSent (lRoom L)"
  "rSeq (lRoom (recorded env now b' pid typ data auto L)) = rSeq (lRoom L)"
  "rStartedAt (lRoom (recorded env now b' pid typ data auto L)) = rStartedAt (lRoom L)"
  "rReports (lRoom (recorded env now b' pid typ data auto L)) = rReports (lRoom L)"
  "rLog (lRoom (recorded env now b' pid typ data auto L)) = rLog (lRoom L) @
     [\<lparr>leSeq = rSeq (lRoom L) + 1, lePlayer = pid, leType = typ, leData = data, leAuto = auto,
       leAtMs = sinceMs now (rStartedAt (lRoom L)), leHash = Checksum (quoteRest env) b'\<rparr>]"
  by (simp_all add: recorded_def recordEntry_def)

lemma game_part_recorded:
  assumes "game_part env s0 L" "rBattle (lRoom L) = Some b"
    and "Apply b pid (a\<lparr>aType := typ\<rparr>) = (b', None)" and "faithful env typ data auto a"
  shows "game_part env s0 (bumped (recorded env now b' pid typ data auto L))"
proof -
  from assms(1,2) obtain steps where s: "stepsFrom env 0 (rLog (lRoom L)) = Inr steps"
    "plays Apply s0 steps b"
    "map leHash (rLog (lRoom L)) = map (Checksum (quoteRest env)) (trail Apply s0 steps)"
    by (auto simp: game_part_def)
  let ?e = "\<lparr>leSeq = rSeq (lRoom L) + 1, lePlayer = pid, leType = typ, leData = data, leAuto = auto,
       leAtMs = sinceMs now (rStartedAt (lRoom L)), leHash = Checksum (quoteRest env) b'\<rparr>"
  have "entryAction env ?e = Inr a" by (rule faithful_entry [OF assms(4)]) simp
  from stepsFrom_snoc [OF s(1) this]
  have "stepsFrom env 0 (rLog (lRoom L) @ [?e]) = Inr (steps @ [\<lparr>sPlayer = pid, sAction = a\<lparr>aType := typ\<rparr>\<rparr>])"
    by simp
  moreover have "plays Apply s0 (steps @ [\<lparr>sPlayer = pid, sAction = a\<lparr>aType := typ\<rparr>\<rparr>]) b'"
    by (rule plays_snoc [OF s(2) assms(3)])
  moreover have "trail Apply s0 (steps @ [\<lparr>sPlayer = pid, sAction = a\<lparr>aType := typ\<rparr>\<rparr>]) =
      trail Apply s0 steps @ [b']"
    using assms(3) plays_attempt [OF s(2)] by (simp add: trail_snoc)
  ultimately show ?thesis using assms(1) s(3) by (auto simp: game_part_def)
qed

lemma log_part_recorded:
  assumes "log_part L" "sess_part now L" "faithful env typ data auto a"
  shows "log_part (bumped (recorded env now b' pid typ data auto L))"
proof -
  let ?T = "bumped (recorded env now b' pid typ data auto L)"
  from assms(1) obtain ns where ns: "map leSeq (rLog (lRoom L)) = map of_nat ns"
    "rOut (lRoom L) \<noteq> None \<longrightarrow> sorted_wrt (<) ns \<and> (\<forall>n \<in> set ns. n \<le> pushes L)"
    by (auto simp: log_part_def)
  have p: "pushes ?T = Suc (pushes L)" by (simp add: pushes_def)
  obtain n where n: "rSeq (lRoom L) + 1 = of_nat n" "rOut (lRoom L) \<noteq> None \<longrightarrow> n = Suc (pushes L)"
  proof (cases "rOut (lRoom L)")
    case None
    obtain n where "rSeq (lRoom L) + 1 = of_nat n" using word_unat_eq_iff unsigned_of_nat
      by (metis word_nat_cases)
    with None show ?thesis by (intro that [of n]) simp_all
  next
    case (Some f)
    then have "rSeq (lRoom L) + 1 = of_nat (Suc (pushes L))"
      using assms(1) by (simp add: log_part_def add.commute)
    then show ?thesis by (intro that [of "Suc (pushes L)"]) simp_all
  qed
  have "0 \<le> sinceMs now (rStartedAt (lRoom L))"
    using assms(2) by (auto simp: sess_part_def sinceMs_def pos_imp_zdiv_nonneg_iff split: option.splits)
  moreover have "if auto then typ = ''end_turn'' \<and> data = [] else data \<noteq> []"
    using assms(3) by (simp add: faithful_def split: if_splits)
  moreover have "\<exists>ns. map leSeq (rLog (lRoom ?T)) = map of_nat ns \<and>
      (rOut (lRoom ?T) \<noteq> None \<longrightarrow> sorted_wrt (<) ns \<and> (\<forall>n \<in> set ns. n \<le> pushes ?T))"
    using ns n by (intro exI [of _ "ns @ [n]"]) (auto simp: p sorted_wrt_append le_SucI less_Suc_eq_le)
  moreover have "rOut (lRoom ?T) \<noteq> None \<longrightarrow> rSeq (lRoom ?T) = of_nat (pushes ?T)"
    using assms(1) unfolding p by (auto simp: log_part_def bumped_def recorded_def recordEntry_def add.commute)
  ultimately show ?thesis
    using assms(1) unfolding log_part_def by auto
qed

lemma safe_recorded:
  assumes "safe env s0 now L" "rBattle (lRoom L) = Some b"
    and "Apply b pid (a\<lparr>aType := typ\<rparr>) = (b', None)" and "faithful env typ data auto a"
  shows "safe env s0 now (bumped (recorded env now b' pid typ data auto L))"
  using assms game_part_recorded [OF _ assms(2-4)] log_part_recorded [OF _ _ assms(4)]
  by (simp add: safe_parts sess_part_def sent_part_def cong: option.case_cong)

text \<open>\<open>pushState\<close> bumps the sequence number and sends.\<close>

lemma ensures_push:
  assumes "safe env s0 now (bumped L)" "invar_game s0" "rBattle (lRoom L) = Some b"
    and "\<And>xs. safe env s0 now (withSent xs (bumped L)) \<Longrightarrow> P (withSent xs (bumped L))"
  shows "ensures P Q (safe env s0 now) (onRoom pushState L)"
proof -
  obtain xs where xs: "fst (pushState (lRoom L)) =
      (lRoom L)\<lparr>rSeq := (case rOut (lRoom L) of None \<Rightarrow> rSeq (lRoom L) | Some _ \<Rightarrow> rSeq (lRoom L) + 1),
        rSent := rSent (lRoom L) @ xs\<rparr>"
    and v: "\<forall>x \<in> set xs. \<exists>n. view_msg (rPlayers (lRoom L)) b n x"
    using pushState_frame [OF assms(3)] by blast
  have "rPlayers (lRoom L) = [pID (player b 0), pID (player b 1)]"
    using game_battle(2) [of env s0 "bumped L" b] assms(1-3) by (simp add: safe_parts)
  with v have "\<forall>x \<in> set xs. sent_ok x" by (metis view_msg_sent_ok)
  then have "safe env s0 now (withSent xs (bumped L))" by (rule safe_withSent [OF assms(1)])
  moreover have "L\<lparr>lRoom := fst (pushState (lRoom L))\<rparr> = withSent xs (bumped L)"
    by (simp add: xs withSent_def bumped_def)
  ultimately show ?thesis using assms(4) by (intro ensures_onRoom) simp_all
qed


section \<open>The cases of the loop\<close>

lemma safe_timers [simp]:
  "safe env s0 now (L\<lparr>lTurn := t\<rparr>) = safe env s0 now L"
  "safe env s0 now (L\<lparr>lLast := n\<rparr>) = safe env s0 now L"
  by (simp_all add: safe_parts game_part_def sess_part_def log_part_def pushes_def sent_part_def
      cong: option.case_cong)

definition same_loop :: "Loop \<Rightarrow> Loop \<Rightarrow> bool" where
  "same_loop L L' \<longleftrightarrow>
     lSess L' = lSess L \<and> lTurn L' = lTurn L \<and> lLast L' = lLast L"

lemma ensures_accept:
  assumes "safe env s0 now L" "invar_game s0" "rBattle (lRoom L) = Some b"
    and "Apply b pid (a\<lparr>aType := typ\<rparr>) = (b', None)" and "faithful env typ data auto a"
  shows "ensures (\<lambda>T. safe env s0 now T \<and> rBattle (lRoom T) = Some b' \<and> same_loop L T) Q
    (safe env s0 now) (onRoom pushState (recorded env now b' pid typ data auto L))"
proof (rule ensures_push [of env s0 now _ b'])
  show "safe env s0 now (bumped (recorded env now b' pid typ data auto L))"
    by (rule safe_recorded [OF assms(1,3-5)])
qed (use assms(2) in \<open>simp_all add: same_loop_def\<close>)

lemma ensures_gameOver:
  assumes "safe env s0 now L" "over L"
  shows "ensures P (\<lambda>T. safe env s0 now T \<and> over T) (safe env s0 now) (gameOver b L)"
  unfolding gameOver_def
  by (rule ensures_andThen [where P' = "\<lambda>T. safe env s0 now T \<and> over T"])
    (use assms in \<open>auto intro!: ensures_send broadcast_sends\<close>)

lemma armed_started:
  assumes "armed L" "rBattle (lRoom L) = Some b" "stStarted (lSess L)"
  shows "lTurn L \<noteq> None" "lLast L = int (Turn b)"
proof -
  show "lLast L = int (Turn b)" using assms by (simp add: armed_def)
  with assms show "lTurn L \<noteq> None" by (simp add: armed_def going_def)
qed

lemma goingD:
  assumes "going L"
  shows "\<not> over L" "lTurn L \<noteq> None \<Longrightarrow> stStarted (lSess L)"
  using assms unfolding going_def by blast+

lemma going_sent:
  assumes "armed L" "same_loop L T" "rBattle (lRoom L) = Some b" "rBattle (lRoom T) = Some b'" "\<not> Over b'"
  shows "going T"
proof (cases "stStarted (lSess L)")
  case True
  with armed_started(1) [OF assms(1,3)] assms(2,4,5) show ?thesis
    by (simp add: going_def same_loop_def over_def)
next
  case False
  with assms show ?thesis by (simp add: armed_def going_def same_loop_def over_def)
qed

lemma handleAction_ok:
  assumes safe: "safe env s0 now L" and inv: "invar_game s0" and dec: "decoder_ok env" and arm: "armed L"
  shows "ensures (\<lambda>T. safe env s0 now T \<and> going T) (\<lambda>T. safe env s0 now T \<and> over T)
    (safe env s0 now) (handleAction env now cmd L)"
proof -
  from safe obtain b where b: "rBattle (lRoom L) = Some b" by (auto simp: safe_parts game_part_def)
  have going: "going L" using arm by (simp add: armed_def)
  show ?thesis
  proof (cases "decodeAction env (cmdData cmd)")
    case (Inl e)
    with b show ?thesis
      using safe going by (auto simp: handleAction_def intro!: ensures_send sendErr_sends)
  next
    case (Inr a0)
    let ?a = "a0\<lparr>aType := cmdType cmd\<rparr>"
    obtain b' e where ap: "Apply b (cmdPlayer cmd) ?a = (b', e)" by (cases "Apply b (cmdPlayer cmd) ?a")
    show ?thesis
    proof (cases e)
      case (Some err)
      then have "b' = b" using ap Apply_rejected_same by simp
      then have "L\<lparr>lRoom := (lRoom L)\<lparr>rBattle := Some b'\<rparr>\<rparr> = L" using b by simp
      with Some ap Inr b show ?thesis
        using safe going by (auto simp: handleAction_def intro!: ensures_send sendErr_sends)
    next
      case None
      have f: "faithful env (cmdType cmd) (cmdData cmd) False a0"
        using decoder_nonempty [OF dec Inr] Inr by (simp add: faithful_def)
      have "handleAction env now cmd L =
          andThen (onRoom pushState (recorded env now b' (cmdPlayer cmd) (cmdType cmd) (cmdData cmd) False L))
            (\<lambda>L. if Over b' then gameOver b' L else (L, Stay))"
        using b Inr ap None by (simp add: handleAction_def recorded_def Let_def)
      moreover have "ensures (\<lambda>T. safe env s0 now T \<and> going T) (\<lambda>T. safe env s0 now T \<and> over T)
          (safe env s0 now) (if Over b' then gameOver b' T else (T, Stay))"
        if "safe env s0 now T \<and> rBattle (lRoom T) = Some b' \<and> same_loop L T" for T
      proof (cases "Over b'")
        case True
        with that have "over T" by (simp add: over_def)
        with that True show ?thesis by (simp add: ensures_gameOver)
      next
        case False
        with that going_sent [OF arm _ b] show ?thesis by simp
      qed
      ultimately show ?thesis
        using ap None by (auto intro!: ensures_andThen [OF ensures_accept [OF safe inv b _ f]])
    qed
  qed
qed


subsection \<open>Join and leave\<close>

lemma countTrue_update_False: "countTrue (AList.update k False m) \<le> countTrue m"
  by (induction m) (auto simp: countTrue_def)

lemma distinct_keys_update: "distinct (map fst m) \<Longrightarrow> distinct (map fst (AList.update k v m))"
  by (rule distinct_update)

lemma going_sess [simp]:
  "stStarted st = stStarted (lSess L) \<Longrightarrow> going (L\<lparr>lSess := st\<rparr>) = going L"
  "going (L\<lparr>lGrace := g\<rparr>) = going L"
  by (simp_all add: going_def over_def)

lemma armed_going: "armed L \<Longrightarrow> going L"
  by (simp add: armed_def)

lemma safe_withSess:
  assumes "safe env s0 now L" "stPlayers st = stPlayers (lSess L)" "stStarted st = stStarted (lSess L)"
    and "distinct (map fst (stOnline st))"
    and "g \<noteq> None \<longrightarrow> countTrue (stOnline st) = 0"
  shows "safe env s0 now (L\<lparr>lSess := st, lGrace := g\<rparr>)"
  using assms
  by (simp add: safe_parts game_part_def sess_part_def log_part_def pushes_def sent_part_def
      cong: option.case_cong)

definition started :: "int \<Rightarrow> Loop \<Rightarrow> Loop" where
  "started now L = L\<lparr>lSess := (lSess L)\<lparr>stStarted := True\<rparr>,
                     lRoom := (lRoom L)\<lparr>rStartedAt := Some now\<rparr>\<rparr>"

lemma started_simps [simp]:
  "lGrace (started now L) = lGrace L" "lTurn (started now L) = lTurn L" "lLast (started now L) = lLast L"
  "rBattle (lRoom (started now L)) = rBattle (lRoom L)" "rLog (lRoom (started now L)) = rLog (lRoom L)"
  "rOut (lRoom (started now L)) = rOut (lRoom L)" "rPlayers (lRoom (started now L)) = rPlayers (lRoom L)"
  "rSeq (lRoom (started now L)) = rSeq (lRoom L)" "rSent (lRoom (started now L)) = rSent (lRoom L)"
  "rReports (lRoom (started now L)) = rReports (lRoom L)"
  "rStartedAt (lRoom (started now L)) = Some now" "stStarted (lSess (started now L))"
  "stOnline (lSess (started now L)) = stOnline (lSess L)"
  "stPlayers (lSess (started now L)) = stPlayers (lSess L)"
  by (simp_all add: started_def)

lemma safe_started:
  assumes "safe env s0 now L" "\<not> stStarted (lSess L)"
  shows "safe env s0 now (bumped (started now L))"
proof -
  have p: "pushes (bumped (started now L)) = Suc (pushes L)"
    using assms(2) by (simp add: pushes_def)
  have "log_part (bumped (started now L))"
  proof -
    from assms(1) obtain ns where "map leSeq (rLog (lRoom L)) = map of_nat ns"
      "rOut (lRoom L) \<noteq> None \<longrightarrow> sorted_wrt (<) ns \<and> (\<forall>n \<in> set ns. n \<le> pushes L)"
      by (auto simp: safe_parts log_part_def)
    then have "\<exists>ns. map leSeq (rLog (lRoom L)) = map of_nat ns \<and>
        (rOut (lRoom L) \<noteq> None \<longrightarrow> sorted_wrt (<) ns \<and> (\<forall>n \<in> set ns. n \<le> Suc (pushes L)))"
      by (intro exI [of _ ns]) (auto intro: le_SucI)
    moreover have "rOut (lRoom L) \<noteq> None \<longrightarrow> rSeq (lRoom (bumped (started now L))) = of_nat (Suc (pushes L))"
      using assms(1) by (auto simp: safe_parts log_part_def bumped_def started_def add.commute)
    ultimately show ?thesis using assms(1) unfolding log_part_def p by (simp add: safe_parts log_part_def)
  qed
  with assms(1) show ?thesis
    by (simp add: safe_parts game_part_def sess_part_def sent_part_def)
qed

lemma handleJoin_ok:
  assumes safe: "safe env s0 now L" and inv: "invar_game s0" and arm: "armed L"
  shows "ensures (\<lambda>T. safe env s0 now T \<and> going T) (\<lambda>T. safe env s0 now T \<and> over T)
    (safe env s0 now) (handleJoin now cmd L)"
proof -
  let ?pid = "cmdPlayer cmd"
  let ?st = "(lSess L)\<lparr>stJoined := AList.update ?pid True (stJoined (lSess L)),
                   stOnline := AList.update ?pid True (stOnline (lSess L))\<rparr>"
  let ?L1 = "L\<lparr>lSess := ?st, lGrace := None\<rparr>"
  let ?both = "countTrue (stOnline ?st) = 2"
  let ?k = "\<lambda>T. case rBattle (lRoom T) of
                  None \<Rightarrow> (T, Stay)
                | Some _ \<Rightarrow>
                    if \<not> stStarted (lSess T) \<and> ?both then onRoom pushState (started now T)
                    else if stStarted (lSess T) then onRoom (sendView ?pid) T
                    else (T, Stay)"
  have eq: "handleJoin now cmd L =
      andThen (onRoom (status (if ?both then ''ready'' else ''waiting'')) ?L1) ?k"
    unfolding handleJoin_def cancelGrace_def Let_def started_def by (rule refl)
  have s1: "safe env s0 now ?L1"
    using safe by (intro safe_withSess) (auto simp: safe_parts sess_part_def distinct_keys_update)
  have g1: "going ?L1" using armed_going [OF arm] by simp
  have "ensures (\<lambda>T. safe env s0 now T \<and> going T) (\<lambda>T. safe env s0 now T \<and> over T)
      (safe env s0 now) (?k T)" if T: "safe env s0 now T \<and> going T" for T
  proof -
    from T obtain b where b: "rBattle (lRoom T) = Some b" by (auto simp: safe_parts game_part_def)
    consider (start) "\<not> stStarted (lSess T)" "?both" | (again) "stStarted (lSess T)"
      | (wait) "\<not> stStarted (lSess T)" "\<not> ?both" by blast
    then show ?thesis
    proof cases
      case start
      have "going (started now T)"
        using T start(1) by (simp add: going_def over_def)
      then have "ensures (\<lambda>T. safe env s0 now T \<and> going T) (\<lambda>T. safe env s0 now T \<and> over T)
          (safe env s0 now) (onRoom pushState (started now T))"
        by (intro ensures_push [of env s0 now _ b] safe_started) (use T start inv b in simp_all)
      with start b show ?thesis by simp
    next
      case again
      have "ensures (\<lambda>T. safe env s0 now T \<and> going T) (\<lambda>T. safe env s0 now T \<and> over T)
          (safe env s0 now) (onRoom (sendView ?pid) T)"
      proof (rule ensures_send)
        show "\<exists>xs. fst (sendView ?pid (lRoom T)) = (lRoom T)\<lparr>rSent := rSent (lRoom T) @ xs\<rparr> \<and>
            (\<forall>x \<in> set xs. sent_ok x)"
          by (rule sendView_sends [OF conjunct1 [OF T] inv b])
      qed (use T in simp_all)
      with again b show ?thesis by simp
    next
      case wait
      with b T show ?thesis by simp
    qed
  qed
  moreover have "ensures (\<lambda>T. safe env s0 now T \<and> going T) (\<lambda>T. safe env s0 now T \<and> over T)
      (safe env s0 now) (onRoom (status (if ?both then ''ready'' else ''waiting'')) ?L1)"
    using s1 g1 by (intro ensures_send status_sends) simp_all
  ultimately show ?thesis unfolding eq by (rule ensures_andThen [rotated])
qed

lemma handleLeave_ok:
  assumes safe: "safe env s0 now L" and arm: "armed L"
  shows "ensures (\<lambda>T. safe env s0 now T \<and> going T) (\<lambda>T. safe env s0 now T \<and> over T)
    (safe env s0 now) (handleLeave now cmd L)"
proof -
  let ?st = "(lSess L)\<lparr>stOnline := AList.update (cmdPlayer cmd) False (stOnline (lSess L))\<rparr>"
  have d: "distinct (map fst (stOnline ?st))"
    using safe by (simp add: safe_parts sess_part_def distinct_keys_update)
  have le: "countTrue (stOnline ?st) \<le> countTrue (stOnline (lSess L))"
    by (simp add: countTrue_update_False)
  have gr: "lGrace L \<noteq> None \<longrightarrow> countTrue (stOnline ?st) = 0"
    using safe le by (auto simp: safe_parts sess_part_def)
  have g: "going (L\<lparr>lSess := ?st, lGrace := x\<rparr>)" for x
    using armed_going [OF arm] by simp
  show ?thesis
  proof (cases "countTrue (stOnline ?st) = 0")
    case True
    then have eq: "handleLeave now cmd L = (startGrace now (L\<lparr>lSess := ?st\<rparr>), Stay)"
      by (simp add: handleLeave_def Let_def)
    have "\<exists>x. startGrace now (L\<lparr>lSess := ?st\<rparr>) = L\<lparr>lSess := ?st, lGrace := x\<rparr>"
    proof (cases "lGrace L")
      case (Some d)
      then show ?thesis by (intro exI [of _ "Some d"]) (cases L, simp add: startGrace_def)
    qed (auto simp: startGrace_def)
    then obtain x where x: "startGrace now (L\<lparr>lSess := ?st\<rparr>) = L\<lparr>lSess := ?st, lGrace := x\<rparr>" by blast
    have "safe env s0 now (L\<lparr>lSess := ?st, lGrace := x\<rparr>)"
      using safe d True by (intro safe_withSess) simp_all
    with g show ?thesis by (simp add: eq x)
  next
    case False
    then have eq: "handleLeave now cmd L = onRoom (status ''waiting'') (L\<lparr>lSess := ?st\<rparr>)"
      by (simp add: handleLeave_def Let_def)
    have "lGrace L = None" using gr False by blast
    then have L: "L\<lparr>lSess := ?st\<rparr> = L\<lparr>lSess := ?st, lGrace := None\<rparr>" by (cases L) simp
    have "safe env s0 now (L\<lparr>lSess := ?st, lGrace := None\<rparr>)"
      using safe d by (intro safe_withSess) simp_all
    then have "ensures (\<lambda>T. safe env s0 now T \<and> going T) (\<lambda>T. safe env s0 now T \<and> over T)
        (safe env s0 now) (onRoom (status ''waiting'') (L\<lparr>lSess := ?st, lGrace := None\<rparr>))"
      using g by (intro ensures_send status_sends) simp_all
    with arg_cong [OF L, of "onRoom (status ''waiting'')"] show ?thesis by (simp only: eq)
  qed
qed


subsection \<open>Commands and the turn timer\<close>

lemma checkTurn_eq:
  "rBattle (lRoom L) = Some b \<Longrightarrow>
     checkTurn now L =
       (if stStarted (lSess L) \<and> \<not> Over b \<and> int (Turn b) \<noteq> lLast L
        then L\<lparr>lLast := int (Turn b), lTurn := Some (now + turnLimitOf (lRoom L))\<rparr> else L)"
  by (simp add: checkTurn_def resetTurn_def)

lemma checkTurn_ok:
  assumes "safe env s0 now L" "going L"
  shows "safe env s0 now (checkTurn now L) \<and> armed (checkTurn now L)"
proof -
  from assms(1) obtain b where b: "rBattle (lRoom L) = Some b" by (auto simp: safe_parts game_part_def)
  have nover: "\<not> Over b" using assms(2) b by (simp add: going_def over_def)
  show ?thesis
  proof (cases "stStarted (lSess L) \<and> int (Turn b) \<noteq> lLast L")
    case True
    with nover have c: "checkTurn now L = L\<lparr>lLast := int (Turn b), lTurn := Some (now + turnLimitOf (lRoom L))\<rparr>"
      by (simp add: checkTurn_eq [OF b])
    show ?thesis unfolding c using True assms b by (simp add: armed_def going_def over_def)
  next
    case False
    then have c: "checkTurn now L = L" by (auto simp: checkTurn_eq [OF b])
    show ?thesis unfolding c using False assms b by (auto simp: armed_def)
  qed
qed

lemma handle_ok:
  assumes "safe env s0 now L" "invar_game s0" "decoder_ok env" "armed L"
  shows "ensures (\<lambda>T. safe env s0 now T \<and> going T) (\<lambda>T. safe env s0 now T \<and> over T)
    (safe env s0 now) (handle env now cmd L)"
  using assms handleJoin_ok [OF assms(1,2,4), of cmd] handleAction_ok [OF assms, of cmd]
    handleLeave_ok [OF assms(1,4), of cmd] armed_going [OF assms(4)]
  by (simp add: handle_def)

lemma onCmd_ok:
  assumes "safe env s0 now L" "invar_game s0" "decoder_ok env" "armed L"
  shows "ensures (\<lambda>T. safe env s0 now T \<and> armed T) (\<lambda>T. safe env s0 now T \<and> over T)
    (safe env s0 now) (onCmd env now cmd L)"
  unfolding onCmd_def
  by (rule ensures_andThen [OF handle_ok [OF assms]])
    (unfold ensures_simps, erule conjE, rule checkTurn_ok)

text \<open>The automatic end of turn is never rejected, so its log line is never reached.\<close>

lemma auto_accepted:
  assumes "invar_game b" "\<not> Over b"
  shows "\<exists>b'. Apply b (pID (player b (Turn b))) autoEndTurn = (b', None) \<and> Turn b' = 1 - Turn b"
proof -
  have wf: "wf_state b" using assms(1) by (simp add: invar_game_def)
  have "Apply b (pID (player b (Turn b))) autoEndTurn = endTurn b (Turn b)"
    by (rule Apply_current(3) [OF wf assms(2) refl]) (simp add: autoEndTurn_def)
  then show ?thesis using wf_stateD(1) [OF wf] by (simp add: endTurn_eq)
qed

lemma onTurn_ok:
  assumes safe: "safe env s0 now L" and inv: "invar_game s0" and arm: "armed L" and t: "lTurn L \<noteq> None"
  shows "ensures (\<lambda>T. safe env s0 now T \<and> armed T) (\<lambda>T. safe env s0 now T \<and> over T)
    (safe env s0 now) (onTurn env now L)"
proof -
  from safe obtain b where b: "rBattle (lRoom L) = Some b" by (auto simp: safe_parts game_part_def)
  have st: "stStarted (lSess L)" by (rule goingD(2) [OF armed_going [OF arm] t])
  have nover: "\<not> Over b" using goingD(1) [OF armed_going [OF arm]] b by (simp add: over_def)
  have last: "lLast L = int (Turn b)" by (rule armed_started(2) [OF arm b st])
  have "game_part env s0 L" using safe by (simp add: safe_parts)
  from game_battle(1) [OF this inv b] have ib: "invar_game b" .
  obtain b' where ap: "Apply b (pID (player b (Turn b))) autoEndTurn = (b', None)"
    and turn: "Turn b' = 1 - Turn b" using auto_accepted [OF ib nover] by blast
  let ?L0 = "L\<lparr>lTurn := None\<rparr>" and ?pid = "pID (player b (Turn b))"
  have eq: "onTurn env now L =
      andThen (onRoom pushState (recorded env now b' ?pid ''end_turn'' [] True ?L0))
        (\<lambda>L. if Over b' then gameOver b' L else (checkTurn now L, Stay))"
    using b ap by (simp add: onTurn_def recorded_def Let_def)
  have f: "faithful env ''end_turn'' [] True emptyAction" by (simp add: faithful_def)
  have ap': "Apply b ?pid (emptyAction\<lparr>aType := ''end_turn''\<rparr>) = (b', None)"
    using ap by (simp add: emptyAction_def autoEndTurn_def)
  have s0: "safe env s0 now ?L0" using safe by simp
  have b0: "rBattle (lRoom ?L0) = Some b" using b by simp
  have step: "ensures (\<lambda>T. safe env s0 now T \<and> armed T) (\<lambda>T. safe env s0 now T \<and> over T)
      (safe env s0 now) (if Over b' then gameOver b' T else (checkTurn now T, Stay))"
    if T: "safe env s0 now T \<and> rBattle (lRoom T) = Some b' \<and> same_loop ?L0 T" for T
  proof (cases "Over b'")
    case True
    with T have "over T" by (simp add: over_def)
    with T True show ?thesis by (simp add: ensures_gameOver)
  next
    case False
    have "Turn b < 2" using ib by (simp add: invar_game_def wf_stateD(2))
    then have "int (Turn b) \<noteq> int (1 - Turn b)" by presburger
    then have "going T" using T False last turn st by (simp add: going_def over_def same_loop_def)
    with checkTurn_ok T have "safe env s0 now (checkTurn now T) \<and> armed (checkTurn now T)" by blast
    with False show ?thesis by simp
  qed
  show ?thesis unfolding eq
    by (rule ensures_andThen [OF ensures_accept [OF s0 inv b0 ap' f] step])
qed


section \<open>The system\<close>

lemma safe_later: "safe env s0 now L \<Longrightarrow> now \<le> later \<Longrightarrow> safe env s0 later L"
  by (auto simp: safe_parts sess_part_def split: option.splits)

lemma safe_inbox [simp]:
  "safe env s0 now (L\<lparr>lRoom := (lRoom L)\<lparr>rInbox := q\<rparr>\<rparr>) = safe env s0 now L"
  "safe env s0 now (L\<lparr>lRoom := (lRoom L)\<lparr>rCancelled := c\<rparr>\<rparr>) = safe env s0 now L"
  "armed (L\<lparr>lRoom := (lRoom L)\<lparr>rInbox := q\<rparr>\<rparr>) = armed L"
  "armed (L\<lparr>lRoom := (lRoom L)\<lparr>rCancelled := c\<rparr>\<rparr>) = armed L"
  by (simp_all add: safe_parts game_part_def sess_part_def log_part_def pushes_def sent_part_def
      armed_def going_def over_def cong: option.case_cong)

text \<open>The report that fits a room whose battle is \<open>b\<close>.\<close>

definition report_fits :: "Room \<Rightarrow> State \<Rightarrow> Report \<Rightarrow> bool" where
  "report_fits r b rep \<longleftrightarrow>
     repRoomID rep = rId r \<and> repPlayers rep = rPlayers r \<and> repWinner rep = Winner b \<and>
     repSeed rep = Seed b \<and> repRounds rep = DisplayRound b \<and> repActions rep = rLog r \<and>
     repStartedAt rep = rStartedAt r \<and> repInitDecks rep = InitDecks b \<and>
     (repReason rep = ''finished'' \<longleftrightarrow> Over b) \<and>
     repReason rep \<in> {''finished'', ''abandoned'', ''aborted'', ''crashed''}"

definition report_part :: "Loop \<Rightarrow> bool" where
  "report_part L \<longleftrightarrow>
     (if rOnFinish (lRoom L) \<and> stStarted (lSess L)
      then \<exists>b rep. rBattle (lRoom L) = Some b \<and> rReports (lRoom L) = [rep] \<and> report_fits (lRoom L) b rep
      else rReports (lRoom L) = [])"

definition closed_ok :: "Env \<Rightarrow> State \<Rightarrow> int \<Rightarrow> Loop \<Rightarrow> bool" where
  "closed_ok env s0 now L \<longleftrightarrow>
     sound env s0 now L \<and> rCancelled (lRoom L) \<and> lGrace L = None \<and> lTurn L = None \<and> report_part L"

definition sys_ok :: "Env \<Rightarrow> State \<Rightarrow> System \<Rightarrow> bool" where
  "sys_ok env s0 S \<longleftrightarrow>
     (if sRunning S then safe env s0 (sNow S) (sLoop S) \<and> armed (sLoop S)
      else closed_ok env s0 (sNow S) (sLoop S))"

lemma sound_rest [simp]:
  "sound env s0 now (L\<lparr>lRoom := (lRoom L)\<lparr>rInbox := q\<rparr>\<rparr>) = sound env s0 now L"
  "sound env s0 now (L\<lparr>lRoom := (lRoom L)\<lparr>rCancelled := c\<rparr>\<rparr>) = sound env s0 now L"
  by (simp_all add: sound_def game_part_def sess_part_def log_part_def pushes_def sent_part_def
      cong: option.case_cong)

lemma report_fits_rest [simp]:
  "report_fits (r\<lparr>rInbox := q\<rparr>) b rep = report_fits r b rep"
  "report_fits (r\<lparr>rCancelled := c\<rparr>) b rep = report_fits r b rep"
  by (simp_all add: report_fits_def)

lemma report_part_rest [simp]:
  "report_part (L\<lparr>lRoom := (lRoom L)\<lparr>rInbox := q\<rparr>\<rparr>) = report_part L"
  "report_part (L\<lparr>lRoom := (lRoom L)\<lparr>rCancelled := c\<rparr>\<rparr>) = report_part L"
  by (simp_all add: report_part_def)

lemma closed_ok_inbox [simp]:
  "closed_ok env s0 now (L\<lparr>lRoom := (lRoom L)\<lparr>rInbox := q\<rparr>\<rparr>) = closed_ok env s0 now L"
  "closed_ok env s0 now L \<Longrightarrow> closed_ok env s0 now (L\<lparr>lRoom := (lRoom L)\<lparr>rCancelled := True\<rparr>\<rparr>)"
  by (simp_all add: closed_ok_def)

lemma sound_exit:
  "sound env s0 now L \<Longrightarrow>
     sound env s0 now (L\<lparr>lRoom := (lRoom L)\<lparr>rReports := x, rCancelled := c\<rparr>, lGrace := None, lTurn := t\<rparr>)"
  by (simp add: sound_def game_part_def sess_part_def log_part_def pushes_def sent_part_def
      cong: option.case_cong)

lemma finish_frame: "\<exists>x. finish now st reason r = r\<lparr>rReports := x\<rparr>"
  by (cases r) (auto simp: finish_def Let_def split: option.split)

lemma exitRun_ok:
  assumes safe: "safe env s0 now L"
    and reason: "panicked \<or> (if over L then reason = ''finished'' else reason \<in> {''abandoned'', ''aborted''})"
  shows "closed_ok env s0 now (exitRun now reason panicked L)"
proof -
  from safe obtain b where b: "rBattle (lRoom L) = Some b" by (auto simp: safe_parts game_part_def)
  let ?r = "if panicked then notifyCrash (lRoom L) else lRoom L"
  obtain xs where xs: "?r = (lRoom L)\<lparr>rSent := rSent (lRoom L) @ xs\<rparr>" "\<forall>x \<in> set xs. sent_ok x"
  proof (cases panicked)
    case True
    then show ?thesis
      using broadcast_sends [of "PCrashed (rId (lRoom L))" "lRoom L"] that
      by (auto simp: notifyCrash_def)
  next
    case False
    then show ?thesis using that [of "[]"] by simp
  qed
  have s: "safe env s0 now (withSent xs L)" by (rule safe_withSent [OF safe xs(2)])
  let ?reason = "if panicked then ''crashed'' else reason"
  let ?L' = "exitRun now reason panicked L"
  have L': "?L' = L\<lparr>lRoom := (finish now (lSess L) ?reason ?r)\<lparr>rCancelled := True\<rparr>, lGrace := None, lTurn := None\<rparr>"
    by (simp add: exitRun_def Let_def)
  obtain x where x: "finish now (lSess L) ?reason ?r = ?r\<lparr>rReports := x\<rparr>"
    using finish_frame [of now "lSess L" ?reason ?r] by blast
  have "?L' = (withSent xs L)\<lparr>lRoom := (lRoom (withSent xs L))\<lparr>rReports := x, rCancelled := True\<rparr>,
      lGrace := None, lTurn := None\<rparr>"
    unfolding L' x by (simp add: xs(1) withSent_def)
  moreover have "sound env s0 now (withSent xs L)" using s by (simp add: safe_def)
  ultimately have "sound env s0 now ?L'" by (metis sound_exit)
  moreover have "report_part ?L'"
    using safe b reason unfolding L' xs(1)
    by (auto simp: report_part_def finish_def safe_parts report_fits_def over_def Let_def)
  moreover have "rCancelled (lRoom ?L')" "lGrace ?L' = None" "lTurn ?L' = None" by (simp_all add: L')
  ultimately show ?thesis by (simp add: closed_ok_def)
qed

text \<open>Every event keeps the invariant, and a room that has begun its life satisfies it.\<close>

lemma settle_ok:
  assumes "ensures (\<lambda>T. safe env s0 (sNow S) T \<and> armed T) (\<lambda>T. safe env s0 (sNow S) T \<and> over T)
    (safe env s0 (sNow S)) x" and "sRunning S"
  shows "sys_ok env s0 (settle ''finished'' x S)"
proof -
  obtain L f where x: "x = (L, f)" by (cases x)
  show ?thesis
  proof (cases f)
    case Stay
    with x assms show ?thesis by (simp add: settle_def sys_ok_def)
  next
    case Return
    with x assms have "closed_ok env s0 (sNow S) (exitRun (sNow S) ''finished'' False L)"
      by (intro exitRun_ok) simp_all
    with x Return show ?thesis by (simp add: settle_def sys_ok_def)
  next
    case Panicked
    with x assms have "closed_ok env s0 (sNow S) (exitRun (sNow S) ''finished'' True L)"
      by (intro exitRun_ok) simp_all
    with x Panicked show ?thesis by (simp add: settle_def sys_ok_def)
  qed
qed

lemma settle_exit:
  assumes "safe env s0 (sNow S) (sLoop S)" "armed (sLoop S)" "reason \<in> {''abandoned'', ''aborted''}"
  shows "sys_ok env s0 (settle reason (sLoop S, Return) S)"
proof -
  have "\<not> over (sLoop S)" by (rule goingD(1) [OF armed_going [OF assms(2)]])
  with assms have "closed_ok env s0 (sNow S) (exitRun (sNow S) reason False (sLoop S))"
    by (intro exitRun_ok) simp_all
  then show ?thesis by (simp add: settle_def sys_ok_def)
qed

lemma Send_frame: "\<exists>q. fst (Send c r) = r\<lparr>rInbox := q\<rparr>"
  by (cases r) (auto simp: Send_def)

lemma step_ok:
  assumes ok: "sys_ok env s0 S" and inv: "invar_game s0" and dec: "decoder_ok env"
    and st: "step env e S = Some T"
  shows "sys_ok env s0 T"
proof (cases e)
  case (Arrive c)
  obtain q where q: "fst (Send c (lRoom (sLoop S))) = (lRoom (sLoop S))\<lparr>rInbox := q\<rparr>"
    using Send_frame by blast
  have "sLoop T = (sLoop S)\<lparr>lRoom := (lRoom (sLoop S))\<lparr>rInbox := q\<rparr>\<rparr>" "sNow T = sNow S"
    "sRunning T = sRunning S"
    using st Arrive q by (auto simp: Let_def split: prod.splits)
  with ok show ?thesis by (simp add: sys_ok_def)
next
  case (Tick d)
  with st have T: "T = S\<lparr>sNow := sNow S + int d\<rparr>" by simp
  have "sound env s0 (sNow S) L \<Longrightarrow> sound env s0 (sNow S + int d) L" for L
    by (auto simp: sound_def sess_part_def split: option.splits)
  with ok show ?thesis
    using safe_later [of env s0 "sNow S" "sLoop S" "sNow S + int d"]
    by (simp add: T sys_ok_def closed_ok_def split: if_splits)
next
  case Cancel
  with st ok show ?thesis by (auto simp: sys_ok_def)
next
  case TakeCmd
  with st obtain c rest where c: "rInbox (lRoom (sLoop S)) = c # rest" and run: "sRunning S"
    and T: "T = settle ''finished'' (onCmd env (sNow S) c
      ((sLoop S)\<lparr>lRoom := (lRoom (sLoop S))\<lparr>rInbox := rest\<rparr>\<rparr>)) S"
    by (auto simp: Let_def split: list.splits if_splits)
  show ?thesis unfolding T
    by (intro settle_ok onCmd_ok) (use ok run inv dec in \<open>simp_all add: sys_ok_def\<close>)
next
  case GraceFires
  with st have "sRunning S" and T: "T = settle ''abandoned'' (sLoop S, Return) S"
    by (auto split: option.splits if_splits)
  with ok show ?thesis unfolding T by (intro settle_exit) (simp_all add: sys_ok_def)
next
  case TurnFires
  with st have run: "sRunning S" and t: "lTurn (sLoop S) \<noteq> None"
    and T: "T = settle ''finished'' (onTurn env (sNow S) (sLoop S)) S"
    by (auto split: option.splits if_splits)
  show ?thesis unfolding T
    by (intro settle_ok onTurn_ok) (use ok run inv t in \<open>simp_all add: sys_ok_def\<close>)
next
  case SeeDone
  with st have "sRunning S" and T: "T = settle ''aborted'' (sLoop S, Return) S"
    by (auto split: if_splits)
  with ok show ?thesis unfolding T by (intro settle_exit) (simp_all add: sys_ok_def)
qed

definition fresh_room :: "State \<Rightarrow> Room \<Rightarrow> bool" where
  "fresh_room s0 r \<longleftrightarrow>
     (\<exists>i out g t f. r = (NewRoom i (pID (player s0 0)) (pID (player s0 1)) out)
        \<lparr>rBattle := Some s0, rOnFinish := f, rGrace := g, rTurnLimit := t\<rparr>)"

lemma init_ok:
  assumes "fresh_room s0 r" "\<not> Over s0"
  shows "sys_ok env s0 (initSystem now r)"
  using assms
  by (auto simp: fresh_room_def sys_ok_def initSystem_def initLoop_def NewRoom_def newSession_def
      safe_parts game_part_def sess_part_def log_part_def pushes_def sent_part_def armed_def going_def
      over_def)

lemma reach_ok:
  assumes "fresh_room s0 r" "\<not> Over s0" "invar_game s0" "decoder_ok env"
  shows "reach env (initSystem now r) S \<Longrightarrow> sys_ok env s0 S"
  by (induction rule: reach.induct) (use assms init_ok step_ok in blast)+

end
