(* ===== verification/Room_Sample.thy ===== *)
theory Room_Sample
  imports Room_Run Sample
begin

text \<open>
  Concrete rooms for the witnesses: the sample game in a room whose \<open>Out\<close> never panics,
  and the same room after both players have joined and one has played.
\<close>

text \<open>A decoder: the data is the card id; no data is no JSON.\<close>

definition sample_decode :: "string \<Rightarrow> string + Action" where
  "sample_decode d =
     (if d = [] then Inl ''unexpected end of JSON input''
      else Inr \<lparr>aType = [], aCardID = d, aInstID = [], aTarget = []\<rparr>)"

definition sample_env :: Env where
  "sample_env = \<lparr>decodeAction = sample_decode, quoteRest = id\<rparr>"

definition sample_room :: Room where
  "sample_room = (NewRoom ''room'' ''alice'' ''bob'' (Some (\<lambda>_. False)))
     \<lparr>rBattle := Some sample_state, rOnFinish := True\<rparr>"

definition sample_system :: System where
  "sample_system = initSystem 0 sample_room"

definition cmd :: "string \<Rightarrow> string \<Rightarrow> string \<Rightarrow> Cmd" where
  "cmd p t d = \<lparr>cmdPlayer = p, cmdType = t, cmdData = d\<rparr>"

definition sample_events :: "Event list" where
  "sample_events = [Arrive (cmd ''alice'' ''join'' []), TakeCmd, Arrive (cmd ''bob'' ''join'' []), TakeCmd,
     Tick 5000000, Arrive (cmd ''alice'' ''play_card'' ''slime''), TakeCmd]"

lemma sample_decoder: "decoder_ok sample_env"
  by (simp add: decoder_ok_def sample_env_def sample_decode_def)

lemma sample_fresh: "fresh_room sample_state sample_room"
  by (auto simp: fresh_room_def sample_room_def sample_state_def player_def sample_p0_def sample_p1_def
      NewRoom_def)

lemma sample_not_over: "\<not> Over sample_state"
  by (simp add: sample_state_def)

text \<open>The run of \<open>sample_events\<close> is possible, and both players are in at its end.\<close>

lemma sample_run:
  "\<exists>S. run sample_env sample_events sample_system = Some S \<and> sRunning S \<and>
     stStarted (lSess (sLoop S)) \<and> rBattle (lRoom (sLoop S)) = Some after_play \<and> rOnFinish (lRoom (sLoop S)) \<and>
     length (rLog (lRoom (sLoop S))) = 1 \<and> lTurn (sLoop S) = Some defaultTurn \<and> lGrace (sLoop S) = None \<and>
     rOut (lRoom (sLoop S)) = Some (\<lambda>_. False) \<and> sNow S = 5000000 \<and>
     rInbox (lRoom (sLoop S)) = [] \<and> \<not> rCancelled (lRoom (sLoop S)) \<and>
     (''bob'', PView ((ViewFor after_play 1)\<lparr>vSeq := 2\<rparr>)) \<in> set (rSent (lRoom (sLoop S)))"
proof -
  have ap: "Apply sample_state ''alice'' \<lparr>aType = ''play_card'', aCardID = ''slime'', aInstID = [], aTarget = []\<rparr> =
      (after_play, None)"
    using play_1 by (simp add: play_def)
  have st: "\<not> Over sample_state" "\<not> Over after_play" "Turn sample_state = 0" "Turn after_play = 0"
    by (simp_all add: sample_state_def after_play_def)
  show ?thesis
    by (simp add: sample_events_def sample_system_def sample_room_def NewRoom_def initSystem_def initLoop_def
        newSession_def Send_def cmd_def settle_def onCmd_def handle_def handleJoin_def handleAction_def
        stHas_def andThen_def onRoom_def status_def broadcast_def emit_def cancelGrace_def countTrue_def
        pushState_def sendView_def checkTurn_def resetTurn_def turnLimitOf_def defaultTurn_def st ap
        sample_env_def sample_decode_def recordEntry_def Let_def)
qed

definition sample_busy :: System where
  "sample_busy = (case run sample_env sample_events sample_system of Some S \<Rightarrow> S | None \<Rightarrow> sample_system)"

lemma sample_busy_reach: "reach sample_env sample_system sample_busy"
proof -
  obtain S where "run sample_env sample_events sample_system = Some S" using sample_run by blast
  then show ?thesis using reach_run [OF reach.init] by (simp add: sample_busy_def)
qed

lemma sample_busy_facts:
  "sRunning sample_busy" "stStarted (lSess (sLoop sample_busy))"
  "rBattle (lRoom (sLoop sample_busy)) = Some after_play" "rOnFinish (lRoom (sLoop sample_busy))"
  "length (rLog (lRoom (sLoop sample_busy))) = 1" "lTurn (sLoop sample_busy) = Some defaultTurn"
  "lGrace (sLoop sample_busy) = None" "rOut (lRoom (sLoop sample_busy)) = Some (\<lambda>_. False)"
  "sNow sample_busy = 5000000"
  "(''bob'', PView ((ViewFor after_play 1)\<lparr>vSeq := 2\<rparr>)) \<in> set (rSent (lRoom (sLoop sample_busy)))"
  "rInbox (lRoom (sLoop sample_busy)) = []" "\<not> rCancelled (lRoom (sLoop sample_busy))"
  using sample_run by (auto simp: sample_busy_def)

end
