(* ===== verification/Room_Refine.thy ===== *)
theory Room_Refine
  imports Room_Run
begin

text \<open>
  The room refines the rules: every event of the room is a stuttering step of its game
  or exactly one accepted action, which is then the last entry of the log. Also here:
  rooms whose \<open>Out\<close> does not panic, and what a turn that times out does.
\<close>

section \<open>One event, at most one action\<close>

text \<open>What the loop never assigns, and the context, which is never revived.\<close>

definition same_setup :: "Room \<Rightarrow> Room \<Rightarrow> bool" where
  "same_setup r r' \<longleftrightarrow>
     rId r' = rId r \<and> rPlayers r' = rPlayers r \<and> rOut r' = rOut r \<and> rGrace r' = rGrace r \<and>
     rTurnLimit r' = rTurnLimit r \<and> rOnFinish r' = rOnFinish r \<and> (rCancelled r \<longrightarrow> rCancelled r')"

definition kept :: "Loop \<Rightarrow> Loop \<Rightarrow> bool" where
  "kept L T \<longleftrightarrow>
     rBattle (lRoom T) = rBattle (lRoom L) \<and> rLog (lRoom T) = rLog (lRoom L) \<and>
     same_setup (lRoom L) (lRoom T)"

definition advanced :: "Env \<Rightarrow> Loop \<Rightarrow> Loop \<Rightarrow> bool" where
  "advanced env L T \<longleftrightarrow>
     same_setup (lRoom L) (lRoom T) \<and>
     (\<exists>b b' e a. rBattle (lRoom L) = Some b \<and> rBattle (lRoom T) = Some b' \<and>
        rLog (lRoom T) = rLog (lRoom L) @ [e] \<and> entryAction env e = Inr a \<and>
        Apply b (lePlayer e) (a\<lparr>aType := leType e\<rparr>) = (b', None))"

definition evolves :: "Env \<Rightarrow> Loop \<Rightarrow> Loop \<Rightarrow> bool" where
  "evolves env L T \<longleftrightarrow> kept L T \<or> advanced env L T"

lemma kept_refl [simp]: "kept L L"
  by (simp add: kept_def same_setup_def)

lemma evolves_kept: "evolves env L T \<Longrightarrow> kept T U \<Longrightarrow> evolves env L U"
  by (auto simp: evolves_def advanced_def kept_def same_setup_def)

lemma kept_evolves: "kept L T \<Longrightarrow> evolves env T U \<Longrightarrow> evolves env L U"
  by (auto simp: evolves_def advanced_def kept_def same_setup_def)

definition keeps :: "effect \<Rightarrow> bool" where
  "keeps f \<longleftrightarrow>
     (\<forall>r. rBattle (fst (f r)) = rBattle r \<and> rLog (fst (f r)) = rLog r \<and> same_setup r (fst (f r)))"

lemma keeps_broadcast: "keeps (broadcast m)"
proof -
  have "rBattle (fst (broadcast m r)) = rBattle r \<and> rLog (fst (broadcast m r)) = rLog r \<and> same_setup r (fst (broadcast m r))" for r
    using broadcast_frame [of m r] by (auto simp: same_setup_def)
  then show ?thesis by (simp add: keeps_def)
qed

lemma keeps_emit: "keeps (emit p m)"
proof -
  have "rBattle (fst (emit p m r)) = rBattle r \<and> rLog (fst (emit p m r)) = rLog r \<and> same_setup r (fst (emit p m r))" for r
    using emit_frame [of p m r] by (auto simp: same_setup_def)
  then show ?thesis by (simp add: keeps_def)
qed

lemma keeps_status: "keeps (status s)"
  using keeps_broadcast by (simp add: keeps_def status_def)

lemma keeps_sendErr: "keeps (sendErr p e)"
  using keeps_emit by (cases e) (simp_all add: keeps_def sendErr_def)

lemma keeps_sendView: "keeps (sendView p)"
proof -
  have "rBattle (fst (sendView p r)) = rBattle r \<and> rLog (fst (sendView p r)) = rLog r \<and> same_setup r (fst (sendView p r))" for r
  proof (cases "rBattle r")
    case None
    then show ?thesis by (simp add: sendView_def same_setup_def split: option.split)
  next
    case (Some b)
    from sendView_frame [OF this, of p] show ?thesis by (auto simp: same_setup_def)
  qed
  then show ?thesis by (simp add: keeps_def)
qed

lemma keeps_pushState: "keeps pushState"
proof -
  have "rBattle (fst (pushState r)) = rBattle r \<and> rLog (fst (pushState r)) = rLog r \<and> same_setup r (fst (pushState r))" for r
  proof (cases "rBattle r")
    case None
    then show ?thesis by (simp add: pushState_def same_setup_def split: option.split)
  next
    case (Some b)
    from pushState_frame [OF this] show ?thesis by (auto simp: same_setup_def)
  qed
  then show ?thesis by (simp add: keeps_def)
qed

lemmas keeps_effects = keeps_broadcast keeps_emit keeps_status keeps_sendErr keeps_sendView keeps_pushState

lemma ensures_keeps:
  assumes "keeps f" "evolves env L0 L"
  shows "ensures (evolves env L0) (evolves env L0) (evolves env L0) (onRoom f L)"
proof -
  have "kept L (L\<lparr>lRoom := fst (f (lRoom L))\<rparr>)" using assms(1) by (simp add: kept_def keeps_def)
  from evolves_kept [OF assms(2) this] show ?thesis by (intro ensures_onRoom)
qed

lemma ensures_keeps_then:
  assumes "keeps f" "evolves env L0 L"
    and "\<And>T. evolves env L0 T \<Longrightarrow> ensures (evolves env L0) (evolves env L0) (evolves env L0) (g T)"
  shows "ensures (evolves env L0) (evolves env L0) (evolves env L0) (andThen (onRoom f L) g)"
  by (rule ensures_andThen [OF ensures_keeps [OF assms(1,2)] assms(3)])

lemma evolves_recorded:
  assumes "rBattle (lRoom L) = Some b" "Apply b pid (a\<lparr>aType := typ\<rparr>) = (b', None)"
    and "faithful env typ data auto a"
  shows "evolves env L (recorded env now b' pid typ data auto L)"
proof -
  let ?e = "last (rLog (lRoom (recorded env now b' pid typ data auto L)))"
  have "entryAction env ?e = Inr a" by (rule faithful_entry [OF assms(3)]) simp
  moreover have same: "same_setup (lRoom L) (lRoom (recorded env now b' pid typ data auto L))"
    by (simp add: same_setup_def recorded_def recordEntry_def)
  ultimately show ?thesis
    using assms(1,2) unfolding evolves_def advanced_def
    by (intro disjI2 conjI [OF same] exI [of _ b] exI [of _ b'] exI [of _ ?e] exI [of _ a]) simp
qed

lemma gameOver_evolves:
  "evolves env L0 L \<Longrightarrow> ensures (evolves env L0) (evolves env L0) (evolves env L0) (gameOver b L)"
  unfolding gameOver_def by (rule ensures_keeps_then [OF keeps_broadcast]) simp_all

lemma checkTurn_kept: "kept L (checkTurn now L)"
  by (auto simp: kept_def same_setup_def checkTurn_def resetTurn_def split: option.split)

lemma handleAction_evolves:
  assumes "decoder_ok env"
  shows "ensures (evolves env L) (evolves env L) (evolves env L) (handleAction env now c L)"
proof (cases "rBattle (lRoom L)")
  case None
  have refl: "evolves env L L" by (simp add: evolves_def)
  with None show ?thesis by (simp add: handleAction_def Let_def ensures_keeps keeps_sendErr)
next
  case (Some b)
  have refl: "evolves env L L" by (simp add: evolves_def)
  show ?thesis
  proof (cases "decodeAction env (cmdData c)")
    case (Inl e)
    with Some refl show ?thesis by (simp add: handleAction_def Let_def ensures_keeps keeps_sendErr)
  next
    case (Inr a0)
    obtain b' e where ap: "Apply b (cmdPlayer c) (a0\<lparr>aType := cmdType c\<rparr>) = (b', e)"
      by (cases "Apply b (cmdPlayer c) (a0\<lparr>aType := cmdType c\<rparr>)")
    show ?thesis
    proof (cases e)
      case err: (Some x)
      then have "b' = b" using ap Apply_rejected_same by simp
      then have L: "evolves env L (L\<lparr>lRoom := (lRoom L)\<lparr>rBattle := Some b'\<rparr>\<rparr>)"
        using Some by (simp add: evolves_def kept_def same_setup_def)
      from Some Inr ap err ensures_keeps [OF keeps_sendErr L] show ?thesis
        by (simp add: handleAction_def)
    next
      case None
      have f: "faithful env (cmdType c) (cmdData c) False a0"
        using decoder_nonempty [OF assms Inr] Inr by (simp add: faithful_def)
      have "handleAction env now c L =
          andThen (onRoom pushState (recorded env now b' (cmdPlayer c) (cmdType c) (cmdData c) False L))
            (\<lambda>L. if Over b' then gameOver b' L else (L, Stay))"
        using Some Inr ap None by (simp add: handleAction_def recorded_def Let_def)
      moreover have "evolves env L (recorded env now b' (cmdPlayer c) (cmdType c) (cmdData c) False L)"
        using evolves_recorded [OF Some _ f] ap None by simp
      ultimately show ?thesis
        by (simp add: ensures_keeps_then keeps_pushState gameOver_evolves)
    qed
  qed
qed

lemma handleJoin_evolves:
  "ensures (evolves env L) (evolves env L) (evolves env L) (handleJoin now c L)"
  unfolding handleJoin_def cancelGrace_def Let_def
proof (rule ensures_keeps_then [OF keeps_status])
  fix T assume T: "evolves env L T"
  have "evolves env L (T\<lparr>lSess := s, lRoom := (lRoom T)\<lparr>rStartedAt := t\<rparr>\<rparr>)" for s t
    by (rule evolves_kept [OF T]) (simp add: kept_def same_setup_def)
  with T show "ensures (evolves env L) (evolves env L) (evolves env L)
      (case rBattle (lRoom T) of None \<Rightarrow> (T, Stay)
       | Some x \<Rightarrow>
           if \<not> stStarted (lSess T) \<and>
              countTrue (stOnline ((lSess L)\<lparr>stJoined := AList.update (cmdPlayer c) True (stJoined (lSess L)),
                stOnline := AList.update (cmdPlayer c) True (stOnline (lSess L))\<rparr>)) = 2
           then onRoom pushState
                 (T\<lparr>lSess := (lSess T)\<lparr>stStarted := True\<rparr>, lRoom := (lRoom T)\<lparr>rStartedAt := Some now\<rparr>\<rparr>)
           else if stStarted (lSess T) then onRoom (sendView (cmdPlayer c)) T else (T, Stay))"
    by (auto simp: ensures_keeps keeps_pushState keeps_sendView split: option.split)
qed (simp add: evolves_def kept_def same_setup_def)

lemma handleLeave_evolves:
  "ensures (evolves env L) (evolves env L) (evolves env L) (handleLeave now c L)"
proof -
  let ?L = "L\<lparr>lSess := (lSess L)\<lparr>stOnline := AList.update (cmdPlayer c) False (stOnline (lSess L))\<rparr>\<rparr>"
  have 1: "evolves env L ?L" by (simp add: evolves_def kept_def same_setup_def)
  have "kept ?L (startGrace now ?L)" by (simp add: kept_def same_setup_def startGrace_def split: option.split)
  from evolves_kept [OF 1 this] ensures_keeps [OF keeps_status 1] show ?thesis
    by (simp add: handleLeave_def Let_def)
qed

lemma onCmd_evolves:
  assumes "decoder_ok env"
  shows "ensures (evolves env L) (evolves env L) (evolves env L) (onCmd env now c L)"
proof -
  have "ensures (evolves env L) (evolves env L) (evolves env L) (handle env now c L)"
    using handleAction_evolves [OF assms, of L now c] handleJoin_evolves [of env L now c]
      handleLeave_evolves [of env L now c]
    by (simp add: handle_def evolves_def)
  then show ?thesis unfolding onCmd_def
    by (rule ensures_andThen) (simp add: evolves_kept [OF _ checkTurn_kept])
qed

lemma onTurn_evolves: "ensures (evolves env L) (evolves env L) (evolves env L) (onTurn env now L)"
proof (cases "rBattle (lRoom L)")
  case None
  then show ?thesis by (simp add: onTurn_def evolves_def kept_def same_setup_def)
next
  case (Some b)
  let ?pid = "pID (player b (Turn b))" and ?L0 = "L\<lparr>lTurn := None\<rparr>"
  obtain b' e where ap: "Apply b ?pid autoEndTurn = (b', e)" by (cases "Apply b ?pid autoEndTurn")
  have then_ok: "ensures (evolves env L) (evolves env L) (evolves env L)
      (if Over b' then gameOver b' T else (checkTurn now T, Stay))" if "evolves env L T" for T
    using that by (simp add: gameOver_evolves evolves_kept [OF _ checkTurn_kept])
  show ?thesis
  proof (cases e)
    case err: (Some x)
    then have "b' = b" using ap Apply_rejected_same by simp
    then have "evolves env L (?L0\<lparr>lRoom := (lRoom L)\<lparr>rBattle := Some b'\<rparr>\<rparr>)"
      using Some by (simp add: evolves_def kept_def same_setup_def)
    with Some ap err then_ok show ?thesis
      by (simp add: onTurn_def Let_def ensures_keeps_then keeps_pushState)
  next
    case None
    have f: "faithful env ''end_turn'' [] True emptyAction" by (simp add: faithful_def)
    have ap': "Apply b ?pid (emptyAction\<lparr>aType := ''end_turn''\<rparr>) = (b', None)"
      using ap None by (simp add: emptyAction_def autoEndTurn_def)
    have "kept L ?L0" by (simp add: kept_def same_setup_def)
    moreover have "evolves env ?L0 (recorded env now b' ?pid ''end_turn'' [] True ?L0)"
      using Some by (intro evolves_recorded [OF _ ap' f]) simp
    ultimately have "evolves env L (recorded env now b' ?pid ''end_turn'' [] True ?L0)"
      by (rule kept_evolves)
    moreover have "onTurn env now L =
        andThen (onRoom pushState (recorded env now b' ?pid ''end_turn'' [] True ?L0))
          (\<lambda>L. if Over b' then gameOver b' L else (checkTurn now L, Stay))"
      using Some ap None by (simp add: onTurn_def recorded_def Let_def)
    ultimately show ?thesis using then_ok by (simp add: ensures_keeps_then keeps_pushState)
  qed
qed

lemma exitRun_kept: "kept L (exitRun now reason p L)"
proof -
  obtain x where "finish now (lSess L) (if p then ''crashed'' else reason)
      (if p then notifyCrash (lRoom L) else lRoom L) = (if p then notifyCrash (lRoom L) else lRoom L)\<lparr>rReports := x\<rparr>"
    using finish_frame by blast
  moreover have "rBattle (notifyCrash r) = rBattle r \<and> rLog (notifyCrash r) = rLog r \<and>
      same_setup r (notifyCrash r)" for r
    using keeps_broadcast [of "PCrashed (rId r)"] by (simp add: keeps_def notifyCrash_def)
  ultimately show ?thesis by (simp add: kept_def same_setup_def exitRun_def Let_def)
qed

lemma settle_evolves:
  assumes "ensures (evolves env L) (evolves env L) (evolves env L) x"
  shows "evolves env L (sLoop (settle reason x S))"
  using assms evolves_kept [OF _ exitRun_kept]
  by (cases x; cases "snd x") (auto simp: settle_def)

lemma step_evolves:
  assumes "decoder_ok env" "step env e S = Some T"
  shows "evolves env (sLoop S) (sLoop T)"
proof (cases e)
  case (Arrive c)
  obtain q where "fst (Send c (lRoom (sLoop S))) = (lRoom (sLoop S))\<lparr>rInbox := q\<rparr>"
    using Send_frame by blast
  with Arrive assms(2) have "sLoop T = (sLoop S)\<lparr>lRoom := (lRoom (sLoop S))\<lparr>rInbox := q\<rparr>\<rparr>"
    by (auto simp: Let_def split: prod.splits)
  then show ?thesis by (simp add: evolves_def kept_def same_setup_def)
next
  case TakeCmd
  with assms(2) obtain c rest where
    T: "T = settle ''finished'' (onCmd env (sNow S) c
      ((sLoop S)\<lparr>lRoom := (lRoom (sLoop S))\<lparr>rInbox := rest\<rparr>\<rparr>)) S"
    by (auto simp: Let_def split: list.splits if_splits)
  let ?L = "(sLoop S)\<lparr>lRoom := (lRoom (sLoop S))\<lparr>rInbox := rest\<rparr>\<rparr>"
  have "kept (sLoop S) ?L" by (simp add: kept_def same_setup_def)
  from kept_evolves [OF this settle_evolves [OF onCmd_evolves [OF assms(1)]]]
  show ?thesis unfolding T .
next
  case TurnFires
  with assms(2) have T: "T = settle ''finished'' (onTurn env (sNow S) (sLoop S)) S"
    by (auto split: option.splits if_splits)
  show ?thesis unfolding T by (rule settle_evolves [OF onTurn_evolves])
next
  case GraceFires
  with assms(2) have T: "T = settle ''abandoned'' (sLoop S, Return) S"
    by (auto split: option.splits if_splits)
  show ?thesis unfolding T by (rule settle_evolves) (simp add: evolves_def)
next
  case SeeDone
  with assms(2) have T: "T = settle ''aborted'' (sLoop S, Return) S"
    by (auto split: if_splits)
  show ?thesis unfolding T by (rule settle_evolves) (simp add: evolves_def)
qed (use assms(2) in \<open>auto simp: evolves_def kept_def same_setup_def\<close>)

text \<open>The loop keeps what the room was set up with.\<close>

lemma reach_setup:
  assumes "reach env S0 S" "decoder_ok env"
  shows "same_setup (lRoom (sLoop S0)) (lRoom (sLoop S))"
  using assms(1)
proof (induction rule: reach.induct)
  case (step S e T)
  from step_evolves [OF assms(2) step.hyps(2)] step.IH show ?case
    by (auto simp: evolves_def kept_def advanced_def same_setup_def)
qed (simp add: same_setup_def)

end
