(* ===== verification/Room_Live.thy ===== *)
theory Room_Live
  imports Room_Refine
begin

text \<open>
  A started room whose players do nothing finishes by itself: the timer of the turn ends
  every turn, and turns are finitely many. \<open>quiet\<close> says that \<open>Out\<close> does not panic.
\<close>

definition quiet :: "Room \<Rightarrow> bool" where
  "quiet r \<longleftrightarrow> (case rOut r of None \<Rightarrow> True | Some boom \<Rightarrow> (\<forall>n. \<not> boom n))"

definition calm :: "effect \<Rightarrow> bool" where
  "calm f \<longleftrightarrow> (\<forall>r. quiet r \<longrightarrow> \<not> snd (f r) \<and> rOut (fst (f r)) = rOut r)"

lemma calm_emit: "calm (emit p m)"
  by (auto simp: calm_def emit_def quiet_def split: option.splits)

lemma calm_eachPlayer:
  assumes "\<And>p. calm (f p)" shows "calm (eachPlayer f ps)"
proof -
  have "quiet r \<Longrightarrow> \<not> snd (eachPlayer f ps r) \<and> rOut (fst (eachPlayer f ps r)) = rOut r" for r
  proof (induction ps arbitrary: r)
    case (Cons p ps)
    obtain r' b where fp: "f p r = (r', b)" by (cases "f p r")
    have "\<not> snd (f p r) \<and> rOut (fst (f p r)) = rOut r"
      using assms Cons.prems unfolding calm_def by blast
    with fp have r': "\<not> b" "rOut r' = rOut r" by simp_all
    then have "quiet r'" using Cons.prems by (simp add: quiet_def)
    from Cons.IH [OF this] fp r' show ?case by simp
  qed simp
  then show ?thesis by (simp add: calm_def)
qed

lemma calm_broadcast: "calm (broadcast m)"
proof -
  have "calm (eachPlayer (\<lambda>p. emit p m) ps)" for ps by (rule calm_eachPlayer) (rule calm_emit)
  then show ?thesis by (auto simp: calm_def broadcast_def split: option.split)
qed

lemma calm_sendView: "calm (sendView p)"
  using calm_emit by (auto simp: calm_def sendView_def split: option.split)

lemma calm_pushState: "calm pushState"
proof -
  have each: "calm (eachPlayer sendView ps)" for ps by (rule calm_eachPlayer) (rule calm_sendView)
  have "\<not> snd (pushState r) \<and> rOut (fst (pushState r)) = rOut r" if "quiet r" for r
  proof -
    have "quiet (r\<lparr>rSeq := rSeq r + 1\<rparr>)" using that by (simp add: quiet_def)
    with each [of "rPlayers r"] have "\<not> snd (eachPlayer sendView (rPlayers r) (r\<lparr>rSeq := rSeq r + 1\<rparr>)) \<and>
        rOut (fst (eachPlayer sendView (rPlayers r) (r\<lparr>rSeq := rSeq r + 1\<rparr>))) = rOut r"
      by (auto simp: calm_def)
    then show ?thesis by (simp add: pushState_def split: option.split)
  qed
  then show ?thesis by (simp add: calm_def)
qed

lemma onRoom_calm:
  assumes "calm f" "keeps f" "quiet (lRoom L)"
  obtains T where "onRoom f L = (T, Stay)" "kept L T" "quiet (lRoom T)" "lSess T = lSess L"
    "lTurn T = lTurn L" "lLast T = lLast L"
proof -
  obtain r p where f: "f (lRoom L) = (r, p)" by (cases "f (lRoom L)")
  have "\<not> snd (f (lRoom L)) \<and> rOut (fst (f (lRoom L))) = rOut (lRoom L)"
    "rBattle (fst (f (lRoom L))) = rBattle (lRoom L) \<and> rLog (fst (f (lRoom L))) = rLog (lRoom L)"
    "same_setup (lRoom L) (fst (f (lRoom L)))"
    using assms unfolding calm_def keeps_def by blast+
  with f have "\<not> p" "rOut r = rOut (lRoom L)" "rBattle r = rBattle (lRoom L)" "rLog r = rLog (lRoom L)"
    "same_setup (lRoom L) r"
    by simp_all
  with f assms(3) show ?thesis
    by (intro that [of "L\<lparr>lRoom := r\<rparr>"]) (simp_all add: onRoom_def kept_def quiet_def)
qed

lemma exitRun_fields [simp]:
  "rBattle (lRoom (exitRun now reason p L)) = rBattle (lRoom L)"
  "rLog (lRoom (exitRun now reason p L)) = rLog (lRoom L)"
  using exitRun_kept [of L now reason p] by (simp_all add: kept_def)

lemma checkTurn_fields [simp]:
  "rBattle (lRoom (checkTurn now L)) = rBattle (lRoom L)" "lSess (checkTurn now L) = lSess L"
  "rLog (lRoom (checkTurn now L)) = rLog (lRoom L)" "lRoom (checkTurn now L) = lRoom L"
  by (auto simp: checkTurn_def resetTurn_def split: option.split)

text \<open>The timer fires: one accepted end of turn, logged as automatic.\<close>

lemma turn_fires:
  assumes ok: "sys_ok env s0 S" and inv: "invar_game s0" and run: "sRunning S"
    and due: "lTurn (sLoop S) = Some d" "d \<le> sNow S" and q: "quiet (lRoom (sLoop S))"
  shows "\<exists>T b b' e. step env TurnFires S = Some T \<and> rBattle (lRoom (sLoop S)) = Some b \<and>
    Apply b (pID (player b (Turn b))) autoEndTurn = (b', None) \<and>
    rBattle (lRoom (sLoop T)) = Some b' \<and> rLog (lRoom (sLoop T)) = rLog (lRoom (sLoop S)) @ [e] \<and>
    leAuto e \<and> leType e = ''end_turn'' \<and> lePlayer e = pID (player b (Turn b)) \<and>
    (sRunning T \<longleftrightarrow> \<not> Over b') \<and> sNow T = sNow S \<and>
    (sRunning T \<longrightarrow> quiet (lRoom (sLoop T)) \<and> stStarted (lSess (sLoop T)))"
proof -
  let ?L = "sLoop S" and ?now = "sNow S"
  have safe: "safe env s0 ?now ?L" and arm: "armed ?L" using ok run by (simp_all add: sys_ok_def)
  from safe obtain b where b: "rBattle (lRoom ?L) = Some b" by (auto simp: safe_parts game_part_def)
  have st: "stStarted (lSess ?L)" by (rule goingD(2) [OF armed_going [OF arm]]) (simp add: due)
  have nover: "\<not> Over b" using goingD(1) [OF armed_going [OF arm]] b by (simp add: over_def)
  have "game_part env s0 ?L" using safe by (simp add: safe_parts)
  from game_battle(1) [OF this inv b] have ib: "invar_game b" .
  let ?pid = "pID (player b (Turn b))" and ?M = "?L\<lparr>lTurn := None\<rparr>"
  obtain b' where ap: "Apply b ?pid autoEndTurn = (b', None)" using auto_accepted [OF ib nover] by blast
  let ?R = "recorded env ?now b' ?pid ''end_turn'' [] True ?M"
  have "quiet (lRoom ?R)" using q by (simp add: quiet_def)
  then obtain P where P: "onRoom pushState ?R = (P, Stay)" "kept ?R P" "quiet (lRoom P)" "lSess P = lSess ?R"
    by (rule onRoom_calm [OF calm_pushState keeps_pushState])
  have eq: "onTurn env ?now ?L = (if Over b' then gameOver b' P else (checkTurn ?now P, Stay))"
    using b ap P(1) by (simp add: onTurn_def recorded_def Let_def andThen_def)
  have T: "step env TurnFires S = Some (settle ''finished'' (onTurn env ?now ?L) S)"
    using due run by simp
  let ?e = "last (rLog (lRoom ?R))"
  have log: "rLog (lRoom P) = rLog (lRoom ?L) @ [?e]" "rBattle (lRoom P) = Some b'"
    using P(2) by (simp_all add: kept_def)
  have e: "leAuto ?e" "leType ?e = ''end_turn''" "lePlayer ?e = ?pid" by simp_all
  show ?thesis
  proof (cases "Over b'")
    case True
    obtain G where G: "onRoom (broadcast (PGameOver (Winner b'))) P = (G, Stay)" "kept P G"
      by (rule onRoom_calm [OF calm_broadcast keeps_broadcast P(3)])
    have "gameOver b' P = (G, Return)" by (simp add: gameOver_def G(1) andThen_def)
    then have t: "step env TurnFires S =
        Some (S\<lparr>sLoop := exitRun ?now ''finished'' False G, sRunning := False\<rparr>)"
      using T eq True by (simp add: settle_def)
    show ?thesis
      by (rule exI [of _ "S\<lparr>sLoop := exitRun ?now ''finished'' False G, sRunning := False\<rparr>"],
          rule exI [of _ b], rule exI [of _ b'], rule exI [of _ ?e])
        (use t b ap log G(2) True in \<open>simp add: kept_def\<close>)
  next
    case False
    then have t: "step env TurnFires S = Some (S\<lparr>sLoop := checkTurn ?now P\<rparr>)"
      using T eq by (simp add: settle_def)
    show ?thesis
      by (rule exI [of _ "S\<lparr>sLoop := checkTurn ?now P\<rparr>"],
          rule exI [of _ b], rule exI [of _ b'], rule exI [of _ ?e])
        (use t b ap log False run P(3,4) st in simp)
  qed
qed

text \<open>Waiting until the timer is due.\<close>

definition idle :: "Event list \<Rightarrow> bool" where
  "idle es \<longleftrightarrow> list_all (\<lambda>e. e = TurnFires \<or> (\<exists>d. e = Tick d)) es"

lemma idle_finishes:
  assumes "invar_game s0" "decoder_ok env"
  shows "sys_ok env s0 S \<Longrightarrow> sRunning S \<Longrightarrow> stStarted (lSess (sLoop S)) \<Longrightarrow> quiet (lRoom (sLoop S)) \<Longrightarrow>
    rBattle (lRoom (sLoop S)) = Some b \<Longrightarrow> invar_game b \<Longrightarrow>
    \<exists>es T b'. idle es \<and> length es \<le> 2 * fuel b \<and> run env es S = Some T \<and> \<not> sRunning T \<and>
      rBattle (lRoom (sLoop T)) = Some b' \<and> Over b'"
proof (induction "fuel b" arbitrary: S b rule: less_induct)
  case less
  have arm: "armed (sLoop S)" using less.prems(1,2) by (simp add: sys_ok_def)
  obtain d where d: "lTurn (sLoop S) = Some d"
    using armed_started(1) [OF arm less.prems(5,3)] by blast
  let ?S = "S\<lparr>sNow := sNow S + int (nat (d - sNow S))\<rparr>"
  have tick: "step env (Tick (nat (d - sNow S))) S = Some ?S" by simp
  have ok: "sys_ok env s0 ?S" by (rule step_ok [OF less.prems(1) assms tick])
  have pre: "sRunning ?S" "lTurn (sLoop ?S) = Some d" "d \<le> sNow ?S" "quiet (lRoom (sLoop ?S))"
    using less.prems d by simp_all
  obtain T c b' where T: "step env TurnFires ?S = Some T"
    "rBattle (lRoom (sLoop ?S)) = Some c" "Apply c (pID (player c (Turn c))) autoEndTurn = (b', None)"
    "rBattle (lRoom (sLoop T)) = Some b'" "sRunning T \<longleftrightarrow> \<not> Over b'"
    "sRunning T \<longrightarrow> quiet (lRoom (sLoop T)) \<and> stStarted (lSess (sLoop T))"
    using turn_fires [OF ok assms(1) pre] by blast
  have cb: "c = b" using T(2) less.prems(5) by simp
  have okT: "sys_ok env s0 T" by (rule step_ok [OF ok assms T(1)])
  have ap: "Apply b (pID (player b (Turn b))) autoEndTurn = (b', None)" using T(3) cb by simp
  have f: "fuel b' < fuel b" by (rule game_rules.accept_decreases [OF less.prems(6) ap])
  have ib: "invar_game b'"
    using game_rules.invar_app [OF less.prems(6), of "pID (player b (Turn b))" autoEndTurn] ap by simp
  let ?es = "[Tick (nat (d - sNow S)), TurnFires]"
  have two: "run env (?es @ es) S = run env es T" for es
    using T(1) by simp
  show ?case
  proof (cases "Over b'")
    case True
    with T(4,5) two [of "[]"] f show ?thesis
      by (intro exI [of _ ?es] exI [of _ T] exI [of _ b']) (simp add: idle_def)
  next
    case False
    with T(5,6) have "sRunning T" "quiet (lRoom (sLoop T))" "stStarted (lSess (sLoop T))" by simp_all
    from less.hyps [OF f okT this(1,3,2) T(4) ib] obtain es U u where
      "idle es" "length es \<le> 2 * fuel b'" "run env es T = Some U" "\<not> sRunning U"
      "rBattle (lRoom (sLoop U)) = Some u" "Over u" by blast
    with two [of es] f show ?thesis
      by (intro exI [of _ "?es @ es"] exI [of _ U] exI [of _ u]) (simp add: idle_def)
  qed
qed

end
