(* ===== verification/Room_Props.thy ===== *)
theory Room_Props
  imports Room_Sample Room_Live
begin

text \<open>
  The properties of a room that hosts a game made by \<open>NewState\<close>, at every point of every
  run: any commands, any timing, any cancellation, and an \<open>Out\<close> that may panic.
\<close>

section \<open>Shared lemmas\<close>

text \<open>What a room needs to start with.\<close>

definition hosts :: "Env \<Rightarrow> State \<Rightarrow> Room \<Rightarrow> bool" where
  "hosts env s0 r \<longleftrightarrow> fresh_room s0 r \<and> \<not> Over s0 \<and> invar_game s0 \<and> decoder_ok env"

lemma hosts_reach: "hosts env s0 r \<Longrightarrow> reach env (initSystem now r) S \<Longrightarrow> sys_ok env s0 S"
  by (auto simp: hosts_def intro: reach_ok)

lemma hosts_sound: "hosts env s0 r \<Longrightarrow> reach env (initSystem now r) S \<Longrightarrow> sound env s0 (sNow S) (sLoop S)"
  using hosts_reach [of env s0 r now S] by (simp add: sys_ok_def closed_ok_def safe_def split: if_splits)

lemma sample_hosts: "hosts sample_env sample_state sample_room"
  by (simp add: hosts_def sample_fresh sample_not_over sample_invar sample_decoder)

lemmas sample_reach = sample_busy_reach [unfolded sample_system_def]

lemma sound_battle:
  assumes "sound env s0 now L" "invar_game s0"
  obtains b where "rBattle (lRoom L) = Some b" "invar_game b"
proof -
  from assms(1) have g: "game_part env s0 L" by (simp add: sound_def)
  then obtain b where b: "rBattle (lRoom L) = Some b" by (auto simp: game_part_def)
  from that [OF b game_battle(1) [OF g assms(2) b]] show ?thesis .
qed

section \<open>The log and the game\<close>

text \<open>
  C3. At every point of every run, the log of a room is a faithful record of its game:
  \<open>Steps\<close> decodes it, the rules accept every step of it from the initial state, it leads
  to the current state of the battle, and the hash of each entry is the checksum of the
  state after that step.
\<close>
theorem room_log_replays:
  assumes "hosts env s0 r" and "reach env (initSystem now r) S"
  shows "\<exists>b steps. rBattle (lRoom (sLoop S)) = Some b \<and> Steps env (rLog (lRoom (sLoop S))) = Inr steps \<and>
    plays Apply s0 steps b \<and>
    map leHash (rLog (lRoom (sLoop S))) = map (Checksum (quoteRest env)) (trail Apply s0 steps)"
  using hosts_sound [OF assms] by (auto simp: sound_def game_part_def Steps_def)

theorem room_log_replays_witness:
  "\<exists>steps. Steps sample_env (rLog (lRoom (sLoop sample_busy))) = Inr steps \<and>
    plays Apply sample_state steps after_play"
  using room_log_replays [OF sample_hosts sample_reach] sample_busy_facts(3) by auto

text \<open>
  C4. The room refines the rules of the game: any single event (a command taken from the
  inbox, a timer, a cancellation, an arrival) either leaves the battle and the log as
  they are, or is one action the rules accept, from the player the new last log entry
  names and with the action that entry decodes to.
\<close>
theorem room_refines_rules:
  assumes "decoder_ok env" and "step env e S = Some T"
  shows "(rBattle (lRoom (sLoop T)) = rBattle (lRoom (sLoop S)) \<and> rLog (lRoom (sLoop T)) = rLog (lRoom (sLoop S))) \<or>
    (\<exists>b b' entry a. rBattle (lRoom (sLoop S)) = Some b \<and> rBattle (lRoom (sLoop T)) = Some b' \<and>
       rLog (lRoom (sLoop T)) = rLog (lRoom (sLoop S)) @ [entry] \<and> entryAction env entry = Inr a \<and>
       Apply b (lePlayer entry) (a\<lparr>aType := leType entry\<rparr>) = (b', None))"
  using step_evolves [OF assms] unfolding evolves_def kept_def advanced_def by blast

theorem room_refines_rules_witness:
  "rLog (lRoom (sLoop (sample_system\<lparr>sNow := 1\<rparr>))) = rLog (lRoom (sLoop sample_system))"
  using room_refines_rules [OF sample_decoder, of "Tick 1" sample_system "sample_system\<lparr>sNow := 1\<rparr>"]
  by (simp add: sample_system_def initSystem_def initLoop_def sample_room_def NewRoom_def)

text \<open>
  C15. When a room has closed, its context is cancelled and its timers are gone; if its
  session had started and a callback is set, exactly one report was made, and it carries
  the room's players, the whole log and the winner, seed, decks and displayed round of
  the final state, with the reason \<open>finished\<close> if and only if the game is over, whatever
  closed the room, a panic included; otherwise no report was made.
\<close>
theorem room_report:
  assumes "hosts env s0 r" and "reach env (initSystem now r) S" and "\<not> sRunning S"
  shows "rCancelled (lRoom (sLoop S)) \<and> lGrace (sLoop S) = None \<and> lTurn (sLoop S) = None \<and>
    (if rOnFinish (lRoom (sLoop S)) \<and> stStarted (lSess (sLoop S))
     then \<exists>b rep. rBattle (lRoom (sLoop S)) = Some b \<and> rReports (lRoom (sLoop S)) = [rep] \<and>
       report_fits (lRoom (sLoop S)) b rep
     else rReports (lRoom (sLoop S)) = [])"
proof -
  have "closed_ok env s0 (sNow S) (sLoop S)"
    using hosts_reach [OF assms(1,2)] assms(3) by (simp add: sys_ok_def)
  then show ?thesis unfolding closed_ok_def report_part_def by blast
qed

text \<open>The busy room, shut down by the server.\<close>

definition sample_closed :: System where
  "sample_closed = (case run sample_env [Cancel, SeeDone] sample_busy of Some S \<Rightarrow> S | None \<Rightarrow> sample_busy)"

lemma sample_closed:
  "run sample_env [Cancel, SeeDone] sample_busy = Some sample_closed \<and> \<not> sRunning sample_closed"
  by (simp add: sample_closed_def sample_busy_facts settle_def)

lemma sample_closed_reach: "reach sample_env (initSystem 0 sample_room) sample_closed"
  using reach_run [OF sample_reach] sample_closed by blast

theorem room_report_witness: "rCancelled (lRoom (sLoop sample_closed))"
  using room_report [OF sample_hosts sample_closed_reach] sample_closed by simp

section \<open>Liveness\<close>

text \<open>
  When the turn timer fires, the automatic end of turn of the player on turn is never
  rejected (the code's log line for a failure is dead): the battle moves by exactly that
  action, one entry marked automatic is logged, and the room goes on unless the game is
  over.
\<close>
theorem turn_timeout_accepted:
  assumes "hosts env s0 r" and "reach env (initSystem now r) S" and "sRunning S"
    and "lTurn (sLoop S) = Some d" and "d \<le> sNow S" and "quiet (lRoom (sLoop S))"
  shows "\<exists>T b b' e. step env TurnFires S = Some T \<and> rBattle (lRoom (sLoop S)) = Some b \<and>
    Apply b (pID (player b (Turn b))) autoEndTurn = (b', None) \<and> rBattle (lRoom (sLoop T)) = Some b' \<and>
    rLog (lRoom (sLoop T)) = rLog (lRoom (sLoop S)) @ [e] \<and> leAuto e \<and> leType e = ''end_turn'' \<and>
    lePlayer e = pID (player b (Turn b)) \<and> (sRunning T \<longleftrightarrow> \<not> Over b')"
proof -
  have inv: "invar_game s0" using assms(1) by (simp add: hosts_def)
  from turn_fires [OF hosts_reach [OF assms(1,2)] inv assms(3-6)] show ?thesis by blast
qed

definition sample_late :: System where
  "sample_late = sample_busy\<lparr>sNow := sNow sample_busy + int (nat defaultTurn)\<rparr>"

lemma sample_late_reach: "reach sample_env (initSystem 0 sample_room) sample_late"
  by (rule reach.step [OF sample_reach, of "Tick (nat defaultTurn)"]) (simp add: sample_late_def)

theorem turn_timeout_accepted_witness:
  "\<exists>T e. step sample_env TurnFires sample_late = Some T \<and> leAuto e \<and> lePlayer e = ''alice'' \<and>
     rLog (lRoom (sLoop T)) = rLog (lRoom (sLoop sample_late)) @ [e]"
proof -
  have "sRunning sample_late" "lTurn (sLoop sample_late) = Some defaultTurn" "defaultTurn \<le> sNow sample_late"
    "quiet (lRoom (sLoop sample_late))" "rBattle (lRoom (sLoop sample_late)) = Some after_play"
    by (simp_all add: sample_late_def sample_busy_facts quiet_def defaultTurn_def)
  moreover have "pID (player after_play (Turn after_play)) = ''alice''"
    by (simp add: after_play_def sample_state_def player_def sample_p0_def)
  ultimately show ?thesis
    using turn_timeout_accepted [OF sample_hosts sample_late_reach] by fastforce
qed

section \<open>Messages\<close>

text \<open>
  C37. Every view a room ever sends goes to the player whose view it is, and hides the
  opponent's hand.
\<close>
theorem room_privacy:
  assumes "hosts env s0 r" and "reach env (initSystem now r) S"
    and "(pid, PView v) \<in> set (rSent (lRoom (sLoop S)))"
  shows "vID (vMe v) = pid \<and> vHand (vOpp v) = None"
  using hosts_sound [OF assms(1,2)] assms(3) by (force simp: sound_def sent_part_def sent_ok_def)

theorem room_privacy_witness:
  "vHand (vOpp ((ViewFor after_play 1)\<lparr>vSeq := 2\<rparr>)) = None"
  using room_privacy [OF sample_hosts sample_reach sample_busy_facts(10)] by blast

text \<open>
  Sequence numbers of the log strictly increase (as the 64-bit numbers they are) in a
  room with an \<open>Out\<close>, and the room's counter is the number of states pushed so far: one
  per entry of the log, and one at the start of the session.
\<close>
theorem log_sequence_increases:
  assumes "hosts env s0 r" and "reach env (initSystem now r) S" and "rOut (lRoom (sLoop S)) \<noteq> None"
    and "fuel s0 < 2 ^ 63"
  shows "sorted_wrt (<) (map (unat \<circ> leSeq) (rLog (lRoom (sLoop S)))) \<and>
    unat (rSeq (lRoom (sLoop S))) =
      length (rLog (lRoom (sLoop S))) + (if stStarted (lSess (sLoop S)) then 1 else 0)"
proof -
  let ?L = "sLoop S"
  have snd: "sound env s0 (sNow S) ?L" by (rule hosts_sound [OF assms(1,2)])
  then obtain ns where ns: "map leSeq (rLog (lRoom ?L)) = map of_nat ns" "sorted_wrt (<) ns"
    "\<forall>n \<in> set ns. n \<le> pushes ?L" "rSeq (lRoom ?L) = of_nat (pushes ?L)"
    using assms(3) by (auto simp: sound_def log_part_def)
  obtain b steps where "stepsFrom env 0 (rLog (lRoom ?L)) = Inr steps" "plays Apply s0 steps b"
    using snd by (auto simp: sound_def game_part_def)
  then have "length (rLog (lRoom ?L)) \<le> fuel s0"
    using game_rules.plays_bounded [of s0 steps b] length_stepsFrom assms(1) by (fastforce simp: hosts_def)
  then have p: "pushes ?L < 2 ^ 64" using assms(4) by (simp add: pushes_def)
  then have un: "unat (of_nat n :: 64 word) = n" if "n \<le> pushes ?L" for n
    using that by (simp add: unsigned_of_nat take_bit_nat_eq_self)
  have "map (unat \<circ> leSeq) (rLog (lRoom ?L)) = map unat (map leSeq (rLog (lRoom ?L)))" by simp
  also have "\<dots> = map (\<lambda>n. unat (of_nat n :: 64 word)) ns" by (simp only: ns(1) map_map comp_def)
  also have "\<dots> = ns" using ns(3) un by (simp add: map_idI)
  finally show ?thesis using ns(2,4) un [of "pushes ?L"] by (simp add: pushes_def)
qed

theorem log_sequence_increases_witness: "unat (rSeq (lRoom (sLoop sample_busy))) = 2"
  using log_sequence_increases [OF sample_hosts sample_reach]
    NewState_fuel [OF sample_NewState sample_swaps_ok] sample_busy_facts
  by (simp add: sample_a_def sample_b_def)

section \<open>Commands that change nothing\<close>

text \<open>
  C38. A command of a stranger or of an unknown type changes nothing at all. An action for
  which there is no battle, whose data does not decode, or which the rules reject changes
  nothing either; its sender, and nobody else, is sent exactly one message, with the code of the
  rejection (if the room has an \<open>Out\<close>), and the loop goes on unless that call panics.
\<close>
theorem refused_commands:
  shows "(\<not> stHas (lSess L) (cmdPlayer c) \<or>
      cmdType c \<notin> {''join'', ''leave'', ''play_card'', ''end_turn'', ''attack''} \<longrightarrow>
        handle env now c L = (L, Stay)) \<and>
    (stHas (lSess L) (cmdPlayer c) \<and> cmdType c \<in> {''play_card'', ''end_turn'', ''attack''} \<and>
      (rBattle (lRoom L) = None \<and> msg = PError ''internal'' NotStarted \<or>
       rBattle (lRoom L) = Some b \<and>
        (decodeAction env (cmdData c) = Inl x \<and> msg = PError ''internal'' BadAction \<or>
         decodeAction env (cmdData c) = Inr a \<and>
           Apply b (cmdPlayer c) (a\<lparr>aType := cmdType c\<rparr>) = (b', Some e) \<and>
           msg = PError (code_string (eCode e)) (RuleText (eMsg e)))) \<longrightarrow>
        handle env now c L =
          (case rOut (lRoom L) of
             None \<Rightarrow> (L, Stay)
           | Some boom \<Rightarrow>
               (L\<lparr>lRoom := (lRoom L)\<lparr>rSent := rSent (lRoom L) @ [(cmdPlayer c, msg)]\<rparr>\<rparr>,
                if boom (length (rSent (lRoom L))) then Panicked else Stay)))"
proof -
  have emit: "onRoom (emit p m) L =
      (case rOut (lRoom L) of
         None \<Rightarrow> (L, Stay)
       | Some boom \<Rightarrow>
           (L\<lparr>lRoom := (lRoom L)\<lparr>rSent := rSent (lRoom L) @ [(p, m)]\<rparr>\<rparr>,
            if boom (length (rSent (lRoom L))) then Panicked else Stay))" for p m
    by (simp add: onRoom_def emit_def split: option.split)
  have same: "Apply b p a = (b', Some e) \<Longrightarrow> rBattle (lRoom L) = Some b \<Longrightarrow>
      L\<lparr>lRoom := (lRoom L)\<lparr>rBattle := Some b'\<rparr>\<rparr> = L" for b p a b' e
    using Apply_rejected_same [of b p a b' e] by simp
  show ?thesis
    by (auto simp: handle_def handleAction_def sendErr_def same emit)
qed

theorem refused_commands_witness:
  "handle sample_env 0 (cmd ''eve'' ''end_turn'' ''x'') (sLoop sample_system) = (sLoop sample_system, Stay)"
  using refused_commands [of "sLoop sample_system" "cmd ''eve'' ''end_turn'' ''x''" sample_env 0]
  by (simp add: cmd_def stHas_def sample_system_def initSystem_def initLoop_def newSession_def
      sample_room_def NewRoom_def)

end
