(* ===== verification/Room_Timers.thy ===== *)
theory Room_Timers
  imports Room_Props
begin

text \<open>
  The two timers of a room: when they are armed, for which moment, and how a room whose
  players do nothing more ends. \<open>nobody\<close> is the state of the session in which the grace timer
  runs: somebody has come or gone, and no one is online.
\<close>

section \<open>Effects that only send\<close>

definition sends :: "Loop \<Rightarrow> Loop \<Rightarrow> bool" where
  "sends L T \<longleftrightarrow> (\<exists>q xs. T = L\<lparr>lRoom := (lRoom L)\<lparr>rSeq := q, rSent := xs\<rparr>\<rparr>)"

definition sender :: "effect \<Rightarrow> bool" where
  "sender f \<longleftrightarrow> (\<forall>r. \<exists>q xs. fst (f r) = r\<lparr>rSeq := q, rSent := xs\<rparr>)"

lemma senderI: "(\<And>r. \<exists>q xs. fst (f r) = r\<lparr>rSeq := q, rSent := xs\<rparr>) \<Longrightarrow> sender f"
  by (simp add: sender_def)

lemma only_sent: "\<exists>xs. fst (f r) = r\<lparr>rSent := rSent r @ xs\<rparr> \<Longrightarrow> \<exists>q xs. fst (f r) = r\<lparr>rSeq := q, rSent := xs\<rparr>"
  by (elim exE) (rule exI [of _ "rSeq r"], auto)

lemma sender_broadcast: "sender (broadcast m)"
  by (rule senderI, rule only_sent) (use broadcast_frame in blast)

lemma sender_status: "sender (status s)"
  using sender_broadcast by (simp add: sender_def status_def)

lemma sender_emit: "sender (emit p m)"
  by (rule senderI, rule only_sent) (use emit_frame in blast)

lemma sender_sendErr: "sender (sendErr p e)"
  using sender_emit by (cases e) (simp_all add: sender_def sendErr_def)

lemma sender_sendView: "sender (sendView p)"
proof (rule senderI)
  fix r
  show "\<exists>q xs. fst (sendView p r) = r\<lparr>rSeq := q, rSent := xs\<rparr>"
  proof (cases "rBattle r")
    case None
    then show ?thesis by (intro exI [of _ "rSeq r"] exI [of _ "rSent r"]) (simp add: sendView_def split: option.split)
  next
    case (Some b)
    from sendView_frame [OF this, of p] show ?thesis by (intro only_sent) blast
  qed
qed

lemma sender_pushState: "sender pushState"
proof (rule senderI)
  fix r
  show "\<exists>q xs. fst (pushState r) = r\<lparr>rSeq := q, rSent := xs\<rparr>"
  proof (cases "rBattle r")
    case None
    then show ?thesis by (intro exI [of _ "rSeq r"] exI [of _ "rSent r"]) (simp add: pushState_def split: option.split)
  next
    case (Some b)
    from pushState_frame [OF this] show ?thesis by blast
  qed
qed

lemma ensures_sender: "sender f \<Longrightarrow> ensures (sends L) (sends L) (sends L) (onRoom f L)"
proof -
  assume "sender f"
  then obtain q xs where "fst (f (lRoom L)) = (lRoom L)\<lparr>rSeq := q, rSent := xs\<rparr>" unfolding sender_def by blast
  then have "sends L (L\<lparr>lRoom := fst (f (lRoom L))\<rparr>)" unfolding sends_def by auto
  then show ?thesis by (intro ensures_onRoom)
qed

lemma sends_refl [simp]: "sends L L"
proof -
  have "L = L\<lparr>lRoom := (lRoom L)\<lparr>rSeq := rSeq (lRoom L), rSent := rSent (lRoom L)\<rparr>\<rparr>" by (cases L) simp
  then show ?thesis unfolding sends_def by blast
qed

lemma sendsD:
  assumes "sends L T"
  shows "lSess T = lSess L" "lGrace T = lGrace L" "lTurn T = lTurn L" "lLast T = lLast L"
    "rBattle (lRoom T) = rBattle (lRoom L)" "rInbox (lRoom T) = rInbox (lRoom L)"
    "rCancelled (lRoom T) = rCancelled (lRoom L)" "rOnFinish (lRoom T) = rOnFinish (lRoom L)"
    "rReports (lRoom T) = rReports (lRoom L)" "rOut (lRoom T) = rOut (lRoom L)"
    "rTurnLimit (lRoom T) = rTurnLimit (lRoom L)" "rGrace (lRoom T) = rGrace (lRoom L)"
  using assms by (auto simp: sends_def)

section \<open>Who is online\<close>

definition nobody :: "session \<Rightarrow> bool" where
  "nobody st \<longleftrightarrow> stOnline st \<noteq> [] \<and> countTrue (stOnline st) = 0"

lemma countTrue_join: "0 < countTrue (AList.update p True m)"
  by (induction m) (auto simp: countTrue_def)

lemma countTrue_leave: "countTrue (AList.update p False m) \<le> countTrue m"
  by (induction m) (auto simp: countTrue_def)

lemma update_nonempty [simp]: "AList.update p b m \<noteq> []"
  by (cases m) auto

section \<open>What one event does to the timers\<close>

text \<open>
  The deadlines after a step at time \<open>now\<close>: the grace timer starts when the last player goes
  and stops when one comes; the turn timer starts with the session and with every turn.
\<close>

definition graceAfter :: "int \<Rightarrow> Loop \<Rightarrow> Loop \<Rightarrow> int option" where
  "graceAfter now L T =
     (if nobody (lSess T) then Some (case lGrace L of Some d \<Rightarrow> d | None \<Rightarrow> now + graceOf (lRoom L)) else None)"

definition turnAfter :: "int \<Rightarrow> Loop \<Rightarrow> Loop \<Rightarrow> int option" where
  "turnAfter now L T =
     (if stStarted (lSess T) \<and>
         (\<not> stStarted (lSess L) \<or> map_option Turn (rBattle (lRoom T)) \<noteq> map_option Turn (rBattle (lRoom L)))
      then Some (now + turnLimitOf (lRoom L)) else lTurn L)"

definition graced :: "Loop \<Rightarrow> bool" where
  "graced L \<longleftrightarrow> (lGrace L \<noteq> None \<longleftrightarrow> nobody (lSess L))"

definition timed :: "int \<Rightarrow> Loop \<Rightarrow> Loop \<Rightarrow> bool" where
  "timed now L T \<longleftrightarrow> lGrace T = graceAfter now L T \<and> lTurn T = turnAfter now L T"

lemma timed_graced: "timed now L T \<Longrightarrow> graced T"
  by (simp add: timed_def graced_def graceAfter_def)

lemma timed_same:
  assumes "graced L" "lSess T = lSess L" "lGrace T = lGrace L" "lTurn T = lTurn L"
    "rBattle (lRoom T) = rBattle (lRoom L)"
  shows "timed now L T"
  using assms by (auto simp: timed_def graced_def graceAfter_def turnAfter_def)

text \<open>What \<open>handle\<close> leaves for \<open>checkTurn\<close>; the room's limits are never assigned.\<close>

definition handled :: "int \<Rightarrow> Loop \<Rightarrow> Loop \<Rightarrow> bool" where
  "handled now L T \<longleftrightarrow>
     lGrace T = graceAfter now L T \<and> lTurn T = lTurn L \<and> lLast T = lLast L \<and> rTurnLimit (lRoom T) = rTurnLimit (lRoom L) \<and>
     (stStarted (lSess L) \<longrightarrow> stStarted (lSess T)) \<and> \<not> over T \<and> rBattle (lRoom T) \<noteq> None"

lemma timed_checkTurn:
  assumes "handled now L T" and "armed L" and "rBattle (lRoom L) = Some b"
  shows "timed now L (checkTurn now T)"
proof -
  have h: "lGrace T = graceAfter now L T" "lTurn T = lTurn L" "lLast T = lLast L"
    "rTurnLimit (lRoom T) = rTurnLimit (lRoom L)" "stStarted (lSess L) \<longrightarrow> stStarted (lSess T)"
    using assms(1) by (simp_all add: handled_def)
  obtain c where c: "rBattle (lRoom T) = Some c" "\<not> Over c"
    using assms(1) by (auto simp: handled_def over_def split: option.splits)
  have g: "lGrace (checkTurn now T) = lGrace T" "lSess (checkTurn now T) = lSess T" "lRoom (checkTurn now T) = lRoom T"
    by (simp_all add: checkTurn_def resetTurn_def split: option.split)
  have ct: "lTurn (checkTurn now T) =
      (if stStarted (lSess T) \<and> int (Turn c) \<noteq> lLast T then Some (now + turnLimitOf (lRoom T)) else lTurn T)"
    using c by (simp add: checkTurn_def resetTurn_def turnLimitOf_def)
  have last: "lLast T = (if stStarted (lSess L) then int (Turn b) else -1)"
  proof (cases "stStarted (lSess L)")
    case True
    with armed_started(2) [OF assms(2,3)] show ?thesis by (simp add: h(3))
  next
    case False
    moreover have "going L" using assms(2) unfolding armed_def by blast
    ultimately have "lLast L = -1" unfolding going_def by blast
    with False show ?thesis by (simp add: h(3))
  qed
  have "lTurn (checkTurn now T) = turnAfter now L T"
    using h(5) by (simp add: ct last h(2,4) turnAfter_def c(1) assms(3) turnLimitOf_def)
  moreover have "lGrace (checkTurn now T) = graceAfter now L (checkTurn now T)" "turnAfter now L (checkTurn now T) = turnAfter now L T"
    by (simp_all add: g h(1) graceAfter_def turnAfter_def)
  ultimately show ?thesis by (simp add: timed_def)
qed

text \<open>The commands.\<close>

lemma handled_quiet:
  assumes "graced L" "sends L' T" "rBattle (lRoom L') = Some c" "\<not> Over c"
    and "lSess L' = lSess L" "lGrace L' = lGrace L" "lTurn L' = lTurn L" "lLast L' = lLast L"
    "rTurnLimit (lRoom L') = rTurnLimit (lRoom L)"
  shows "handled now L T"
  using assms(1,3-9) unfolding handled_def
  by (auto simp: sendsD [OF assms(2)] graced_def graceAfter_def over_def)

lemma ensures_sends_then:
  assumes "sender f" "\<And>T. sends L T \<Longrightarrow> ensures P (\<lambda>_. True) (\<lambda>_. True) (g T)"
  shows "ensures P (\<lambda>_. True) (\<lambda>_. True) (andThen (onRoom f L) g)"
  by (rule ensures_andThen [where P' = "sends L"])
    (use ensures_mono [OF ensures_sender [OF assms(1)]] assms(2) in auto)

lemma ensures_handled:
  assumes "sender f" "\<And>T. sends L' T \<Longrightarrow> P T"
  shows "ensures P (\<lambda>_. True) (\<lambda>_. True) (onRoom f L')"
  by (rule ensures_mono [OF ensures_sender [OF assms(1)]]) (use assms(2) in auto)

lemma gameOver_ends: "ensures P (\<lambda>_. True) (\<lambda>_. True) (gameOver b L)"
  unfolding gameOver_def by (rule ensures_sends_then [OF sender_broadcast]) simp

lemma handleAction_handled:
  assumes g: "graced L" and b: "rBattle (lRoom L) = Some b" and n: "\<not> Over b"
  shows "ensures (handled now L) (\<lambda>_. True) (\<lambda>_. True) (handleAction env now c L)"
proof (cases "decodeAction env (cmdData c)")
  case (Inl e)
  then show ?thesis using b
    by (auto simp: handleAction_def intro!: ensures_handled sender_sendErr intro: handled_quiet [OF g _ b n])
next
  case (Inr a0)
  obtain b' e where ap: "Apply b (cmdPlayer c) (a0\<lparr>aType := cmdType c\<rparr>) = (b', e)"
    by (cases "Apply b (cmdPlayer c) (a0\<lparr>aType := cmdType c\<rparr>)")
  show ?thesis
  proof (cases e)
    case (Some x)
    then have "b' = b" using ap Apply_rejected_same by simp
    with Some Inr ap b n show ?thesis
      by (auto simp: handleAction_def intro!: ensures_handled sender_sendErr
          intro: handled_quiet [OF g, where L' = "L\<lparr>lRoom := (lRoom L)\<lparr>rBattle := Some b\<rparr>\<rparr>" and c = b])
  next
    case None
    have "handleAction env now c L =
        andThen (onRoom pushState (recorded env now b' (cmdPlayer c) (cmdType c) (cmdData c) False L))
          (\<lambda>L. if Over b' then gameOver b' L else (L, Stay))"
      using b Inr ap None by (simp add: handleAction_def recorded_def Let_def)
    moreover have "ensures (handled now L) (\<lambda>_. True) (\<lambda>_. True) (if Over b' then gameOver b' T else (T, Stay))"
      if "sends (recorded env now b' (cmdPlayer c) (cmdType c) (cmdData c) False L) T" for T
    proof (cases "Over b'")
      case False
      have "rTurnLimit (lRoom (recorded env now b' (cmdPlayer c) (cmdType c) (cmdData c) False L)) = rTurnLimit (lRoom L)"
        by (simp add: recorded_def recordEntry_def)
      with handled_quiet [OF g that _ False] False show ?thesis by simp
    qed (simp add: gameOver_ends)
    ultimately show ?thesis by (simp add: ensures_sends_then sender_pushState)
  qed
qed

lemma handleJoin_handled:
  assumes b: "rBattle (lRoom L) = Some b" and n: "\<not> Over b"
  shows "ensures (handled now L) (\<lambda>_. True) (\<lambda>_. True) (handleJoin now c L)"
proof -
  let ?st = "(lSess L)\<lparr>stJoined := AList.update (cmdPlayer c) True (stJoined (lSess L)),
      stOnline := AList.update (cmdPlayer c) True (stOnline (lSess L))\<rparr>"
  let ?L1 = "cancelGrace (L\<lparr>lSess := ?st\<rparr>)" and ?both = "countTrue (stOnline ?st) = 2"
  have h: "handled now L U"
    if "lSess U = ?st \<or> lSess U = ?st\<lparr>stStarted := True\<rparr>" "lGrace U = None" "lTurn U = lTurn L" "lLast U = lLast L"
      "rTurnLimit (lRoom U) = rTurnLimit (lRoom L)" "rBattle (lRoom U) = Some b" for U
    using that n countTrue_join [of "cmdPlayer c" "stOnline (lSess L)"]
    by (auto simp: handled_def graceAfter_def nobody_def over_def)
  have rest: "ensures (handled now L) (\<lambda>_. True) (\<lambda>_. True)
      (case rBattle (lRoom T) of
         None \<Rightarrow> (T, Stay)
       | Some _ \<Rightarrow>
           if \<not> stStarted (lSess T) \<and> ?both then
             onRoom pushState (T\<lparr>lSess := (lSess T)\<lparr>stStarted := True\<rparr>, lRoom := (lRoom T)\<lparr>rStartedAt := Some now\<rparr>\<rparr>)
           else if stStarted (lSess T) then onRoom (sendView (cmdPlayer c)) T else (T, Stay))"
    if T: "sends ?L1 T" for T
  proof -
    have f: "lSess T = ?st" "lGrace T = None" "lTurn T = lTurn L" "lLast T = lLast L"
      "rTurnLimit (lRoom T) = rTurnLimit (lRoom L)" "rBattle (lRoom T) = Some b"
      by (simp_all add: sendsD [OF T] cancelGrace_def b)
    have "handled now L U" if "sends T U" for U
      by (rule h) (simp_all add: sendsD [OF that] f)
    moreover have "handled now L U"
      if "sends (T\<lparr>lSess := (lSess T)\<lparr>stStarted := True\<rparr>, lRoom := (lRoom T)\<lparr>rStartedAt := Some now\<rparr>\<rparr>) U" for U
      by (rule h) (simp_all add: sendsD [OF that] f)
    ultimately show ?thesis
      by (auto simp: f(6) intro!: ensures_handled sender_pushState sender_sendView)
  qed
  have "handleJoin now c L = andThen (onRoom (status (if ?both then ''ready'' else ''waiting'')) ?L1)
      (\<lambda>T. case rBattle (lRoom T) of
         None \<Rightarrow> (T, Stay)
       | Some _ \<Rightarrow>
           if \<not> stStarted (lSess T) \<and> ?both then
             onRoom pushState (T\<lparr>lSess := (lSess T)\<lparr>stStarted := True\<rparr>, lRoom := (lRoom T)\<lparr>rStartedAt := Some now\<rparr>\<rparr>)
           else if stStarted (lSess T) then onRoom (sendView (cmdPlayer c)) T else (T, Stay))"
    by (simp add: handleJoin_def Let_def)
  with ensures_sends_then [OF sender_status rest] show ?thesis by simp
qed

lemma handleLeave_handled:
  assumes g: "graced L" and b: "rBattle (lRoom L) = Some b" and n: "\<not> Over b"
  shows "ensures (handled now L) (\<lambda>_. True) (\<lambda>_. True) (handleLeave now c L)"
proof -
  let ?st = "(lSess L)\<lparr>stOnline := AList.update (cmdPlayer c) False (stOnline (lSess L))\<rparr>"
  let ?L1 = "L\<lparr>lSess := ?st\<rparr>"
  show ?thesis
  proof (cases "countTrue (stOnline ?st) = 0")
    case True
    then have "handled now L (startGrace now ?L1)"
      using b n by (auto simp: handled_def startGrace_def graceAfter_def nobody_def over_def graceOf_def split: option.split)
    with True show ?thesis by (simp add: handleLeave_def Let_def)
  next
    case False
    then have "lGrace L = None"
      using g countTrue_leave [of "cmdPlayer c" "stOnline (lSess L)"] by (auto simp: graced_def nobody_def)
    then have "handled now L T" if "sends ?L1 T" for T
      using False b n by (auto simp: handled_def sendsD [OF that] graceAfter_def nobody_def over_def)
    with False show ?thesis by (auto simp: handleLeave_def Let_def intro!: ensures_handled sender_status)
  qed
qed

lemma handle_handled:
  assumes "graced L" "rBattle (lRoom L) = Some b" "\<not> Over b"
  shows "ensures (handled now L) (\<lambda>_. True) (\<lambda>_. True) (handle env now c L)"
  using handleAction_handled [OF assms] handleJoin_handled [OF assms(2,3)] handleLeave_handled [OF assms]
    handled_quiet [OF assms(1) sends_refl assms(2,3)]
  by (simp add: handle_def)

lemma onCmd_timed:
  assumes "graced L" "armed L" "rBattle (lRoom L) = Some b" "\<not> Over b"
  shows "ensures (timed now L) (\<lambda>_. True) (\<lambda>_. True) (onCmd env now c L)"
  unfolding onCmd_def
  by (rule ensures_andThen [OF handle_handled [OF assms(1,3,4)]]) (simp add: timed_checkTurn [OF _ assms(2,3)])

text \<open>The end of the turn.\<close>

lemma auto_turn:
  assumes "Apply b pid autoEndTurn = (b', None)" "invar_game b"
  shows "Turn b' = 1 - Turn b"
proof -
  have len: "length (Players b) = 2" using assms(2) by (simp add: invar_game_def wf_stateD(1))
  then show ?thesis
    by (cases rule: Apply_cases [where pid = pid and a = autoEndTurn])
      (use assms(1) len in \<open>auto simp: autoEndTurn_def\<close>)
qed

lemma onTurn_timed:
  assumes g: "graced L" and arm: "armed L" and b: "rBattle (lRoom L) = Some b" "\<not> Over b" "invar_game b"
    and st: "stStarted (lSess L)"
  shows "ensures (timed now L) (\<lambda>_. True) (\<lambda>_. True) (onTurn env now L)"
proof -
  let ?pid = "pID (player b (Turn b))" and ?M = "L\<lparr>lTurn := None\<rparr>"
  obtain b' where ap: "Apply b ?pid autoEndTurn = (b', None)" using auto_accepted [OF b(3,2)] by blast
  let ?R = "recorded env now b' ?pid ''end_turn'' [] True ?M"
  have "Turn b < 2" using b(3) by (simp add: invar_game_def wf_stateD(2))
  with auto_turn [OF ap b(3)] have turn: "Turn b' \<noteq> Turn b" by auto
  have eq: "onTurn env now L = andThen (onRoom pushState ?R) (\<lambda>T. if Over b' then gameOver b' T else (checkTurn now T, Stay))"
    using b(1) ap by (simp add: onTurn_def recorded_def Let_def)
  have lim: "rTurnLimit (lRoom ?R) = rTurnLimit (lRoom L)" by (simp add: recorded_def recordEntry_def)
  have "ensures (timed now L) (\<lambda>_. True) (\<lambda>_. True) (if Over b' then gameOver b' T else (checkTurn now T, Stay))"
    if T: "sends ?R T" for T
  proof (cases "Over b'")
    case False
    have "lLast L = int (Turn b)" by (rule armed_started(2) [OF arm b(1) st])
    then have c: "checkTurn now T = resetTurn now (T\<lparr>lLast := int (Turn b')\<rparr>)"
      using False turn st by (simp add: checkTurn_def sendsD [OF T])
    have "timed now L (checkTurn now T)"
      using g st turn unfolding c
      by (simp add: timed_def graceAfter_def turnAfter_def graced_def resetTurn_def turnLimitOf_def sendsD [OF T] lim b(1))
        (auto split: option.split)
    with False show ?thesis by simp
  qed (simp add: gameOver_ends)
  then show ?thesis unfolding eq by (rule ensures_sends_then [OF sender_pushState])
qed

lemma settle_timed:
  assumes "ensures P (\<lambda>_. True) (\<lambda>_. True) x" "sRunning (settle reason x S)" "sRunning S"
  shows "P (sLoop (settle reason x S))"
  using assms by (cases x; cases "snd x") (simp_all add: settle_def)

lemma step_timed:
  assumes ok: "sys_ok env s0 S" and inv: "invar_game s0" and g: "graced (sLoop S)" and run: "sRunning S"
    and e: "step env e S = Some T" and T: "sRunning T"
  shows "timed (sNow S) (sLoop S) (sLoop T)"
proof -
  let ?L = "sLoop S"
  have safe: "safe env s0 (sNow S) ?L" and arm: "armed ?L" using ok run by (simp_all add: sys_ok_def)
  from safe have gp: "game_part env s0 ?L" by (simp add: safe_parts)
  then obtain b where b: "rBattle (lRoom ?L) = Some b" by (auto simp: game_part_def)
  have ib: "invar_game b" by (rule game_battle(1) [OF gp inv b])
  have n: "\<not> Over b" using goingD(1) [OF armed_going [OF arm]] b by (simp add: over_def)
  show ?thesis
  proof (cases e)
    case (Arrive c)
    obtain q where "fst (Send c (lRoom ?L)) = (lRoom ?L)\<lparr>rInbox := q\<rparr>" using Send_frame by blast
    with Arrive e have "sLoop T = ?L\<lparr>lRoom := (lRoom ?L)\<lparr>rInbox := q\<rparr>\<rparr>" by (auto simp: Let_def split: prod.splits)
    then show ?thesis by (intro timed_same [OF g]) simp_all
  next
    case TakeCmd
    with e run obtain c rest where
      x: "T = settle ''finished'' (onCmd env (sNow S) c (?L\<lparr>lRoom := (lRoom ?L)\<lparr>rInbox := rest\<rparr>\<rparr>)) S"
      by (auto simp: Let_def split: list.splits if_splits)
    let ?M = "?L\<lparr>lRoom := (lRoom ?L)\<lparr>rInbox := rest\<rparr>\<rparr>"
    have "graced ?M = graced ?L" "armed ?M = armed ?L" by (simp_all add: graced_def armed_def going_def over_def)
    with g arm have "graced ?M" "armed ?M" by blast+
    from onCmd_timed [OF this _ n] b have "ensures (timed (sNow S) ?M) (\<lambda>_. True) (\<lambda>_. True) (onCmd env (sNow S) c ?M)" by simp
    from settle_timed [OF this T [unfolded x] run] have "timed (sNow S) ?M (sLoop T)" unfolding x .
    moreover have "graceOf (lRoom ?M) = graceOf (lRoom ?L)" "turnLimitOf (lRoom ?M) = turnLimitOf (lRoom ?L)"
      by (simp_all add: graceOf_def turnLimitOf_def)
    then have "timed (sNow S) ?M (sLoop T) = timed (sNow S) ?L (sLoop T)"
      by (auto simp: timed_def graceAfter_def turnAfter_def cong: option.case_cong)
    ultimately show ?thesis by blast
  next
    case TurnFires
    with e obtain d where d: "lTurn ?L = Some d" and x: "T = settle ''finished'' (onTurn env (sNow S) ?L) S"
      by (auto split: option.splits if_splits)
    have "stStarted (lSess ?L)" by (rule goingD(2) [OF armed_going [OF arm]]) (simp add: d)
    from settle_timed [OF onTurn_timed [OF g arm b n ib this] T [unfolded x] run] show ?thesis unfolding x .
  qed (use e T run in \<open>auto simp: settle_def intro!: timed_same [OF g] split: option.splits if_splits\<close>)
qed

lemma step_running: "step env e S = Some T \<Longrightarrow> sRunning T \<Longrightarrow> sRunning S"
  by (cases e) (auto simp: Let_def split: prod.splits list.splits option.splits if_splits)

lemma reach_graced:
  assumes "hosts env s0 r" and "reach env (initSystem now r) S"
  shows "sRunning S \<Longrightarrow> graced (sLoop S)"
  using assms(2)
proof (induction rule: reach.induct)
  case init
  show ?case by (simp add: initSystem_def initLoop_def graced_def nobody_def newSession_def)
next
  case (step S e T)
  have run: "sRunning S" using step.hyps(2) step.prems by (rule step_running)
  have "invar_game s0" using assms(1) by (simp add: hosts_def)
  from step_timed [OF hosts_reach [OF assms(1) step.hyps(1)] this step.IH [OF run] run step.hyps(2) step.prems]
  show ?case by (rule timed_graced)
qed

section \<open>A room whose players do nothing\<close>

text \<open>The events that are a case of the loop.\<close>

definition loopEvents :: "Event list \<Rightarrow> nat" where
  "loopEvents es = length (filter (\<lambda>e. e = TakeCmd \<or> e = GraceFires \<or> e = TurnFires \<or> e = SeeDone) es)"

lemma loopEvents_simps [simp]:
  "loopEvents [] = 0" "loopEvents (Tick d # es) = loopEvents es" "loopEvents (Cancel # es) = loopEvents es"
  "loopEvents (TakeCmd # es) = Suc (loopEvents es)" "loopEvents (GraceFires # es) = Suc (loopEvents es)"
  "loopEvents (TurnFires # es) = Suc (loopEvents es)" "loopEvents (SeeDone # es) = Suc (loopEvents es)"
  by (simp_all add: loopEvents_def)

text \<open>How a started room has ended: the game, a missing pair of players since \<open>grace\<close>, or a cancellation.\<close>

definition ended :: "int option \<Rightarrow> bool \<Rightarrow> bool \<Rightarrow> System \<Rightarrow> bool" where
  "ended grace cancelled reports T \<longleftrightarrow>
     (\<exists>b why. rBattle (lRoom (sLoop T)) = Some b \<and>
        (reports \<longrightarrow> map repReason (rReports (lRoom (sLoop T))) = [why]) \<and>
        (why = ''finished'' \<and> Over b \<or>
         why = ''abandoned'' \<and> \<not> Over b \<and> (\<exists>d. grace = Some d \<and> d \<le> sNow T) \<or>
         why = ''aborted'' \<and> \<not> Over b \<and> cancelled))"

text \<open>A closed room only sees time pass and is cancelled again.\<close>

lemma closed_run:
  assumes "run env es S = Some T" "\<not> sRunning S" "\<forall>c. Arrive c \<notin> set es" "ended g k h S"
  shows "\<not> sRunning T \<and> loopEvents es = 0 \<and> ended g k h T"
  using assms
proof (induction es arbitrary: S)
  case (Cons e es)
  then obtain S' where S': "step env e S = Some S'" "run env es S' = Some T" by (auto split: option.splits)
  show ?case
  proof (cases e)
    case (Tick d)
    moreover from this have "ended g k h S'" using S'(1) Cons.prems(4) by (auto simp: ended_def)
    ultimately show ?thesis using Cons.IH [OF S'(2)] Cons.prems S'(1) by auto
  next
    case Cancel
    moreover from this have "ended g k h S'" using S'(1) Cons.prems(4) by (auto simp: ended_def)
    ultimately show ?thesis using Cons.IH [OF S'(2)] Cons.prems S'(1) by auto
  qed (use Cons.prems S'(1) in \<open>auto split: list.splits option.splits\<close>)
qed simp

lemma ended_exit:
  assumes "rBattle (lRoom L) = Some b" "stStarted (lSess L)" "rReports (lRoom L) = []" "rOnFinish (lRoom L) = h"
    and "Over b \<or> reason = ''abandoned'' \<and> (\<exists>d. g = Some d \<and> d \<le> sNow S) \<or> reason = ''aborted'' \<and> k"
  shows "ended g k h (S\<lparr>sLoop := exitRun now reason False L, sRunning := False\<rparr>)"
proof -
  have "rBattle (lRoom (exitRun now reason False L)) = Some b" using assms(1) by simp
  moreover have "h \<longrightarrow> map repReason (rReports (lRoom (exitRun now reason False L))) = [if Over b then ''finished'' else reason]"
    using assms(1-4) by (simp add: exitRun_def finish_def Let_def)
  ultimately show ?thesis
    unfolding ended_def using assms(5)
    by (intro exI [of _ b] exI [of _ "if Over b then ''finished'' else reason"]) auto
qed

text \<open>What the timeout of a turn leaves.\<close>

lemma timeout_step:
  assumes ok: "sys_ok env s0 S" and inv: "invar_game s0" and run: "sRunning S"
    and st: "stStarted (lSess (sLoop S))" and q: "quiet (lRoom (sLoop S))"
    and b: "rBattle (lRoom (sLoop S)) = Some b" "invar_game b" and e: "step env TurnFires S = Some T"
  obtains b' where "rBattle (lRoom (sLoop T)) = Some b'" "invar_game b'" "fuel b' < fuel b" "sNow T = sNow S"
    "sRunning T \<longleftrightarrow> \<not> Over b'" "sRunning T \<Longrightarrow> quiet (lRoom (sLoop T)) \<and> lSess (sLoop T) = lSess (sLoop S) \<and>
      lGrace (sLoop T) = lGrace (sLoop S) \<and> rInbox (lRoom (sLoop T)) = rInbox (lRoom (sLoop S)) \<and>
      rCancelled (lRoom (sLoop T)) = rCancelled (lRoom (sLoop S)) \<and> rOnFinish (lRoom (sLoop T)) = rOnFinish (lRoom (sLoop S))"
    "\<not> sRunning T \<Longrightarrow> ended g k (rOnFinish (lRoom (sLoop S))) T"
proof -
  let ?L = "sLoop S" and ?now = "sNow S" and ?pid = "pID (player b (Turn b))"
  have safe: "safe env s0 ?now ?L" and arm: "armed ?L" using ok run by (simp_all add: sys_ok_def)
  have n: "\<not> Over b" using goingD(1) [OF armed_going [OF arm]] b by (simp add: over_def)
  obtain b' where ap: "Apply b ?pid autoEndTurn = (b', None)" using auto_accepted [OF b(2) n] by blast
  have f: "fuel b' < fuel b" by (rule game_rules.accept_decreases [OF b(2) ap])
  have ib: "invar_game b'" using game_rules.invar_app [OF b(2), of ?pid autoEndTurn] ap by simp
  let ?R = "recorded env ?now b' ?pid ''end_turn'' [] True (?L\<lparr>lTurn := None\<rparr>)"
  have R: "rInbox (lRoom ?R) = rInbox (lRoom ?L)" "rCancelled (lRoom ?R) = rCancelled (lRoom ?L)"
    "rOnFinish (lRoom ?R) = rOnFinish (lRoom ?L)" "rOut (lRoom ?R) = rOut (lRoom ?L)" "rReports (lRoom ?R) = []"
    using safe by (simp_all add: recorded_def recordEntry_def safe_def)
  have calm: "\<exists>P. onRoom g L = (P, Stay) \<and> sends L P" if "sender g" "calm g" "quiet (lRoom L)" for g L
    using that ensures_sender [OF that(1), of L] unfolding calm_def onRoom_def
    by (cases "g (lRoom L)") (force simp: ensures_def)
  have "quiet (lRoom ?R)" using q R(4) by (simp add: quiet_def)
  from calm [OF sender_pushState calm_pushState this] obtain P where P: "onRoom pushState ?R = (P, Stay)" "sends ?R P" by blast
  have x: "T = settle ''finished'' (if Over b' then gameOver b' P else (checkTurn ?now P, Stay)) S"
    using e b(1) ap P(1) by (auto simp: onTurn_def recorded_def andThen_def Let_def split: option.splits if_splits)
  show thesis
  proof (cases "Over b'")
    case True
    have "quiet (lRoom P)" using q R(4) by (simp add: quiet_def sendsD [OF P(2)])
    from calm [OF sender_broadcast calm_broadcast this] obtain G
      where G: "onRoom (broadcast (PGameOver (Winner b'))) P = (G, Stay)" "sends P G" by blast
    have T: "T = S\<lparr>sLoop := exitRun ?now ''finished'' False G, sRunning := False\<rparr>"
      using x True G(1) by (simp add: gameOver_def andThen_def settle_def)
    have "ended g k (rOnFinish (lRoom ?L)) T"
      unfolding T by (rule ended_exit) (use st True R in \<open>simp_all add: sendsD [OF G(2)] sendsD [OF P(2)]\<close>)
    moreover have "rBattle (lRoom (sLoop T)) = Some b'" by (simp add: T sendsD [OF G(2)] sendsD [OF P(2)])
    ultimately show ?thesis using that [of b'] ib f True by (simp add: T)
  next
    case False
    have c: "lRoom (checkTurn ?now P) = lRoom P" "lSess (checkTurn ?now P) = lSess P" "lGrace (checkTurn ?now P) = lGrace P"
      by (simp_all add: checkTurn_def resetTurn_def split: option.split)
    have T: "T = S\<lparr>sLoop := checkTurn ?now P\<rparr>" using x False by (simp add: settle_def)
    have "quiet (lRoom P)" using q R(4) by (simp add: quiet_def sendsD [OF P(2)])
    then show ?thesis using that [of b'] ib f False run R by (simp add: T c sendsD [OF P(2)])
  qed
qed

text \<open>Nothing can arrive; time passes and the loop goes on as it likes.\<close>

lemma idle_run:
  assumes inv: "invar_game s0" "decoder_ok env"
  shows "sys_ok env s0 S \<Longrightarrow> sRunning S \<Longrightarrow> stStarted (lSess (sLoop S)) \<Longrightarrow> quiet (lRoom (sLoop S)) \<Longrightarrow>
    rInbox (lRoom (sLoop S)) = [] \<Longrightarrow> rBattle (lRoom (sLoop S)) = Some b \<Longrightarrow> invar_game b \<Longrightarrow>
    run env es S = Some T \<Longrightarrow> \<forall>c. Arrive c \<notin> set es \<Longrightarrow>
    (sRunning T \<longrightarrow> loopEvents es \<le> fuel b \<and> sys_ok env s0 T \<and> stStarted (lSess (sLoop T)) \<and> quiet (lRoom (sLoop T)) \<and>
       lGrace (sLoop T) = lGrace (sLoop S)) \<and>
    (\<not> sRunning T \<longrightarrow> loopEvents es \<le> Suc (fuel b) \<and>
       ended (lGrace (sLoop S)) (rCancelled (lRoom (sLoop S)) \<or> Cancel \<in> set es) (rOnFinish (lRoom (sLoop S))) T)"
proof (induction es arbitrary: S b)
  case (Cons e es)
  let ?L = "sLoop S"
  obtain S' where S': "step env e S = Some S'" "run env es S' = Some T" using Cons.prems(8) by (auto split: option.splits)
  have ok': "sys_ok env s0 S'" by (rule step_ok [OF Cons.prems(1) inv S'(1)])
  have es: "\<forall>c. Arrive c \<notin> set es" using Cons.prems(9) by simp
  have safe: "safe env s0 (sNow S) ?L" using Cons.prems(1,2) by (simp add: sys_ok_def)
  have closes: ?case if "e = GraceFires \<or> e = SeeDone" "S' = S\<lparr>sLoop := exitRun (sNow S) reason False ?L, sRunning := False\<rparr>"
    "reason = ''abandoned'' \<and> (\<exists>d. lGrace ?L = Some d \<and> d \<le> sNow S) \<or> reason = ''aborted'' \<and> rCancelled (lRoom ?L)" for reason
  proof -
    have "ended (lGrace ?L) (rCancelled (lRoom ?L) \<or> Cancel \<in> set (e # es)) (rOnFinish (lRoom ?L)) S'"
      unfolding that(2) using safe that(3)
      by (intro ended_exit [OF Cons.prems(6,3)]) (auto simp: safe_def)
    from closed_run [OF S'(2) _ es this] that show ?thesis by auto
  qed
  show ?case
  proof (cases e)
    case (Arrive c)
    with Cons.prems(9) show ?thesis by (meson list.set_intros(1))
  next
    case (Tick d)
    then have x: "S' = S\<lparr>sNow := sNow S + int d\<rparr>" using S'(1) by simp
    from Cons.IH [OF ok' _ _ _ _ _ Cons.prems(7) S'(2) es] Cons.prems show ?thesis by (simp add: x Tick)
  next
    case Cancel
    then have x: "S' = S\<lparr>sLoop := ?L\<lparr>lRoom := (lRoom ?L)\<lparr>rCancelled := True\<rparr>\<rparr>\<rparr>" using S'(1) by simp
    from Cons.IH [OF ok' _ _ _ _ _ Cons.prems(7) S'(2) es] Cons.prems show ?thesis by (simp add: x Cancel quiet_def)
  next
    case TakeCmd
    with S'(1) Cons.prems(5) show ?thesis by simp
  next
    case GraceFires
    with S'(1) show ?thesis by (intro closes [of "''abandoned''"]) (auto simp: settle_def split: option.splits if_splits)
  next
    case SeeDone
    with S'(1) show ?thesis by (intro closes [of "''aborted''"]) (auto simp: settle_def split: if_splits)
  next
    case TurnFires
    let ?k = "rCancelled (lRoom ?L) \<or> Cancel \<in> set (e # es)"
    obtain b' where b': "rBattle (lRoom (sLoop S')) = Some b'" "invar_game b'" "fuel b' < fuel b"
      "sRunning S' \<Longrightarrow> quiet (lRoom (sLoop S')) \<and> lSess (sLoop S') = lSess ?L \<and> lGrace (sLoop S') = lGrace ?L \<and>
        rInbox (lRoom (sLoop S')) = rInbox (lRoom ?L) \<and> rCancelled (lRoom (sLoop S')) = rCancelled (lRoom ?L) \<and>
        rOnFinish (lRoom (sLoop S')) = rOnFinish (lRoom ?L)"
      "\<not> sRunning S' \<Longrightarrow> ended (lGrace ?L) ?k (rOnFinish (lRoom ?L)) S'"
      using timeout_step [OF Cons.prems(1) inv(1) Cons.prems(2-4,6,7) S'(1) [unfolded TurnFires]] by metis
    show ?thesis
    proof (cases "sRunning S'")
      case True
      from Cons.IH [OF ok' True _ _ _ b'(1,2) S'(2) es] b'(3,4) True Cons.prems(3,5)
      show ?thesis by (auto simp: TurnFires)
    next
      case False
      from closed_run [OF S'(2) False es b'(5) [OF False]] show ?thesis using TurnFires by simp
    qed
  qed
qed simp

text \<open>Waiting long enough lets a timer fire.\<close>

lemma wait_grace:
  assumes "sRunning T" "lGrace (sLoop T) = Some d"
  shows "\<exists>n U. run env [Tick n, GraceFires] T = Some U \<and> \<not> sRunning U"
  using assms by (intro exI [of _ "nat (d - sNow T)"]) (simp add: settle_def)

lemma wait_turn:
  assumes "sRunning T" "lTurn (sLoop T) = Some d"
  shows "\<exists>n U. run env [Tick n, TurnFires] T = Some U"
  using assms by (intro exI [of _ "nat (d - sNow T)"]) simp

section \<open>Properties\<close>

text \<open>
  C16. While a room runs, its game is not over and no report has been made; the turn timer is
  armed if and only if the session has started, and the grace timer if and only if no player is
  online after somebody has come or gone. Every event sets the two deadlines as it should: the
  grace timer is started when the last player goes (and not put off by another \<open>leave\<close>), for
  the room's grace from then, and stopped when one comes; the turn timer is set, for the room's
  limit from then, when the session starts and when the turn passes on, and left alone by
  everything else.
\<close>
theorem room_timers:
  assumes "hosts env s0 r" and "reach env (initSystem now r) S" and "sRunning S"
  shows "(\<exists>b. rBattle (lRoom (sLoop S)) = Some b \<and> \<not> Over b) \<and> rReports (lRoom (sLoop S)) = [] \<and>
    (lTurn (sLoop S) \<noteq> None \<longleftrightarrow> stStarted (lSess (sLoop S))) \<and>
    (lGrace (sLoop S) \<noteq> None \<longleftrightarrow> nobody (lSess (sLoop S))) \<and>
    (\<forall>e T. step env e S = Some T \<and> sRunning T \<longrightarrow>
       lGrace (sLoop T) = graceAfter (sNow S) (sLoop S) (sLoop T) \<and>
       lTurn (sLoop T) = turnAfter (sNow S) (sLoop S) (sLoop T))"
proof -
  let ?L = "sLoop S"
  have ok: "sys_ok env s0 S" by (rule hosts_reach [OF assms(1,2)])
  have safe: "safe env s0 (sNow S) ?L" and arm: "armed ?L" using ok assms(3) by (simp_all add: sys_ok_def)
  from safe obtain b where b: "rBattle (lRoom ?L) = Some b" by (auto simp: safe_parts game_part_def)
  moreover have "\<not> Over b" using goingD(1) [OF armed_going [OF arm]] b by (simp add: over_def)
  moreover have "lTurn ?L \<noteq> None \<longleftrightarrow> stStarted (lSess ?L)"
    using goingD(2) [OF armed_going [OF arm]] armed_started(1) [OF arm b] by blast
  moreover have g: "graced ?L" by (rule reach_graced [OF assms])
  moreover have "timed (sNow S) ?L (sLoop T)" if "step env e S = Some T" "sRunning T" for e T
    using step_timed [OF ok _ g assms(3) that] assms(1) by (simp add: hosts_def)
  ultimately show ?thesis using safe unfolding safe_def graced_def timed_def by blast
qed

theorem room_timers_witness: "lTurn (sLoop sample_busy) \<noteq> None"
  using room_timers [OF sample_hosts sample_reach sample_busy_facts(1)] sample_busy_facts(2) by simp

text \<open>
  C17. What becomes of a started room whose players do nothing more, in every run from then on
  and however the loop chooses among its cases, provided \<open>Out\<close> does not panic. The loop turns
  at most once more than the battle has fuel; while the room runs, its turn timer fires after a
  wait, and so does its grace timer if no player is online, which closes it; and once it is
  closed, its one report says \<open>finished\<close> and the game is over, or \<open>abandoned\<close> after a grace
  that ran already when the players stopped, or \<open>aborted\<close> after a cancellation. So with
  somebody online and no cancellation, the game comes to its end by turn timeouts.
\<close>
theorem idle_room_finishes:
  assumes "hosts env s0 r" and "reach env (initSystem now r) S" and "sRunning S"
    and "stStarted (lSess (sLoop S))" and "quiet (lRoom (sLoop S))" and "rInbox (lRoom (sLoop S)) = []"
    and "run env es S = Some T" and "\<forall>c. Arrive c \<notin> set es"
  shows "\<exists>b. rBattle (lRoom (sLoop S)) = Some b \<and> loopEvents es \<le> fuel b + 1 \<and>
    (sRunning T \<longrightarrow> loopEvents es \<le> fuel b \<and> (\<exists>n U. run env [Tick n, TurnFires] T = Some U) \<and>
       (nobody (lSess (sLoop S)) \<longrightarrow> (\<exists>n U. run env [Tick n, GraceFires] T = Some U \<and> \<not> sRunning U))) \<and>
    (\<not> sRunning T \<longrightarrow>
       ended (lGrace (sLoop S)) (rCancelled (lRoom (sLoop S)) \<or> Cancel \<in> set es) (rOnFinish (lRoom (sLoop S))) T) \<and>
    (\<not> sRunning T \<and> \<not> nobody (lSess (sLoop S)) \<and> \<not> rCancelled (lRoom (sLoop S)) \<and> Cancel \<notin> set es \<longrightarrow>
       (\<exists>b'. rBattle (lRoom (sLoop T)) = Some b' \<and> Over b'))"
proof -
  have inv: "invar_game s0" "decoder_ok env" using assms(1) by (simp_all add: hosts_def)
  have ok: "sys_ok env s0 S" by (rule hosts_reach [OF assms(1,2)])
  obtain b where b: "rBattle (lRoom (sLoop S)) = Some b" "invar_game b"
    by (rule sound_battle [OF hosts_sound [OF assms(1,2)] inv(1)])
  note idle = idle_run [OF inv ok assms(3-6) b assms(7,8)]
  have g: "lGrace (sLoop S) \<noteq> None \<longleftrightarrow> nobody (lSess (sLoop S))"
    using reach_graced [OF assms(1-3)] by (simp add: graced_def)
  have "(\<exists>n U. run env [Tick n, TurnFires] T = Some U) \<and>
      (nobody (lSess (sLoop S)) \<longrightarrow> (\<exists>n U. run env [Tick n, GraceFires] T = Some U \<and> \<not> sRunning U))" if T: "sRunning T"
  proof -
    from idle T have t: "sys_ok env s0 T" "stStarted (lSess (sLoop T))" "lGrace (sLoop T) = lGrace (sLoop S)" by blast+
    have arm: "armed (sLoop T)" and "safe env s0 (sNow T) (sLoop T)" using t(1) T by (simp_all add: sys_ok_def)
    then obtain c where "rBattle (lRoom (sLoop T)) = Some c" by (auto simp: safe_parts game_part_def)
    from armed_started(1) [OF arm this t(2)] obtain d where "lTurn (sLoop T) = Some d" by blast
    with wait_turn [OF T this] wait_grace [OF T] g t(3) show ?thesis by (metis option.exhaust)
  qed
  moreover have "\<exists>b'. rBattle (lRoom (sLoop T)) = Some b' \<and> Over b'"
    if "\<not> sRunning T" "\<not> nobody (lSess (sLoop S))" "\<not> rCancelled (lRoom (sLoop S))" "Cancel \<notin> set es"
    using idle that g by (auto simp: ended_def)
  moreover have "loopEvents es \<le> fuel b + 1" using idle by (cases "sRunning T") auto
  ultimately show ?thesis using idle b(1) by blast
qed

theorem idle_room_finishes_witness:
  "\<exists>es T. run sample_env es sample_busy = Some T \<and> \<not> sRunning T \<and> loopEvents es \<le> fuel after_play + 1 \<and>
     ended None False True T"
proof -
  have q: "quiet (lRoom (sLoop sample_busy))" by (simp add: sample_busy_facts quiet_def)
  have b: "rBattle (lRoom (sLoop sample_busy)) = Some after_play" by (rule sample_busy_facts)
  have inv: "invar_game sample_state" "decoder_ok sample_env" "invar_game after_play"
    using sample_hosts sound_battle [OF hosts_sound [OF sample_hosts sample_reach] sample_invar] b
    by (auto simp: hosts_def)
  obtain es T where es: "idle es" "run sample_env es sample_busy = Some T" "\<not> sRunning T"
    using idle_finishes [OF inv(1,2) hosts_reach [OF sample_hosts sample_reach] sample_busy_facts(1,2) q b inv(3)] by blast
  then have "\<forall>c. Arrive c \<notin> set es" "Cancel \<notin> set es" by (auto simp: idle_def list_all_iff)
  moreover have "rInbox (lRoom (sLoop sample_busy)) = []" by (simp add: sample_busy_facts)
  ultimately show ?thesis
    using idle_room_finishes [OF sample_hosts sample_reach sample_busy_facts(1,2) q _ es(2)] es(2,3) b
    by (auto simp: sample_busy_facts)
qed

end
