(* ===== verification/Battle_Report.thy ===== *)
theory Battle_Report
  imports Room_Props
begin

text \<open>
  The row a finished game leaves in the database (\<open>internal/store/report.go\<close>), and
  \<open>toBattleReport\<close> and \<open>saveReport\<close> of \<open>server/main.go\<close>, which make it from the report of
  a room. The package \<open>encoding/json\<close> is a parameter \<open>Json\<close>; \<open>json_ok\<close> is what it documents
  of one report: what was marshalled reads back as it was, except that the raw data of an
  action may be formatted differently.
\<close>

record Json =
  marshalDecks :: "string list list \<Rightarrow> string + string"
  unmarshalDecks :: "string \<Rightarrow> string + string list \<times> string list"
  marshalLog :: "LogEntry list option \<Rightarrow> string + string"
  unmarshalLog :: "string \<Rightarrow> string + LogEntry list"

record BattleReport =
  brRoomID :: string
  brPlayerA :: string
  brPlayerB :: string
  brWinner :: string
  brEndReason :: string
  brSeed :: int
  brRounds :: int
  brInitDecksJSON :: string
  brActionsJSON :: string
  brCardsHash :: string
  brStartedAt :: "int option"
  brEndedAt :: int

text \<open>The slice of a log nothing was appended to is nil (\<open>None\<close>).\<close>

definition logSlice :: "LogEntry list \<Rightarrow> LogEntry list option" where
  "logSlice es = (if es = [] then None else Some es)"

definition toBattleReport :: "Json \<Rightarrow> string \<Rightarrow> Report \<Rightarrow> string + BattleReport" where
  "toBattleReport J cardsHash rep =
     (case marshalDecks J (repInitDecks rep) of
        Inl e \<Rightarrow> Inl e
      | Inr d \<Rightarrow>
          (let actions = (case logSlice (repActions rep) of None \<Rightarrow> Some [] | Some es \<Rightarrow> Some es)
           in case marshalLog J actions of
                Inl e \<Rightarrow> Inl e
              | Inr a \<Rightarrow>
                  Inr \<lparr>brRoomID = repRoomID rep, brPlayerA = repPlayers rep ! 0, brPlayerB = repPlayers rep ! 1,
                       brWinner = repWinner rep, brEndReason = repReason rep, brSeed = repSeed rep,
                       brRounds = repRounds rep, brInitDecksJSON = d, brActionsJSON = a,
                       brCardsHash = cardsHash, brStartedAt = repStartedAt rep, brEndedAt = repEndedAt rep\<rparr>))"

text \<open>
  \<open>saveReport\<close>: the statement is sent with a context of its own; an error is logged and
  nothing else happens. \<open>save\<close> is \<open>SaveBattleReport\<close> on the database.
\<close>

definition saveReport ::
  "Json \<Rightarrow> ('db \<Rightarrow> BattleReport \<Rightarrow> 'db) \<Rightarrow> string \<Rightarrow> Report \<Rightarrow> 'db \<Rightarrow> 'db" where
  "saveReport J save cardsHash rep db =
     (case toBattleReport J cardsHash rep of Inl _ \<Rightarrow> db | Inr br \<Rightarrow> save db br)"

section \<open>What reads back\<close>

text \<open>The same entry, up to the formatting of its data.\<close>

definition same_entry :: "Env \<Rightarrow> LogEntry \<Rightarrow> LogEntry \<Rightarrow> bool" where
  "same_entry env e f \<longleftrightarrow>
     f = e\<lparr>leData := leData f\<rparr> \<and> entryAction env f = entryAction env e"

definition json_ok :: "Json \<Rightarrow> Env \<Rightarrow> Report \<Rightarrow> bool" where
  "json_ok J env rep \<longleftrightarrow>
     (\<exists>d a log. marshalDecks J (repInitDecks rep) = Inr d \<and>
        unmarshalDecks J d = Inr (repInitDecks rep ! 0, repInitDecks rep ! 1) \<and>
        marshalLog J (Some (repActions rep)) = Inr a \<and> unmarshalLog J a = Inr log \<and>
        list_all2 (same_entry env) (repActions rep) log)"

lemma toBattleReport_Inr:
  assumes "json_ok J env rep"
  obtains br log where "toBattleReport J h rep = Inr br"
    "brRoomID br = repRoomID rep" "brPlayerA br = repPlayers rep ! 0" "brPlayerB br = repPlayers rep ! 1"
    "brWinner br = repWinner rep" "brEndReason br = repReason rep" "brSeed br = repSeed rep"
    "brRounds br = repRounds rep" "brCardsHash br = h" "brStartedAt br = repStartedAt rep"
    "brEndedAt br = repEndedAt rep"
    "unmarshalDecks J (brInitDecksJSON br) = Inr (repInitDecks rep ! 0, repInitDecks rep ! 1)"
    "unmarshalLog J (brActionsJSON br) = Inr log" "list_all2 (same_entry env) (repActions rep) log"
proof -
  from assms obtain d a log where j: "marshalDecks J (repInitDecks rep) = Inr d"
    "unmarshalDecks J d = Inr (repInitDecks rep ! 0, repInitDecks rep ! 1)"
    "marshalLog J (Some (repActions rep)) = Inr a" "unmarshalLog J a = Inr log"
    "list_all2 (same_entry env) (repActions rep) log"
    by (auto simp: json_ok_def)
  have "(case logSlice (repActions rep) of None \<Rightarrow> Some [] | Some es \<Rightarrow> Some es) = Some (repActions rep)"
    by (simp add: logSlice_def)
  with j that show ?thesis by (simp add: toBattleReport_def)
qed

lemma same_entryD:
  assumes "same_entry env e f"
  shows "leSeq f = leSeq e" "lePlayer f = lePlayer e" "leType f = leType e" "leAuto f = leAuto e"
    "leAtMs f = leAtMs e" "leHash f = leHash e" "entryAction env f = entryAction env e"
proof -
  have f: "f = e\<lparr>leData := leData f\<rparr>" using assms by (simp add: same_entry_def)
  show "leSeq f = leSeq e" "lePlayer f = lePlayer e" "leType f = leType e" "leAuto f = leAuto e"
    "leAtMs f = leAtMs e" "leHash f = leHash e"
    by (subst f, simp)+
  show "entryAction env f = entryAction env e" using assms by (simp add: same_entry_def)
qed

text \<open>So it decodes to the same steps.\<close>

lemma stepsFrom_same:
  "list_all2 (same_entry env) es fs \<Longrightarrow> stepsFrom env i fs = stepsFrom env i es"
proof (induction arbitrary: i rule: list_all2_induct)
  case (Cons e es f fs)
  from same_entryD [OF Cons.hyps(1)] Cons.IH show ?case by (simp cong: sum.case_cong)
qed simp

end
