(* ===== verification/Room_Manager.thy ===== *)
theory Room_Manager
  imports Room_Props
begin

text \<open>
  \<open>internal/room/manager.go\<close>: the rooms of the server by id. Rooms are shared objects: a
  \<open>*Room\<close> is an index into the list \<open>hSlots\<close> of all rooms ever made, each with the goroutine
  \<open>Create\<close> starts for it. One step is a call of \<open>Create\<close>, an event of one room, or the end of
  a goroutine whose \<open>Run\<close> has returned.
\<close>

record Slot =
  slId :: string
  slSys :: System
  slDone :: bool

record Manager =
  hRooms :: "(string \<times> nat) list"
  hSlots :: "Slot list"
  hWait :: nat

definition NewManager :: Manager where
  "NewManager = \<lparr>hRooms = [], hSlots = [], hWait = 0\<rparr>"

text \<open>The room \<open>Create\<close> sets up, and the call itself: the manager and the pointer it returns.\<close>

definition createdRoom ::
  "State \<Rightarrow> string \<Rightarrow> string \<Rightarrow> string \<Rightarrow> (nat \<Rightarrow> bool) option \<Rightarrow> bool \<Rightarrow> Room" where
  "createdRoom st i a b out onFinish =
     (NewRoom i a b out)\<lparr>rBattle := Some st, rOnFinish := onFinish\<rparr>"

definition Create ::
  "int \<Rightarrow> State \<Rightarrow> string \<Rightarrow> string \<Rightarrow> string \<Rightarrow> (nat \<Rightarrow> bool) option \<Rightarrow> bool \<Rightarrow> Manager \<Rightarrow> Manager \<times> nat" where
  "Create now st i a b out onFinish m =
     (let p = length (hSlots m)
      in (m\<lparr>hRooms := AList.update i p (hRooms m),
            hSlots := hSlots m @
              [\<lparr>slId = i, slSys = initSystem now (createdRoom st i a b out onFinish), slDone = False\<rparr>],
            hWait := hWait m + 1\<rparr>, p))"

definition GetRoom :: "Manager \<Rightarrow> string \<Rightarrow> nat option" where
  "GetRoom m i = map_of (hRooms m) i"

definition RoomCount :: "Manager \<Rightarrow> nat" where
  "RoomCount m = length (hRooms m)"

definition CloseRoom :: "System \<Rightarrow> System" where
  "CloseRoom S = S\<lparr>sLoop := (sLoop S)\<lparr>lRoom := (lRoom (sLoop S))\<lparr>rCancelled := True\<rparr>\<rparr>\<rparr>"

definition onSlot :: "nat \<Rightarrow> (System \<Rightarrow> System) \<Rightarrow> Slot list \<Rightarrow> Slot list" where
  "onSlot p f xs = xs[p := (xs ! p)\<lparr>slSys := f (slSys (xs ! p))\<rparr>]"

definition Remove :: "string \<Rightarrow> Manager \<Rightarrow> Manager" where
  "Remove i m =
     (let m' = m\<lparr>hRooms := AList.delete i (hRooms m)\<rparr>
      in case map_of (hRooms m) i of
           None \<Rightarrow> m'
         | Some p \<Rightarrow> m'\<lparr>hSlots := onSlot p CloseRoom (hSlots m)\<rparr>)"

text \<open>The end of the goroutine of room \<open>p\<close>: \<open>m.Remove(id)\<close>, then \<open>m.wg.Done()\<close>.\<close>

definition leaveRoom :: "nat \<Rightarrow> Manager \<Rightarrow> Manager" where
  "leaveRoom p m =
     (let m' = Remove (slId (hSlots m ! p)) m
      in m'\<lparr>hSlots := (hSlots m')[p := (hSlots m' ! p)\<lparr>slDone := True\<rparr>], hWait := hWait m' - 1\<rparr>)"

text \<open>\<open>Wait\<close> returns when the wait group is empty.\<close>

definition waitReturns :: "Manager \<Rightarrow> bool" where
  "waitReturns m \<longleftrightarrow> hWait m = 0"

inductive managed :: "Env \<Rightarrow> Manager \<Rightarrow> bool" for env where
  new: "managed env NewManager"
| create: "managed env m \<Longrightarrow> i \<notin> slId ` set (hSlots m) \<Longrightarrow>
    managed env (fst (Create now st i a b out onFinish m))"
| event: "managed env m \<Longrightarrow> p < length (hSlots m) \<Longrightarrow> step env e (slSys (hSlots m ! p)) = Some S \<Longrightarrow>
    managed env (m\<lparr>hSlots := onSlot p (\<lambda>_. S) (hSlots m)\<rparr>)"
| leave: "managed env m \<Longrightarrow> p < length (hSlots m) \<Longrightarrow> \<not> sRunning (slSys (hSlots m ! p)) \<Longrightarrow>
    \<not> slDone (hSlots m ! p) \<Longrightarrow> managed env (leaveRoom p m)"

section \<open>Lemmas\<close>

lemma length_onSlot [simp]: "length (onSlot p f xs) = length xs"
  by (simp add: onSlot_def)

lemma nth_onSlot:
  "q < length xs \<Longrightarrow>
     onSlot p f xs ! q = (if q = p then (xs ! p)\<lparr>slSys := f (slSys (xs ! p))\<rparr> else xs ! q)"
  by (simp add: onSlot_def nth_list_update)

lemma list_update_nth [simp]: "(map f xs)[p := f (xs ! p)] = map f xs"
  by (cases "p < length xs") (simp_all add: list_update_same_conv list_update_beyond)

lemma onSlot_same [simp]:
  "map slId (onSlot p f xs) = map slId xs" "map slDone (onSlot p f xs) = map slDone xs"
  by (simp_all add: onSlot_def map_update)

lemma step_stopped: "step env e S = Some T \<Longrightarrow> \<not> sRunning S \<Longrightarrow> \<not> sRunning T"
  by (cases e) (auto simp: Let_def split: option.splits list.splits if_splits prod.splits)

lemma length_update_new: "i \<notin> fst ` set al \<Longrightarrow> length (AList.update i p al) = Suc (length al)"
  by (induction al) auto

lemma length_delete:
  assumes "distinct (map fst al)" "map_of al i = Some p"
  shows "Suc (length (AList.delete i al)) = length al"
proof -
  have "i \<in> set (map fst al)" using assms(2) by (force dest: map_of_SomeD)
  moreover have "map fst (AList.delete i al) = remove1 i (map fst al)"
    unfolding delete_keys by (rule distinct_remove1_removeAll [OF assms(1), symmetric])
  then have "length (AList.delete i al) = length (remove1 i (map fst al))" by (metis length_map)
  moreover have "0 < length al" using assms(2) by (cases al) simp_all
  ultimately show ?thesis by (simp add: length_remove1)
qed

lemma length_filter_update:
  assumes "p < length xs" "P (xs ! p)" "\<not> P y"
  shows "Suc (length (filter P (xs[p := y]))) = length (filter P xs)"
proof -
  have "filter P xs = filter P (take p xs) @ xs ! p # filter P (drop (Suc p) xs)"
    using assms(1,2) by (metis filter.simps(2) filter_append id_take_nth_drop)
  with assms show ?thesis by (simp add: upd_conv_take_nth_drop)
qed

section \<open>The table of rooms\<close>

text \<open>It holds exactly the rooms whose goroutine has not ended, under their own ids.\<close>

definition live :: "Manager \<Rightarrow> nat \<Rightarrow> bool" where
  "live m p \<longleftrightarrow> p < length (hSlots m) \<and> \<not> slDone (hSlots m ! p)"

definition table_ok :: "Manager \<Rightarrow> bool" where
  "table_ok m \<longleftrightarrow>
     distinct (map slId (hSlots m)) \<and> distinct (map fst (hRooms m)) \<and>
     (\<forall>i p. map_of (hRooms m) i = Some p \<longleftrightarrow> live m p \<and> slId (hSlots m ! p) = i) \<and>
     length (hRooms m) = hWait m \<and>
     hWait m = length (filter (\<lambda>s. \<not> slDone s) (hSlots m)) \<and>
     (\<forall>p < length (hSlots m). slDone (hSlots m ! p) \<longrightarrow> \<not> sRunning (slSys (hSlots m ! p)))"

lemma table_okD:
  assumes "table_ok m"
  shows "distinct (map slId (hSlots m))" "distinct (map fst (hRooms m))"
    "map_of (hRooms m) i = Some p \<longleftrightarrow> live m p \<and> slId (hSlots m ! p) = i"
    "length (hRooms m) = hWait m" "hWait m = length (filter (\<lambda>s. \<not> slDone s) (hSlots m))"
    "p < length (hSlots m) \<Longrightarrow> slDone (hSlots m ! p) \<Longrightarrow> \<not> sRunning (slSys (hSlots m ! p))"
  using assms by (simp_all add: table_ok_def)

lemma Create_ok:
  assumes "table_ok m" "i \<notin> slId ` set (hSlots m)"
  shows "table_ok (fst (Create now st i a b out onFinish m))"
proof -
  let ?m = "fst (Create now st i a b out onFinish m)"
  note ok = table_okD [OF assms(1)]
  have fresh: "slId (hSlots m ! p) \<noteq> i" if "p < length (hSlots m)" for p
    using assms(2) that by (metis image_eqI nth_mem)
  have new: "i \<notin> fst ` set (hRooms m)"
  proof
    assume "i \<in> fst ` set (hRooms m)"
    then obtain p where "map_of (hRooms m) i = Some p" by (metis map_of_eq_None_iff option.exhaust)
    with ok(3) [of i p] fresh [of p] show False by (simp add: live_def)
  qed
  have live: "live ?m p \<longleftrightarrow> live m p \<or> p = length (hSlots m)" for p
    by (auto simp: live_def Create_def Let_def nth_append less_Suc_eq)
  have ids: "slId (hSlots ?m ! p) = (if p = length (hSlots m) then i else slId (hSlots m ! p))"
    if "live ?m p" for p
    using that by (auto simp: live_def Create_def Let_def nth_append less_Suc_eq)
  have "map_of (hRooms ?m) j = Some p \<longleftrightarrow> live ?m p \<and> slId (hSlots ?m ! p) = j" for j p
  proof (cases "j = i")
    case True
    have "map_of (hRooms ?m) j = Some p \<longleftrightarrow> p = length (hSlots m)"
      using True by (auto simp: Create_def Let_def update_conv)
    then show ?thesis using ids [of p] live [of p] fresh [of p] True by (auto simp: live_def)
  next
    case False
    have "map_of (hRooms ?m) j = Some p \<longleftrightarrow> live m p \<and> slId (hSlots m ! p) = j"
      using False ok(3) [of j p] by (simp add: Create_def Let_def update_conv)
    then show ?thesis using ids [of p] live [of p] False by (auto simp: live_def)
  qed
  moreover have "distinct (map slId (hSlots ?m))" using ok(1) assms(2) by (simp add: Create_def Let_def)
  moreover have "distinct (map fst (hRooms ?m))" using distinct_update [OF ok(2)] by (simp add: Create_def Let_def)
  moreover have "length (hRooms ?m) = hWait ?m" using length_update_new [OF new] ok(4) by (simp add: Create_def Let_def)
  moreover have "hWait ?m = length (filter (\<lambda>s. \<not> slDone s) (hSlots ?m))"
    using ok(5) by (simp add: Create_def Let_def)
  moreover have "\<not> sRunning (slSys (hSlots ?m ! p))" if "p < length (hSlots ?m)" "slDone (hSlots ?m ! p)" for p
    using that ok(6) [of p] by (auto simp: Create_def Let_def nth_append less_Suc_eq)
  ultimately show ?thesis unfolding table_ok_def by blast
qed

lemma event_ok:
  assumes "table_ok m" "p < length (hSlots m)" "step env e (slSys (hSlots m ! p)) = Some S"
  shows "table_ok (m\<lparr>hSlots := onSlot p (\<lambda>_. S) (hSlots m)\<rparr>)"
proof -
  let ?m = "m\<lparr>hSlots := onSlot p (\<lambda>_. S) (hSlots m)\<rparr>"
  note ok = table_okD [OF assms(1)]
  have "live ?m q \<longleftrightarrow> live m q" "slId (hSlots ?m ! q) = slId (hSlots m ! q)" if "q < length (hSlots m)" for q
    using that by (simp_all add: live_def nth_onSlot)
  then have "map_of (hRooms ?m) j = Some q \<longleftrightarrow> live ?m q \<and> slId (hSlots ?m ! q) = j" for j q
    using ok(3) [of j q] by (cases "q < length (hSlots m)") (simp_all add: live_def)
  moreover have "length (filter (\<lambda>s. \<not> slDone s) (hSlots ?m)) = length (filter (\<lambda>s. \<not> slDone s) (hSlots m))"
    using length_filter_map [of Not slDone "hSlots ?m"] length_filter_map [of Not slDone "hSlots m"]
    by (simp add: comp_def)
  moreover have "\<not> sRunning (slSys (hSlots ?m ! q))" if "q < length (hSlots ?m)" "slDone (hSlots ?m ! q)" for q
    using that ok(6) [of q] step_stopped [OF assms(3)] by (auto simp: nth_onSlot split: if_splits)
  ultimately show ?thesis using ok(1,2,4,5) by (simp add: table_ok_def)
qed

lemma leaveRoom_eq:
  assumes "table_ok m" "live m p"
  shows "leaveRoom p m = m\<lparr>hRooms := AList.delete (slId (hSlots m ! p)) (hRooms m),
    hSlots := (hSlots m)[p := (hSlots m ! p)\<lparr>slSys := CloseRoom (slSys (hSlots m ! p)), slDone := True\<rparr>],
    hWait := hWait m - 1\<rparr>"
proof -
  have "map_of (hRooms m) (slId (hSlots m ! p)) = Some p" using table_okD(3) [OF assms(1)] assms(2) by simp
  with assms(2) show ?thesis by (simp add: leaveRoom_def Remove_def Let_def onSlot_def live_def)
qed

lemma leave_ok:
  assumes "table_ok m" "live m p" "\<not> sRunning (slSys (hSlots m ! p))"
  shows "table_ok (leaveRoom p m)"
proof -
  let ?m = "leaveRoom p m" and ?i = "slId (hSlots m ! p)"
  note ok = table_okD [OF assms(1)] and eq = leaveRoom_eq [OF assms(1,2)]
  have p: "p < length (hSlots m)" "\<not> slDone (hSlots m ! p)" using assms(2) by (simp_all add: live_def)
  have look: "map_of (hRooms m) ?i = Some p" using ok(3) assms(2) by simp
  have live: "live ?m q \<longleftrightarrow> live m q \<and> q \<noteq> p" for q
    using p by (auto simp: eq live_def nth_list_update)
  have ids: "map slId (hSlots ?m) = map slId (hSlots m)" by (simp add: eq map_update)
  have id: "slId (hSlots ?m ! q) = slId (hSlots m ! q)" for q
    using p(1) by (cases "q = p") (simp_all add: eq)
  have same: "slId (hSlots m ! q) = ?i \<longleftrightarrow> q = p" if "live m q" for q
    using that p ok(1) by (auto simp: live_def distinct_conv_nth)
  have "map_of (hRooms ?m) j = Some q \<longleftrightarrow> live ?m q \<and> slId (hSlots ?m ! q) = j" for j q
    using ok(3) [of j q] same [of q] unfolding live id by (auto simp: eq delete_conv')
  moreover have "distinct (map fst (hRooms ?m))" using distinct_delete [OF ok(2)] by (simp add: eq)
  moreover have "length (hRooms ?m) = hWait ?m" using length_delete [OF ok(2) look] ok(4) by (simp add: eq)
  moreover have "hWait ?m = length (filter (\<lambda>s. \<not> slDone s) (hSlots ?m))"
    using length_filter_update [of p "hSlots m" "\<lambda>s. \<not> slDone s"
        "(hSlots m ! p)\<lparr>slSys := CloseRoom (slSys (hSlots m ! p)), slDone := True\<rparr>"] p ok(5) by (simp add: eq)
  moreover have "\<not> sRunning (slSys (hSlots ?m ! q))" if "q < length (hSlots ?m)" "slDone (hSlots ?m ! q)" for q
    using that ok(6) [of q] assms(3) p by (auto simp: eq nth_list_update CloseRoom_def split: if_splits)
  ultimately show ?thesis using ok(1) ids unfolding table_ok_def by simp
qed

lemma managed_ok: "managed env m \<Longrightarrow> table_ok m"
proof (induction rule: managed.induct)
  case new
  then show ?case by (simp add: table_ok_def NewManager_def live_def)
next
  case (create m i now st a b out onFinish)
  then show ?case by (intro Create_ok)
next
  case (event m p e S)
  then show ?case by (intro event_ok)
next
  case (leave m p)
  then show ?case by (intro leave_ok) (simp_all add: live_def)
qed

section \<open>Properties\<close>

text \<open>
  C22. As long as room ids are not reused, the manager's table holds exactly the rooms whose
  goroutine has not ended, under their ids; its length is the number of those rooms;
  \<open>Wait\<close> returns exactly when every goroutine has ended, with no room running any more; and
  the end of one room's goroutine leaves every other room as it is.
\<close>
theorem manager_table:
  assumes "managed env m"
  shows "(GetRoom m i = Some p \<longleftrightarrow>
      p < length (hSlots m) \<and> \<not> slDone (hSlots m ! p) \<and> slId (hSlots m ! p) = i) \<and>
    RoomCount m = length (filter (\<lambda>s. \<not> slDone s) (hSlots m)) \<and>
    (waitReturns m \<longleftrightarrow> (\<forall>s \<in> set (hSlots m). slDone s \<and> \<not> sRunning (slSys s))) \<and>
    (q < length (hSlots m) \<and> \<not> slDone (hSlots m ! q) \<longrightarrow>
      (\<forall>k. k \<noteq> q \<longrightarrow> hSlots (leaveRoom q m) ! k = hSlots m ! k))"
proof -
  note ok = table_okD [OF managed_ok [OF assms]]
  have "waitReturns m \<longleftrightarrow> (\<forall>s \<in> set (hSlots m). slDone s)"
    by (simp add: waitReturns_def ok(5) filter_empty_conv)
  moreover have "slDone s \<Longrightarrow> \<not> sRunning (slSys s)" if "s \<in> set (hSlots m)" for s
    using that ok(6) by (metis in_set_conv_nth)
  moreover have "hSlots (leaveRoom q m) ! k = hSlots m ! k" if "live m q" "k \<noteq> q" for k
    using that leaveRoom_eq [OF managed_ok [OF assms]] by simp
  ultimately show ?thesis using ok(3) [of i p] ok(4,5) by (auto simp: GetRoom_def RoomCount_def live_def)
qed

text \<open>One room of the sample game, made, run and shut down.\<close>

definition sample_hall :: Manager where
  "sample_hall = fst (Create 0 sample_state ''room'' ''alice'' ''bob'' (Some (\<lambda>_. False)) True NewManager)"

lemma sample_hall_managed: "managed sample_env sample_hall"
  unfolding sample_hall_def by (rule managed.create [OF managed.new]) (simp add: NewManager_def)

theorem manager_table_witness: "GetRoom sample_hall ''room'' = Some 0 \<and> RoomCount sample_hall = 1"
  using manager_table [OF sample_hall_managed, of "''room''" 0]
  by (simp add: sample_hall_def Create_def NewManager_def Let_def)

text \<open>
  When an id is used twice, the end of the first room closes the second: \<open>Remove\<close> looks
  its room up by id.
\<close>

lemma reused_id_closes_other:
  assumes "table_ok m" "m1 = fst (Create now s i a b out f m)" "m2 = fst (Create now' s' i a' b' out' f' m1)"
    and "p = length (hSlots m)"
  shows "rCancelled (lRoom (sLoop (slSys (hSlots (leaveRoom p m2) ! Suc p))))"
    and "\<not> rCancelled (lRoom (sLoop (slSys (hSlots m2 ! Suc p))))"
  using assms(2-4)
  by (simp_all add: Create_def Let_def leaveRoom_def Remove_def update_conv nth_append onSlot_def
      CloseRoom_def initSystem_def initLoop_def createdRoom_def NewRoom_def)

end
