(* ===== verification/Replay_Props.thy ===== *)
theory Replay_Props
  imports Replay_Build Room_Manager
begin

text \<open>
  Properties of stored reports: what \<open>Build\<close> accepts, how it names what is wrong, and that
  the report any room makes of its game is accepted and shows the game as it was played.
\<close>

section \<open>Shared lemmas\<close>

lemma decodes_length: "decodes env J sw oc r log steps s0 \<Longrightarrow> length steps = length log"
  by (auto simp: decodes_def Steps_def dest: length_stepsFrom)

lemma finalOutcome_None:
  "finalOutcome r t = None \<longleftrightarrow>
     Winner t = brWinner r \<and> DisplayRound t = brRounds r \<and> (Over t \<longleftrightarrow> brEndReason r = ''finished'')"
  by (auto simp: finalOutcome_def)

text \<open>The players of a new game, and that it is not over.\<close>

lemma NewState_players:
  assumes "NewState sw r oc a b seed = Inr s" "shuffle_ok sw"
  shows "pID (player s 0) = iID a" "pID (player s 1) = iID b" "InitDecks s = [iCards a, iCards b]"
    "Seed s = seed" "\<not> Over s"
proof -
  obtain c where c: "oc = Some c" and s: "s = beginTurn (dealHands HandStart (table sw r c a b seed)) 0"
    and len: "HandStart < length (iCards a)" "HandStart < length (iCards b)"
    using assms(1) by (auto simp: NewState_Inr)
  obtain da db where t: "player (table sw r c a b seed) 0 = freshPlayer (iID a) da" "mset da = mset (iCards a)"
      "player (table sw r c a b seed) (Suc 0) = freshPlayer (iID b) db" "mset db = mset (iCards b)"
    by (rule player_table [OF assms(2)])
  have g: "NewState sw r (Some c) a b seed = Inr s" using assms(1) c by simp
  show "pID (player s 0) = iID a" "pID (player s 1) = iID b"
    by (simp_all add: s player_dealHands t dealt_def freshPlayer_def)
  show "InitDecks s = [iCards a, iCards b]" "Seed s = seed" by (simp_all add: s)
  let ?d = "dealHands HandStart (table sw r c (a) b seed)"
  have "pDeck (player ?d 0) \<noteq> []"
    using len(1) mset_eq_length [OF t(2)] by (simp add: player_dealHands t dealt_def freshPlayer_def)
  then show "\<not> Over s" by (simp add: s beginTurn_eq)
qed

lemma replayFrom_rejected:
  "k < length xs \<Longrightarrow> plays app s (take k xs) u \<Longrightarrow>
     app u (sPlayer (xs ! k)) (sAction (xs ! k)) = (v, Some e) \<Longrightarrow>
     \<exists>acc'. replayFrom app f i s xs acc = (v, Some (i + k, e), acc')"
proof (induction xs arbitrary: k i s acc)
  case (Cons x xs)
  show ?case
  proof (cases k)
    case 0
    with Cons.prems show ?thesis by simp
  next
    case (Suc j)
    with Cons.prems obtain s' where s': "app s (sPlayer x) (sAction x) = (s', None)" "plays app s' (take j xs) u"
      by auto
    from Cons.IH [of j s' "i + 1" "f (int i) s' acc"] Cons.prems Suc s' show ?thesis by simp
  qed
qed simp

section \<open>What Build accepts\<close>

lemma Build_Inr_iff:
  "Build env J sw oc h r = Inr res \<longleftrightarrow>
     brCardsHash r = h \<and>
     (\<exists>log steps s0 t. decodes env J sw oc r log steps s0 \<and> plays Apply s0 steps t \<and>
        (\<forall>k < length log. leHash (log ! k) = [] \<or>
           leHash (log ! k) = Checksum (quoteRest env) (trail Apply s0 steps ! k)) \<and>
        Winner t = brWinner r \<and> DisplayRound t = brRounds r \<and> (Over t \<longleftrightarrow> brEndReason r = ''finished'') \<and>
        res = resultOf r (frames log steps s0))"
proof (cases "brCardsHash r = h \<and> (\<exists>log steps s0 t. decodes env J sw oc r log steps s0 \<and> plays Apply s0 steps t)")
  case True
  then obtain log steps s0 t where a: "brCardsHash r = h" and d: "decodes env J sw oc r log steps s0"
    and p: "plays Apply s0 steps t" by blast
  have uniq: "log' = log \<and> steps' = steps \<and> s' = s0 \<and> t' = t"
    if "decodes env J sw oc r log' steps' s'" "plays Apply s' steps' t'" for log' steps' s' t'
    using that d p by (auto simp: decodes_def intro: plays_deterministic)
  have find: "find (differs (quoteRest env) log) (zip [0..<length steps] (trail Apply s0 steps)) = None \<longleftrightarrow>
      (\<forall>k < length log. leHash (log ! k) = [] \<or>
         leHash (log ! k) = Checksum (quoteRest env) (trail Apply s0 steps ! k))"
    using find_zip_upt [of "differs (quoteRest env) log" "trail Apply s0 steps"] decodes_length [OF d]
    by (auto simp: differs_def)
  have "Build env J sw oc h r = Inr res \<longleftrightarrow>
      find (differs (quoteRest env) log) (zip [0..<length steps] (trail Apply s0 steps)) = None \<and>
      finalOutcome r t = None \<and> res = resultOf r (frames log steps s0)"
    unfolding Build_played [OF a d p] by (auto split: option.splits)
  then show ?thesis unfolding find finalOutcome_None using a d p uniq by blast
next
  case False
  then have "Build env J sw oc h r \<noteq> Inr res" by (blast elim: Build_Inr)
  with False show ?thesis by blast
qed

text \<open>
  C18. \<open>Build\<close> accepts a stored report exactly when the hash of the card table is the current
  one, decks and log decode, the opening can be dealt, the rules accept every action of the
  log in order, every entry that carries a hash carries the checksum of the state after it,
  and winner, rounds and end reason fit the final state. The result then has the opening
  and one frame for each action.
\<close>
theorem Build_accepts_iff:
  "Build env J sw oc h r = Inr res \<longleftrightarrow>
     brCardsHash r = h \<and>
     (\<exists>log steps s0 t. decodes env J sw oc r log steps s0 \<and> plays Apply s0 steps t \<and>
        (\<forall>k < length log. leHash (log ! k) = [] \<or>
           leHash (log ! k) = Checksum (quoteRest env) (trail Apply s0 steps ! k)) \<and>
        Winner t = brWinner r \<and> DisplayRound t = brRounds r \<and> (Over t \<longleftrightarrow> brEndReason r = ''finished'') \<and>
        res = resultOf r (frames log steps s0))"
  by (rule Build_Inr_iff)

text \<open>
  C19. The errors of \<open>Build\<close>: another card table is named before anything is read; an action
  the rules reject is named by its index with the error of the rules; an entry whose hash is
  not the checksum of the state after it is named by the first such index and its sequence
  number; and only then is an outcome that does not fit reported.
\<close>
theorem Build_errors:
  "(brCardsHash r \<noteq> h \<longrightarrow> Build env J sw oc h r = Inl (CardsChanged (brCardsHash r) h)) \<and>
   (brCardsHash r = h \<and> decodes env J sw oc r log steps s0 \<longrightarrow>
      (k < length steps \<and> plays Apply s0 (take k steps) u \<and>
         Apply u (sPlayer (steps ! k)) (sAction (steps ! k)) = (v, Some e) \<longrightarrow>
           Build env J sw oc h r = Inl (Mismatch (Rejected (ReplayError k e)))) \<and>
      (plays Apply s0 steps t \<and> k < length log \<and>
         differs (quoteRest env) log (k, trail Apply s0 steps ! k) \<and>
         (\<forall>j < k. \<not> differs (quoteRest env) log (j, trail Apply s0 steps ! j)) \<longrightarrow>
           Build env J sw oc h r = Inl (Mismatch (Diverged k (leSeq (log ! k))))) \<and>
      (plays Apply s0 steps t \<and>
         (\<forall>j < length log. \<not> differs (quoteRest env) log (j, trail Apply s0 steps ! j)) \<and>
         finalOutcome r t = Some err \<longrightarrow>
           Build env J sw oc h r = Inl err))"
proof (intro conjI impI; (elim conjE)?)
  show "Build env J sw oc h r = Inl (CardsChanged (brCardsHash r) h)" if "brCardsHash r \<noteq> h"
    using that by (simp add: Build_def)
next
  assume a: "brCardsHash r = h" and d: "decodes env J sw oc r log steps s0"
    and k: "k < length steps" "plays Apply s0 (take k steps) u"
      "Apply u (sPlayer (steps ! k)) (sAction (steps ! k)) = (v, Some e)"
  let ?f = "onFrame (quoteRest env) log steps"
  obtain fs dv where "replayFrom Apply ?f 0 s0 steps (?f (-1) s0 ([], -1)) = (v, Some (k, e), fs, dv)"
    using replayFrom_rejected [OF k, of ?f 0 "?f (-1) s0 ([], -1)"] by auto
  then show "Build env J sw oc h r = Inl (Mismatch (Rejected (ReplayError k e)))"
    using a d by (auto simp: Build_def decodes_def Replay_def Let_def)
next
  assume a: "brCardsHash r = h" and d: "decodes env J sw oc r log steps s0" and p: "plays Apply s0 steps t"
    and k: "k < length log" "differs (quoteRest env) log (k, trail Apply s0 steps ! k)"
      "\<forall>j < k. \<not> differs (quoteRest env) log (j, trail Apply s0 steps ! j)"
  have "find (differs (quoteRest env) log) (zip [0..<length steps] (trail Apply s0 steps)) =
      Some (k, trail Apply s0 steps ! k)"
    using find_zip_upt_Some [of "differs (quoteRest env) log" "trail Apply s0 steps"] k decodes_length [OF d]
    by simp
  then show "Build env J sw oc h r = Inl (Mismatch (Diverged k (leSeq (log ! k))))"
    by (simp add: Build_played [OF a d p])
next
  assume a: "brCardsHash r = h" and d: "decodes env J sw oc r log steps s0" and p: "plays Apply s0 steps t"
    and k: "\<forall>j < length log. \<not> differs (quoteRest env) log (j, trail Apply s0 steps ! j)"
      "finalOutcome r t = Some err"
  have "find (differs (quoteRest env) log) (zip [0..<length steps] (trail Apply s0 steps)) = None"
    using find_zip_upt [of "differs (quoteRest env) log" "trail Apply s0 steps"] k decodes_length [OF d]
    by simp
  with k(2) show "Build env J sw oc h r = Inl err" by (simp add: Build_played [OF a d p])
qed

text \<open>A stored report of one action whose hash was tampered with.\<close>

definition tampered_entry :: LogEntry where
  "tampered_entry = \<lparr>leSeq = 1, lePlayer = ''alice'', leType = ''play_card'', leData = ''slime'',
     leAuto = False, leAtMs = 5, leHash = ''0''\<rparr>"

definition tampered_json :: Json where
  "tampered_json = \<lparr>marshalDecks = (\<lambda>_. Inr ''decks''),
     unmarshalDecks = (\<lambda>_. Inr (iCards sample_a, iCards sample_b)),
     marshalLog = (\<lambda>_. Inr ''log''), unmarshalLog = (\<lambda>_. Inr [tampered_entry])\<rparr>"

definition tampered_row :: BattleReport where
  "tampered_row = \<lparr>brRoomID = ''room'', brPlayerA = ''alice'', brPlayerB = ''bob'', brWinner = [],
     brEndReason = ''aborted'', brSeed = 5, brRounds = 1, brInitDecksJSON = ''decks'',
     brActionsJSON = ''log'', brCardsHash = ''cards'', brStartedAt = Some 0, brEndedAt = 9\<rparr>"

lemma tampered_decodes:
  "decodes sample_env tampered_json sample_swaps (Some sample_catalog) tampered_row [tampered_entry]
     [\<lparr>sPlayer = ''alice'', sAction = play ''slime''\<rparr>] sample_state"
  using sample_NewState
  by (simp add: decodes_def tampered_json_def tampered_row_def tampered_entry_def Steps_def entryAction_def
      sample_env_def sample_decode_def play_def sample_a_def sample_b_def)

theorem Build_errors_witness:
  "Build sample_env tampered_json sample_swaps (Some sample_catalog) ''cards'' tampered_row =
     Inl (Mismatch (Diverged 0 1))"
proof -
  let ?steps = "[\<lparr>sPlayer = ''alice'', sAction = play ''slime''\<rparr>]"
  have "plays Apply sample_state ?steps after_play" using play_1 by simp
  moreover have "''0'' \<noteq> Checksum q s" for q s
  proof
    assume "''0'' = Checksum q s"
    then have "length ''0'' = length (Checksum q s)" by (rule arg_cong)
    then show False by simp
  qed
  then have "differs (quoteRest sample_env) [tampered_entry] (0, trail Apply sample_state ?steps ! 0)"
    by (simp add: differs_def tampered_entry_def)
  ultimately show ?thesis
    using Build_errors [of tampered_row "''cards''" sample_env tampered_json sample_swaps "Some sample_catalog"
        "[tampered_entry]" ?steps sample_state 0] tampered_decodes
    by (simp add: tampered_row_def tampered_entry_def)
qed

text \<open>The same report as it was stored.\<close>

definition stored_entry :: LogEntry where
  "stored_entry = tampered_entry\<lparr>leHash := Checksum id after_play\<rparr>"

definition stored_json :: Json where
  "stored_json = tampered_json\<lparr>unmarshalLog := (\<lambda>_. Inr [stored_entry])\<rparr>"

theorem Build_accepts_iff_witness:
  "Build sample_env stored_json sample_swaps (Some sample_catalog) ''cards'' tampered_row =
     Inr (resultOf tampered_row
       (frames [stored_entry] [\<lparr>sPlayer = ''alice'', sAction = play ''slime''\<rparr>] sample_state))"
proof -
  let ?steps = "[\<lparr>sPlayer = ''alice'', sAction = play ''slime''\<rparr>]"
  have "decodes sample_env stored_json sample_swaps (Some sample_catalog) tampered_row [stored_entry] ?steps sample_state"
    using sample_NewState
    by (simp add: decodes_def stored_json_def stored_entry_def tampered_json_def tampered_row_def tampered_entry_def
        Steps_def entryAction_def sample_env_def sample_decode_def play_def sample_a_def sample_b_def)
  moreover have "plays Apply sample_state ?steps after_play" "trail Apply sample_state ?steps = [after_play]"
    using play_1 by simp_all
  moreover have "Winner after_play = []" "DisplayRound after_play = 1" "\<not> Over after_play"
    by (simp_all add: after_play_def sample_state_def DisplayRound_def)
  ultimately show ?thesis
    unfolding Build_accepts_iff
    by (intro conjI exI [of _ "[stored_entry]"] exI [of _ ?steps] exI [of _ sample_state] exI [of _ after_play])
      (simp_all add: tampered_row_def stored_entry_def sample_env_def)
qed

section \<open>The report of a room is accepted\<close>

lemma created_hosts:
  assumes "NewState sw room (Some c) \<lparr>iID = pa, iCards = da\<rparr> \<lparr>iID = pb, iCards = db\<rparr> seed = Inr s0"
    and "shuffle_ok sw" "wf_catalog c" "decoder_ok env"
  shows "hosts env s0 (createdRoom s0 room pa pb out f)"
proof -
  note p = NewState_players [OF assms(1,2)]
  have "fresh_room s0 (createdRoom s0 room pa pb out f)"
    unfolding fresh_room_def createdRoom_def
    by (intro exI [of _ room] exI [of _ out] exI [of _ emptyGrace] exI [of _ defaultTurn] exI [of _ f])
      (use p in \<open>simp add: NewRoom_def\<close>)
  with p assms show ?thesis by (simp add: hosts_def NewState_invar)
qed

text \<open>
  Whatever happens in a room that hosts a new game, the report it makes when it closes
  can be stored and rebuilt: with the card table unchanged, \<open>toBattleReport\<close> succeeds and
  \<open>Build\<close> accepts the row. The frames show every state of the game in order, from the
  opening to the state the room ended with, with the players, times, sequence numbers and
  automatic marks of the log.
\<close>
lemma room_report_rebuilds:
  assumes new: "NewState sw room (Some c) \<lparr>iID = pa, iCards = da\<rparr> \<lparr>iID = pb, iCards = db\<rparr> seed = Inr s0"
    and lib: "shuffle_ok sw" "wf_catalog c" "decoder_ok env"
    and run: "reach env (initSystem now (createdRoom s0 room pa pb out f)) S"
    and rep: "rep \<in> set (rReports (lRoom (sLoop S)))" and json: "json_ok J env rep"
  shows "\<exists>br res b steps. toBattleReport J h rep = Inr br \<and> Build env J sw (Some c) h br = Inr res \<and>
    brRoomID br = room \<and> brPlayerA br = pa \<and> brPlayerB br = pb \<and> brStartedAt br \<noteq> None \<and>
    rBattle (lRoom (sLoop S)) = Some b \<and> Steps env (rLog (lRoom (sLoop S))) = Inr steps \<and>
    plays Apply s0 steps b \<and> map fState (resFrames res) = map godView (s0 # trail Apply s0 steps) \<and>
    map (\<lambda>x. (fPlayer x, fAtMs x, fSeq x, fAuto x)) (tl (resFrames res)) =
      map (\<lambda>e. (lePlayer e, leAtMs e, leSeq e, leAuto e)) (rLog (lRoom (sLoop S)))"
proof -
  let ?r = "lRoom (sLoop S)"
  note hosts = created_hosts [OF new lib, of out f]
  have "sys_ok env s0 S" by (rule hosts_reach [OF hosts run])
  then have closed: "\<not> sRunning S" "closed_ok env s0 (sNow S) (sLoop S)"
    using rep by (auto simp: sys_ok_def safe_def split: if_splits)
  then obtain b where b: "rBattle ?r = Some b" and fits: "report_fits ?r b rep"
    and started: "stStarted (lSess (sLoop S))"
    using rep by (auto simp: closed_ok_def report_part_def split: if_splits)
  have at: "rStartedAt ?r \<noteq> None"
    using closed(2) started by (auto simp: closed_ok_def sound_def sess_part_def split: option.splits)
  have snd: "game_part env s0 (sLoop S)" using closed(2) by (simp add: closed_ok_def sound_def)
  then obtain steps where st: "stepsFrom env 0 (rLog ?r) = Inr steps" "plays Apply s0 steps b"
      "map leHash (rLog ?r) = map (Checksum (quoteRest env)) (trail Apply s0 steps)"
      "rPlayers ?r = [pID (player s0 0), pID (player s0 1)]"
    using b by (auto simp: game_part_def)
  note np = NewState_players [OF new lib(1)]
  have inv: "invar_game s0" using hosts by (simp add: hosts_def)
  note gb = game_battle [OF snd inv b]
  have rid: "rId ?r = room"
    using reach_setup [OF run lib(3)]
    by (simp add: same_setup_def initSystem_def initLoop_def createdRoom_def NewRoom_def)
  obtain br log where br: "toBattleReport J h rep = Inr br"
    "brRoomID br = room" "brPlayerA br = pa" "brPlayerB br = pb"
    "brWinner br = Winner b" "brEndReason br = repReason rep" "brSeed br = seed" "brStartedAt br = rStartedAt ?r"
    "brRounds br = DisplayRound b" "brCardsHash br = h"
    "unmarshalDecks J (brInitDecksJSON br) = Inr (da, db)"
    "unmarshalLog J (brActionsJSON br) = Inr log" and same: "list_all2 (same_entry env) (rLog ?r) log"
    by (rule toBattleReport_Inr [OF json, of h]) (use fits st(4) np gb rid in \<open>auto simp: report_fits_def\<close>)
  have "stepsFrom env 0 log = Inr steps" using stepsFrom_same [OF same, of 0] st(1) by simp
  then have dec: "decodes env J sw (Some c) br log steps s0" using br new by (simp add: decodes_def Steps_def)
  have len: "length log = length (rLog ?r)" "length steps = length (rLog ?r)"
    using list_all2_lengthD [OF same] length_stepsFrom [OF st(1)] by simp_all
  have ent: "same_entry env (rLog ?r ! k) (log ! k)" if "k < length log" for k
    using list_all2_nthD2 [OF same that] .
  have hash: "leHash (log ! k) = Checksum (quoteRest env) (trail Apply s0 steps ! k)" if "k < length log" for k
    using arg_cong [OF st(3), of "\<lambda>xs. xs ! k"] that len same_entryD(6) [OF ent [OF that]] by simp
  have fin: "repReason rep = ''finished'' \<longleftrightarrow> Over b" using fits by (simp add: report_fits_def)
  have ok: "Build env J sw (Some c) h br = Inr (resultOf br (frames log steps s0))"
    unfolding Build_Inr_iff
    by (intro conjI exI [of _ log] exI [of _ steps] exI [of _ s0] exI [of _ b])
      (use br dec st(2) hash fin in auto)
  have "map (\<lambda>x. (fPlayer x, fAtMs x, fSeq x, fAuto x)) (tl (frames log steps s0)) =
      map (\<lambda>e. (lePlayer e, leAtMs e, leSeq e, leAuto e)) (rLog ?r)"
    using len stepsFrom_nth [OF st(1)]
    by (intro nth_equalityI) (auto simp: frames_def stepFrame_def same_entryD [OF ent])
  with br ok b st at frames_states [of log steps s0] show ?thesis
    by (auto simp: resultOf_def Steps_def)
qed

text \<open>The sample room, shut down in the middle of its game.\<close>

definition sample_log :: "LogEntry list" where
  "sample_log = rLog (lRoom (sLoop sample_closed))"

definition sample_json :: Json where
  "sample_json = \<lparr>marshalDecks = (\<lambda>_. Inr ''decks''),
     unmarshalDecks = (\<lambda>_. Inr (iCards sample_a, iCards sample_b)),
     marshalLog = (\<lambda>_. Inr ''log''), unmarshalLog = (\<lambda>_. Inr sample_log)\<rparr>"

lemma sample_created: "sample_room = createdRoom sample_state ''room'' ''alice'' ''bob'' (Some (\<lambda>_. False)) True"
  by (simp add: sample_room_def createdRoom_def)

lemma sample_closed_report:
  "\<exists>rep. rReports (lRoom (sLoop sample_closed)) = [rep] \<and> repInitDecks rep = [iCards sample_a, iCards sample_b] \<and>
     repActions rep = sample_log"
proof -
  have "rOnFinish (lRoom (sLoop sample_closed))" "stStarted (lSess (sLoop sample_closed))"
    by (simp_all add: sample_closed_def sample_busy_facts settle_def exitRun_def finish_def Let_def)
  moreover have "closed_ok sample_env sample_state (sNow sample_closed) (sLoop sample_closed)"
    using hosts_reach [OF sample_hosts sample_closed_reach] sample_closed by (simp add: sys_ok_def)
  ultimately obtain b rep where "rBattle (lRoom (sLoop sample_closed)) = Some b"
    "rReports (lRoom (sLoop sample_closed)) = [rep]" "report_fits (lRoom (sLoop sample_closed)) b rep"
    "game_part sample_env sample_state (sLoop sample_closed)"
    by (auto simp: closed_ok_def report_part_def sound_def)
  with game_battle(3) [OF _ sample_invar] show ?thesis
    by (fastforce simp: report_fits_def sample_log_def sample_state_def)
qed

lemma sample_report_json:
  assumes "rReports (lRoom (sLoop sample_closed)) = [rep]"
  shows "json_ok sample_json sample_env rep"
proof -
  have rep: "repInitDecks rep = [iCards sample_a, iCards sample_b]" "repActions rep = sample_log"
    using sample_closed_report assms by auto
  have "list_all2 (same_entry sample_env) sample_log sample_log"
    by (rule list_all2_refl) (simp add: same_entry_def)
  then show ?thesis by (simp add: json_ok_def sample_json_def rep)
qed

lemma sample_new:
  "NewState sample_swaps ''room'' (Some sample_catalog) \<lparr>iID = ''alice'', iCards = iCards sample_a\<rparr>
     \<lparr>iID = ''bob'', iCards = iCards sample_b\<rparr> 5 = Inr sample_state"
  using sample_NewState by (simp add: sample_a_def sample_b_def)

end
