(* ===== verification/Tokens.thy ===== *)
theory Tokens
  imports Prelude "HOL-Library.AList"
begin

text \<open>
  \<open>internal/auth/tokens.go\<close>: login tokens. The interface \<open>TokenStore\<close> is a locale, proved
  once for its clients and interpreted by the in-memory store; the store on Redis is shown to
  give the same answers. Redis, SHA-256 and the random source are parameters; a zero
  duration is a number, times are nanoseconds.
\<close>

section \<open>Making a token\<close>

text \<open>\<open>base64.RawURLEncoding\<close> on bytes (numbers below 256).\<close>

fun sextets :: "nat list \<Rightarrow> nat list" where
  "sextets [] = []"
| "sextets [a] = [a div 4, (a mod 4) * 16]"
| "sextets [a, b] = [a div 4, (a mod 4) * 16 + b div 16, (b mod 16) * 4]"
| "sextets (a # b # c # bs) =
     [a div 4, (a mod 4) * 16 + b div 16, (b mod 16) * 4 + c div 64, c mod 64] @ sextets bs"

fun bytes :: "nat list \<Rightarrow> nat list" where
  "bytes (w # x # y # z # ss) = 
     [w * 4 + x div 16, (x mod 16) * 16 + y div 4, (y mod 4) * 64 + z] @ bytes ss"
| "bytes [w, x, y] = [w * 4 + x div 16, (x mod 16) * 16 + y div 4]"
| "bytes [w, x] = [w * 4 + x div 16]"
| "bytes _ = []"

definition b64_alphabet :: string where
  "b64_alphabet = ''ABCDEFGHIJKLMNOPQRSTUVWXYZabcdefghijklmnopqrstuvwxyz0123456789-_''"

definition base64url :: "nat list \<Rightarrow> string" where
  "base64url bs = map (\<lambda>n. b64_alphabet ! n) (sextets bs)"

definition unbase64url :: "string \<Rightarrow> nat list" where
  "unbase64url s = bytes (map (\<lambda>c. the (index_from (\<lambda>d. d = c) 0 b64_alphabet)) s)"

text \<open>\<open>newToken\<close>; the argument is what \<open>rand.Read\<close> answers for 32 bytes.\<close>

definition newToken :: "string + nat list \<Rightarrow> string + string" where
  "newToken rnd = (case rnd of Inl e \<Rightarrow> Inl e | Inr b \<Rightarrow> Inr (base64url b))"

section \<open>The stores\<close>

datatype TokErr = InvalidToken | MissingToken | StoreErr string

text \<open>\<open>errors.Is(err, ErrInvalidToken)\<close>; \<open>MissingToken\<close> wraps it.\<close>

fun isInvalid :: "TokErr \<Rightarrow> bool" where
  "isInvalid InvalidToken = True"
| "isInvalid MissingToken = True"
| "isInvalid (StoreErr _) = False"

definition tokenErr :: "TokErr \<Rightarrow> nat \<times> string" where
  "tokenErr e = (if isInvalid e then (401, ''invalid token'') else (503, ''token store unavailable''))"

definition TokenTTL :: int where "TokenTTL = 24 * 60 * 60 * 1000000000"

record memToken =
  mtUser :: string
  mtExpires :: int

record MemTokens =
  mtTTL :: int
  mtMap :: "(string \<times> memToken) list"

definition NewMemTokens :: "int \<Rightarrow> int \<Rightarrow> (string \<times> string) list \<Rightarrow> MemTokens" where
  "NewMemTokens now ttl seed =
     \<lparr>mtTTL = ttl,
      mtMap = fold (\<lambda>(tok, user) m. AList.update tok \<lparr>mtUser = user, mtExpires = now + ttl\<rparr> m) seed []\<rparr>"

definition memIssue :: "int \<Rightarrow> string + nat list \<Rightarrow> string \<Rightarrow> MemTokens \<Rightarrow> MemTokens \<times> (TokErr + string)" where
  "memIssue now rnd user m =
     (case newToken rnd of
        Inl e \<Rightarrow> (m, Inl (StoreErr e))
      | Inr token \<Rightarrow>
          (m\<lparr>mtMap := AList.update token \<lparr>mtUser = user, mtExpires = now + mtTTL m\<rparr> (mtMap m)\<rparr>, Inr token))"

definition memLookup :: "int \<Rightarrow> string \<Rightarrow> MemTokens \<Rightarrow> MemTokens \<times> (TokErr + string)" where
  "memLookup now token m =
     (case map_of (mtMap m) token of
        None \<Rightarrow> (m, Inl InvalidToken)
      | Some e \<Rightarrow>
          if token = [] then (m, Inl InvalidToken)
          else if \<not> now < mtExpires e then (m\<lparr>mtMap := AList.delete token (mtMap m)\<rparr>, Inl InvalidToken)
          else (m, Inr (mtUser e)))"

text \<open>
  The commands of Redis that are used, on a store of type \<open>'r\<close>: \<open>SET\<close> with a time to live
  answers an error or none, \<open>GET\<close> a value, \<open>redis.Nil\<close> (\<open>None\<close>) or an error.
\<close>

record 'r RedisKV =
  kvSet :: "int \<Rightarrow> string \<Rightarrow> string \<Rightarrow> int \<Rightarrow> 'r \<Rightarrow> 'r \<times> string option"
  kvGet :: "int \<Rightarrow> string \<Rightarrow> 'r \<Rightarrow> 'r \<times> (string + string option)"

text \<open>\<open>digest\<close> is the hexadecimal SHA-256.\<close>

definition tokenKey :: "(string \<Rightarrow> string) \<Rightarrow> string \<Rightarrow> string" where
  "tokenKey digest token = ''tok:'' @ digest token"

definition ttlOf :: "int \<Rightarrow> int" where
  "ttlOf t = (if t \<le> 0 then TokenTTL else t)"

definition redisIssue ::
  "'r RedisKV \<Rightarrow> (string \<Rightarrow> string) \<Rightarrow> int \<Rightarrow> int \<Rightarrow> string + nat list \<Rightarrow> string \<Rightarrow> 'r \<Rightarrow> 'r \<times> (TokErr + string)" where
  "redisIssue R digest ttl now rnd user r =
     (case newToken rnd of
        Inl e \<Rightarrow> (r, Inl (StoreErr e))
      | Inr token \<Rightarrow>
          (case kvSet R now (tokenKey digest token) user (ttlOf ttl) r of
             (r', Some e) \<Rightarrow> (r', Inl (StoreErr e))
           | (r', None) \<Rightarrow> (r', Inr token)))"

definition redisLookup ::
  "'r RedisKV \<Rightarrow> (string \<Rightarrow> string) \<Rightarrow> int \<Rightarrow> string \<Rightarrow> 'r \<Rightarrow> 'r \<times> (TokErr + string)" where
  "redisLookup R digest now token r =
     (if token = [] then (r, Inl InvalidToken)
      else
        (case kvGet R now (tokenKey digest token) r of
           (r', Inr None) \<Rightarrow> (r', Inl InvalidToken)
         | (r', Inl e) \<Rightarrow> (r', Inl (StoreErr e))
         | (r', Inr (Some user)) \<Rightarrow> (r', Inr user)))"

text \<open>\<open>PlayerFromToken\<close> of \<open>auth.go\<close>, over any store; \<open>h\<close> is the Authorization header.\<close>

definition PlayerFromToken ::
  "(string \<Rightarrow> 's \<Rightarrow> 's \<times> (TokErr + string)) \<Rightarrow> string \<Rightarrow> 's \<Rightarrow> 's \<times> (TokErr + string)" where
  "PlayerFromToken look h s =
     (if take 7 h \<noteq> ''Bearer '' then (s, Inl MissingToken) else look (drop 7 h) s)"

section \<open>Lemmas on the encoding\<close>

lemma split16: "b < 256 \<Longrightarrow> (x * 16 + b div 16) div 16 = (x :: nat) \<and> (x * 16 + b div 16) mod 16 = b div 16"
  using less_mult_imp_div_less [of b 16 16] by simp

lemma split4: "c < 256 \<Longrightarrow> (x * 4 + c div 64) div 4 = (x :: nat) \<and> (x * 4 + c div 64) mod 4 = c div 64"
  using less_mult_imp_div_less [of c 4 64] by simp

lemma bytes_sextets: "\<forall>b \<in> set bs. b < 256 \<Longrightarrow> bytes (sextets bs) = bs"
proof (induction bs rule: sextets.induct)
  case (2 a)
  then show ?case by simp
next
  case (3 a b)
  then show ?case using split16 [of b "a mod 4"] by simp
next
  case (4 a b c bs)
  then show ?case using split16 [of b "a mod 4"] split4 [of c "b mod 16"] by simp
qed simp

lemma sextets_bound: "\<forall>b \<in> set bs. b < 256 \<Longrightarrow> \<forall>s \<in> set (sextets bs). s < 64"
  by (induction bs rule: sextets.induct) (auto simp: less_mult_imp_div_less)

lemma length_sextets: "length (sextets bs) = (4 * length bs + 2) div 3"
  by (induction bs rule: sextets.induct) simp_all

lemma b64_distinct: "distinct b64_alphabet" "length b64_alphabet = 64"
  by (simp_all add: b64_alphabet_def)

lemma index_from_nth: "distinct xs \<Longrightarrow> n < length xs \<Longrightarrow> index_from (\<lambda>d. d = xs ! n) k xs = Some (k + n)"
proof (induction xs arbitrary: n k)
  case (Cons x xs)
  then show ?case by (cases n) (auto simp: nth_eq_iff_index_eq)
qed simp

lemma unbase64url:
  assumes "\<forall>b \<in> set bs. b < 256" shows "unbase64url (base64url bs) = bs"
proof -
  have "map (\<lambda>c. the (index_from (\<lambda>d. d = c) 0 b64_alphabet)) (map (\<lambda>n. b64_alphabet ! n) (sextets bs)) = sextets bs"
    using sextets_bound [OF assms] by (simp add: map_idI index_from_nth b64_distinct)
  then show ?thesis by (simp add: unbase64url_def base64url_def bytes_sextets [OF assms])
qed

section \<open>The interface \<open>TokenStore\<close>\<close>

datatype TokOp = OpIssue "string + nat list" string | OpLookup string

type_synonym 's issuer = "int \<Rightarrow> string + nat list \<Rightarrow> string \<Rightarrow> 's \<Rightarrow> 's \<times> (TokErr + string)"
type_synonym 's looker = "int \<Rightarrow> string \<Rightarrow> 's \<Rightarrow> 's \<times> (TokErr + string)"

definition tokStep :: "'s issuer \<Rightarrow> 's looker \<Rightarrow> int \<Rightarrow> TokOp \<Rightarrow> 's \<Rightarrow> 's \<times> (TokErr + string)" where
  "tokStep issue look now op s =
     (case op of OpIssue rnd u \<Rightarrow> issue now rnd u s | OpLookup tok \<Rightarrow> look now tok s)"

text \<open>A history of calls at given times: the store at its end, and all answers.\<close>

fun tokRun :: "'s issuer \<Rightarrow> 's looker \<Rightarrow> (int \<times> TokOp) list \<Rightarrow> 's \<Rightarrow> 's \<times> (TokErr + string) list" where
  "tokRun issue look [] s = (s, [])"
| "tokRun issue look ((t, op) # ops) s =
     (let (s1, a) = tokStep issue look t op s; (s2, as) = tokRun issue look ops s1 in (s2, a # as))"

text \<open>The token an operation issues.\<close>

definition issues :: "TokOp \<Rightarrow> string option" where
  "issues op = (case op of OpIssue (Inr b) u \<Rightarrow> Some (base64url b) | _ \<Rightarrow> None)"

locale token_store =
  fixes holds :: "'s \<Rightarrow> string \<Rightarrow> (string \<times> int) option"
    and ttl :: "'s \<Rightarrow> int"
    and issue :: "'s issuer"
    and look :: "'s looker"
  assumes issue_fails: "issue now (Inl x) u s = (s, Inl (StoreErr x))"
    and issue_works: "snd (issue now (Inr b) u s) = Inr (base64url b)"
      "holds (fst (issue now (Inr b) u s)) = (holds s)(base64url b \<mapsto> (u, now + ttl s))"
      "ttl (fst (issue now (Inr b) u s)) = ttl s"
    and look_answer: "snd (look now tok s) =
      (case holds s tok of
         Some (u, e) \<Rightarrow> if tok \<noteq> [] \<and> now < e then Inr u else Inl InvalidToken
       | None \<Rightarrow> Inl InvalidToken)"
    and look_keeps: "holds (fst (look now tok s)) t = holds s t \<or>
      holds (fst (look now tok s)) t = None \<and> (\<exists>u e. holds s t = Some (u, e) \<and> e \<le> now)"
      "ttl (fst (look now tok s)) = ttl s"
begin

lemma step_keeps:
  assumes "issues op \<noteq> Some tok"
  shows "holds (fst (tokStep issue look now op s)) tok = holds s tok \<or>
    holds (fst (tokStep issue look now op s)) tok = None \<and> (\<exists>u e. holds s tok = Some (u, e) \<and> e \<le> now)"
proof (cases op)
  case (OpIssue rnd u)
  with assms show ?thesis
    by (cases rnd) (simp_all add: tokStep_def issues_def issue_fails issue_works)
next
  case (OpLookup t)
  then show ?thesis using look_keeps(1) [of now t s tok] by (simp add: tokStep_def)
qed

lemma run_keeps:
  assumes "\<forall>x \<in> set ops. issues (snd x) \<noteq> Some tok" "\<forall>x \<in> set ops. fst x \<le> now"
    and "holds s tok = Some (u, e)"
  shows "holds (fst (tokRun issue look ops s)) tok = Some (u, e) \<or>
    holds (fst (tokRun issue look ops s)) tok = None \<and> e \<le> now"
  using assms
proof (induction ops arbitrary: s)
  case (Cons x ops)
  obtain t op where x: "x = (t, op)" by (cases x)
  let ?s = "fst (tokStep issue look t op s)"
  have ev: "fst (tokRun issue look (x # ops) s) = fst (tokRun issue look ops ?s)"
    by (simp add: x Let_def case_prod_unfold)
  from step_keeps [of op tok t s] Cons.prems x
  have "holds ?s tok = Some (u, e) \<or> holds ?s tok = None \<and> e \<le> now" by auto
  then show ?case
  proof
    assume "holds ?s tok = Some (u, e)"
    with Cons.IH [of ?s] Cons.prems show ?thesis unfolding ev by simp
  next
    assume none: "holds ?s tok = None \<and> e \<le> now"
    have "holds (fst (tokRun issue look xs r)) tok = None"
      if "\<forall>x \<in> set xs. issues (snd x) \<noteq> Some tok" "holds r tok = None" for xs r
      using that
    proof (induction xs arbitrary: r)
      case (Cons y ys)
      obtain t' op' where y: "y = (t', op')" by (cases y)
      have "holds (fst (tokStep issue look t' op' r)) tok = None"
        using step_keeps [of op' tok t' r] Cons.prems y by auto
      with Cons.IH [of "fst (tokStep issue look t' op' r)"] Cons.prems show ?case
        by (simp add: y Let_def case_prod_unfold)
    qed simp
    with none Cons.prems(1) show ?thesis unfolding ev by simp
  qed
qed simp

text \<open>A token names its user until it expires, whatever else happens in between.\<close>

lemma token_lifetime:
  assumes "bs \<noteq> []" and "\<forall>x \<in> set ops. issues (snd x) \<noteq> Some (base64url bs) \<and> fst x \<le> now"
  shows "snd (look now (base64url bs) (fst (tokRun issue look ops (fst (issue t0 (Inr bs) u s))))) =
    (if now < t0 + ttl s then Inr u else Inl InvalidToken)"
proof -
  let ?s1 = "fst (issue t0 (Inr bs) u s)"
  have h: "holds ?s1 (base64url bs) = Some (u, t0 + ttl s)" by (simp add: issue_works)
  have ne: "base64url bs \<noteq> []" using assms(1)
    by (cases bs rule: sextets.cases) (simp_all add: base64url_def)
  from run_keeps [OF _ _ h, of ops now] assms(2) ne show ?thesis
    by (auto simp: look_answer)
qed

end

section \<open>The store in memory\<close>

definition memHolds :: "MemTokens \<Rightarrow> string \<Rightarrow> (string \<times> int) option" where
  "memHolds m tok = map_option (\<lambda>e. (mtUser e, mtExpires e)) (map_of (mtMap m) tok)"

lemma memHolds_issue:
  "memHolds (fst (memIssue now (Inr b) u m)) = (memHolds m)(base64url b \<mapsto> (u, now + mtTTL m))"
  by (rule ext) (simp add: memHolds_def memIssue_def newToken_def update_conv)

interpretation mem: token_store memHolds mtTTL memIssue memLookup
proof
  show "memHolds (fst (memLookup now tok s)) t = memHolds s t \<or>
      memHolds (fst (memLookup now tok s)) t = None \<and> (\<exists>u e. memHolds s t = Some (u, e) \<and> e \<le> now)"
    for now tok s t
    by (auto simp: memHolds_def memLookup_def delete_conv' not_less split: option.split)
  show "memHolds (fst (memIssue now (Inr b) u s)) = (memHolds s)(base64url b \<mapsto> (u, now + mtTTL s))" for now b u s
    by (rule memHolds_issue)
qed (auto simp: memIssue_def newToken_def memLookup_def memHolds_def split: option.splits)

section \<open>The store on Redis\<close>

text \<open>
  What the documentation says of an available Redis: \<open>vis r t k\<close> is the value a client sees
  at time \<open>t\<close> under key \<open>k\<close>; a \<open>SET\<close> is seen until its time to live is over, a \<open>GET\<close>
  answers what is seen and changes nothing.
\<close>

definition redis_ok :: "'r RedisKV \<Rightarrow> ('r \<Rightarrow> int \<Rightarrow> string \<Rightarrow> string option) \<Rightarrow> bool" where
  "redis_ok R vis \<longleftrightarrow>
     (\<forall>now k v d r. 0 < d \<longrightarrow> snd (kvSet R now k v d r) = None \<and>
        (\<forall>t \<ge> now. \<forall>j. vis (fst (kvSet R now k v d r)) t j =
           (if j = k then if t < now + d then Some v else None else vis r t j))) \<and>
     (\<forall>now k r. snd (kvGet R now k r) = Inr (vis r now k) \<and>
        (\<forall>t \<ge> now. \<forall>j. vis (fst (kvGet R now k r)) t j = vis r t j))"

lemma redis_okD:
  assumes "redis_ok R vis"
  shows "0 < d \<Longrightarrow> snd (kvSet R now k v d r) = None"
    "0 < d \<Longrightarrow> now \<le> t \<Longrightarrow> vis (fst (kvSet R now k v d r)) t j =
      (if j = k then if t < now + d then Some v else None else vis r t j)"
    "snd (kvGet R now k r) = Inr (vis r now k)"
    "now \<le> t \<Longrightarrow> vis (fst (kvGet R now k r)) t j = vis r t j"
  using assms unfolding redis_ok_def by blast+

text \<open>The tokens a history speaks of.\<close>

definition mentions :: "TokOp \<Rightarrow> string set" where
  "mentions op = (case op of OpLookup tok \<Rightarrow> {tok} | OpIssue (Inr b) u \<Rightarrow> {base64url b} | OpIssue (Inl x) u \<Rightarrow> {})"

definition memSees :: "MemTokens \<Rightarrow> int \<Rightarrow> string \<Rightarrow> string option" where
  "memSees m t tok = (case memHolds m tok of None \<Rightarrow> None | Some (u, e) \<Rightarrow> if t < e then Some u else None)"

definition sees_same ::
  "('r \<Rightarrow> int \<Rightarrow> string \<Rightarrow> string option) \<Rightarrow> (string \<Rightarrow> string) \<Rightarrow> string set \<Rightarrow> 'r \<Rightarrow> MemTokens \<Rightarrow> int \<Rightarrow> bool" where
  "sees_same vis digest T r m now \<longleftrightarrow>
     (\<forall>t \<ge> now. \<forall>tok \<in> T. vis r t (tokenKey digest tok) = memSees m t tok)"

lemma memSees_issue:
  "memSees (fst (memIssue now (Inr b) u m)) t tok =
     (if tok = base64url b then if t < now + mtTTL m then Some u else None else memSees m t tok)"
  by (simp add: memSees_def memHolds_issue)

lemma memSees_lookup: "now \<le> t \<Longrightarrow> memSees (fst (memLookup now tok m)) t j = memSees m t j"
  by (auto simp: memSees_def memHolds_def memLookup_def delete_conv' split: option.split)

lemma memLookup_sees:
  "snd (memLookup now tok m) =
     (if tok = [] then Inl InvalidToken
      else case memSees m now tok of None \<Rightarrow> Inl InvalidToken | Some u \<Rightarrow> Inr u)"
  by (auto simp: memLookup_def memSees_def memHolds_def split: option.split)

lemma redis_step:
  assumes R: "redis_ok R vis" and ttl: "ttlOf ttl = mtTTL m" "0 < mtTTL m"
    and inj: "inj_on digest T" "mentions op \<subseteq> T" and same: "sees_same vis digest T r m now"
  shows "snd (tokStep (redisIssue R digest ttl) (redisLookup R digest) now op r) =
      snd (tokStep memIssue memLookup now op m)"
    "sees_same vis digest T (fst (tokStep (redisIssue R digest ttl) (redisLookup R digest) now op r))
      (fst (tokStep memIssue memLookup now op m)) now"
    "mtTTL (fst (tokStep memIssue memLookup now op m)) = mtTTL m"
proof -
  note ok = redis_okD [OF R]
  have "snd (tokStep (redisIssue R digest ttl) (redisLookup R digest) now op r) =
      snd (tokStep memIssue memLookup now op m) \<and>
    sees_same vis digest T (fst (tokStep (redisIssue R digest ttl) (redisLookup R digest) now op r))
      (fst (tokStep memIssue memLookup now op m)) now \<and>
    mtTTL (fst (tokStep memIssue memLookup now op m)) = mtTTL m"
  proof (cases op)
    case (OpLookup tok)
    then have tok: "tok \<in> T" using inj(2) by (simp add: mentions_def)
    obtain r' where get: "kvGet R now (tokenKey digest tok) r = (r', Inr (memSees m now tok))"
      "\<forall>t \<ge> now. \<forall>j. vis r' t j = vis r t j"
      using ok(3) [of now "tokenKey digest tok" r] ok(4) [of now _ "tokenKey digest tok" r] same tok
      by (cases "kvGet R now (tokenKey digest tok) r") (auto simp: sees_same_def)
    have "snd (redisLookup R digest now tok r) = snd (memLookup now tok m)"
      using get(1) by (simp add: redisLookup_def memLookup_sees split: option.split)
    moreover have "sees_same vis digest T (fst (redisLookup R digest now tok r)) (fst (memLookup now tok m)) now"
      using get same by (auto simp: sees_same_def memSees_lookup redisLookup_def split: option.split)
    ultimately show ?thesis using OpLookup mem.look_keeps(2) by (simp add: tokStep_def)
  next
    case (OpIssue rnd u)
    show ?thesis
    proof (cases rnd)
      case (Inl x)
      with OpIssue same show ?thesis by (simp add: tokStep_def redisIssue_def memIssue_def newToken_def)
    next
      case (Inr b)
      let ?k = "tokenKey digest (base64url b)"
      have b: "base64url b \<in> T" using inj(2) OpIssue Inr by (simp add: mentions_def)
      obtain r' where set': "kvSet R now ?k u (mtTTL m) r = (r', None)"
        "\<forall>t \<ge> now. \<forall>j. vis r' t j = (if j = ?k then if t < now + mtTTL m then Some u else None else vis r t j)"
        using ok(1) [OF ttl(2), of now ?k u r] ok(2) [OF ttl(2), of now _ ?k u r] by (cases "kvSet R now ?k u (mtTTL m) r") auto
      have "tokenKey digest tok = ?k \<longleftrightarrow> tok = base64url b" if "tok \<in> T" for tok
        using inj_onD [OF inj(1), of tok "base64url b"] b that by (auto simp: tokenKey_def)
      with set' same have "sees_same vis digest T r' (fst (memIssue now (Inr b) u m)) now"
        by (auto simp: sees_same_def memSees_issue)
      with OpIssue Inr set'(1) ttl(1) mem.issue_works(1,3) [of now b u m] show ?thesis
        by (simp add: tokStep_def redisIssue_def newToken_def)
    qed
  qed
  then show "snd (tokStep (redisIssue R digest ttl) (redisLookup R digest) now op r) =
      snd (tokStep memIssue memLookup now op m)"
    "sees_same vis digest T (fst (tokStep (redisIssue R digest ttl) (redisLookup R digest) now op r))
      (fst (tokStep memIssue memLookup now op m)) now"
    "mtTTL (fst (tokStep memIssue memLookup now op m)) = mtTTL m" by simp_all
qed

lemma redis_run:
  assumes "redis_ok R vis" "ttlOf ttl = mtTTL m" "0 < mtTTL m" "inj_on digest T"
    and "\<forall>x \<in> set ops. mentions (snd x) \<subseteq> T" "sorted (now # map fst ops)" "sees_same vis digest T r m now"
  shows "snd (tokRun (redisIssue R digest ttl) (redisLookup R digest) ops r) = snd (tokRun memIssue memLookup ops m)"
  using assms
proof (induction ops arbitrary: r m now)
  case (Cons x ops)
  obtain t op where x: "x = (t, op)" by (cases x)
  have same: "sees_same vis digest T r m t" using Cons.prems(6,7) by (auto simp: sees_same_def x)
  have op: "mentions op \<subseteq> T" using Cons.prems(5) by (simp add: x)
  note st = redis_step [OF Cons.prems(1-4) op same]
  have "sorted (t # map fst ops)" using Cons.prems(6) by (simp add: x)
  from Cons.IH [OF Cons.prems(1) _ _ Cons.prems(4) _ this st(2)] Cons.prems(2,3,5) st(1,3)
  show ?case by (simp add: x Let_def case_prod_unfold)
qed simp

section \<open>Properties\<close>

text \<open>
  A new token is 43 characters of the URL-safe alphabet, and the random bytes can be
  read back from it: different bytes give different tokens.
\<close>
theorem newToken_decodes:
  assumes "length bs = 32" and "\<forall>b \<in> set bs. b < 256"
  shows "newToken (Inr bs) = Inr tok \<longrightarrow>
    length tok = 43 \<and> set tok \<subseteq> set b64_alphabet \<and> unbase64url tok = bs"
proof
  assume "newToken (Inr bs) = Inr tok"
  then have tok: "tok = base64url bs" by (simp add: newToken_def)
  have "set tok \<subseteq> set b64_alphabet"
    using sextets_bound [OF assms(2)] by (auto simp: tok base64url_def b64_distinct intro!: nth_mem)
  then show "length tok = 43 \<and> set tok \<subseteq> set b64_alphabet \<and> unbase64url tok = bs"
    using unbase64url [OF assms(2)] assms(1) by (simp add: tok) (simp add: base64url_def length_sextets)
qed

theorem newToken_decodes_witness: "\<exists>tok. newToken (Inr (replicate 32 7)) = Inr tok \<and> length tok = 43"
  using newToken_decodes [of "replicate 32 7" "base64url (replicate 32 7)"] by (simp add: newToken_def)

text \<open>
  Whoever presents a token issued to a user at \<open>t0\<close> is that user until its lifetime is
  over and nobody from then on, whatever other tokens are issued and looked up in between.
\<close>
theorem bearer_lifetime:
  assumes "bs \<noteq> []" and "\<forall>x \<in> set ops. issues (snd x) \<noteq> Some (base64url bs) \<and> fst x \<le> now"
  shows "snd (PlayerFromToken (memLookup now) (''Bearer '' @ base64url bs)
      (fst (tokRun memIssue memLookup ops (fst (memIssue t0 (Inr bs) u m))))) =
    (if now < t0 + mtTTL m then Inr u else Inl InvalidToken)"
  using mem.token_lifetime [OF assms, of t0 u m] by (simp add: PlayerFromToken_def)

theorem bearer_lifetime_witness:
  "snd (PlayerFromToken (memLookup 9) (''Bearer '' @ base64url [1, 2, 3])
     (fst (tokRun memIssue memLookup [(5, OpLookup ''x'')]
        (fst (memIssue 0 (Inr [1, 2, 3]) ''alice'' (NewMemTokens 0 10 [])))))) = Inr ''alice''"
  using bearer_lifetime [of "[1, 2, 3]" "[(5, OpLookup ''x'')]" 9 0 "''alice''" "NewMemTokens 0 10 []"]
  by (simp add: issues_def NewMemTokens_def)

text \<open>
  C31. The store on Redis refines the store in memory: with Redis available and no hash
  collision among the tokens of a history, both give the same answer to every call.
\<close>
theorem redis_tokens_refine:
  assumes "redis_ok R vis" and "0 < ttlOf ttl" and "inj_on digest (\<Union>x \<in> set ops. mentions (snd x))"
    and "sorted (map fst ops)" and "\<forall>t k. vis r t k = None"
  shows "snd (tokRun (redisIssue R digest ttl) (redisLookup R digest) ops r) =
    snd (tokRun memIssue memLookup ops (NewMemTokens now (ttlOf ttl) []))"
proof (cases ops)
  case (Cons x xs)
  have "sees_same vis digest (\<Union>x \<in> set ops. mentions (snd x)) r (NewMemTokens now (ttlOf ttl) []) (fst x)"
    using assms(5) by (simp add: sees_same_def memSees_def memHolds_def NewMemTokens_def)
  moreover have "sorted (fst x # map fst ops)" using assms(4) by (simp add: Cons)
  ultimately show ?thesis
    using assms(2) by (intro redis_run [OF assms(1) _ _ assms(3)]) (auto simp: NewMemTokens_def)
qed simp

text \<open>A Redis for the witness: a map with expiry times.\<close>

definition sample_redis :: "(string \<Rightarrow> (string \<times> int) option) RedisKV" where
  "sample_redis =
     \<lparr>kvSet = (\<lambda>now k v d r. (r(k \<mapsto> (v, now + d)), None)),
      kvGet = (\<lambda>now k r. (r, Inr (case r k of None \<Rightarrow> None | Some (v, e) \<Rightarrow> if now < e then Some v else None)))\<rparr>"

lemma sample_redis_ok:
  "redis_ok sample_redis (\<lambda>r t k. case r k of None \<Rightarrow> None | Some (v, e) \<Rightarrow> if t < e then Some v else None)"
  by (simp add: redis_ok_def sample_redis_def)

theorem redis_tokens_refine_witness:
  "snd (tokRun (redisIssue sample_redis id 0) (redisLookup sample_redis id)
      [(1, OpIssue (Inr [1, 2, 3]) ''alice''), (2, OpLookup (base64url [1, 2, 3]))] (\<lambda>_. None)) =
    [Inr (base64url [1, 2, 3]), Inr ''alice'']"
proof -
  have "snd (tokRun (redisIssue sample_redis id 0) (redisLookup sample_redis id)
      [(1, OpIssue (Inr [1, 2, 3]) ''alice''), (2, OpLookup (base64url [1, 2, 3]))] (\<lambda>_. None)) =
    snd (tokRun memIssue memLookup
      [(1, OpIssue (Inr [1, 2, 3]) ''alice''), (2, OpLookup (base64url [1, 2, 3]))] (NewMemTokens 0 (ttlOf 0) []))"
    by (rule redis_tokens_refine [OF sample_redis_ok]) (simp_all add: ttlOf_def TokenTTL_def)
  then show ?thesis
    by (simp add: NewMemTokens_def tokStep_def memIssue_def newToken_def memLookup_def ttlOf_def TokenTTL_def
        base64url_def)
qed

end
