(* ===== verification/Report_Pages.thy ===== *)
theory Report_Pages
  imports Replay_Props Tokens
begin

text \<open>
  \<open>internal/auth/reports.go\<close>: the list of a player's reports and the replay of one of them.
  The source of reports (the database) and the token store are parameters; times are
  nanoseconds. A response is its status and its body.
\<close>

record ReportSummary =
  rsRoomID :: string
  rsPlayerA :: string
  rsPlayerB :: string
  rsWinner :: string
  rsEndReason :: string
  rsRounds :: int
  rsStartedAt :: int
  rsEndedAt :: int

record reportItem =
  itRoomID :: string
  itOpponent :: string
  itResult :: string
  itEndReason :: string
  itRounds :: int
  itFirstHand :: bool
  itStartedAt :: int
  itDurationMs :: int

datatype Page = PageError string | PageReports "reportItem list" | PageReplay Result

text \<open>\<open>lookup\<close> answers \<open>Inr None\<close> for \<open>sql.ErrNoRows\<close>.\<close>

record ReportSource =
  srcList :: "string \<Rightarrow> int \<Rightarrow> string + ReportSummary list"
  srcGet :: "string \<Rightarrow> string + BattleReport option"

definition resultFor :: "string \<Rightarrow> ReportSummary \<Rightarrow> string" where
  "resultFor me x =
     (if rsEndReason x \<noteq> ''finished'' then ''unfinished''
      else if rsWinner x = [] then ''draw''
      else if rsWinner x = me then ''win''
      else ''lose'')"

text \<open>\<open>Duration.Milliseconds\<close> rounds towards zero.\<close>

definition milliseconds :: "int \<Rightarrow> int" where
  "milliseconds d = (if d < 0 then - ((- d) div 1000000) else d div 1000000)"

definition toItem :: "string \<Rightarrow> ReportSummary \<Rightarrow> reportItem" where
  "toItem me x =
     (let first = (rsPlayerA x = me)
      in \<lparr>itRoomID = rsRoomID x, itOpponent = (if \<not> first then rsPlayerA x else rsPlayerB x),
          itResult = resultFor me x, itEndReason = rsEndReason x, itRounds = rsRounds x, itFirstHand = first,
          itStartedAt = rsStartedAt x, itDurationMs = milliseconds (rsEndedAt x - rsStartedAt x)\<rparr>)"

text \<open>\<open>atoi\<close> is \<open>strconv.Atoi\<close>.\<close>

definition reportLimit :: "(string \<Rightarrow> int option) \<Rightarrow> string \<Rightarrow> int" where
  "reportLimit atoi q = (case atoi q of Some v \<Rightarrow> if v > 0 then min v 100 else 20 | None \<Rightarrow> 20)"

definition ListReports ::
  "'s looker \<Rightarrow> ReportSource \<Rightarrow> (string \<Rightarrow> int option) \<Rightarrow> int \<Rightarrow> string \<Rightarrow> string \<Rightarrow> 's \<Rightarrow> 's \<times> nat \<times> Page" where
  "ListReports look src atoi now auth q s =
     (case PlayerFromToken (look now) auth s of
        (s', Inl e) \<Rightarrow> (s', fst (tokenErr e), PageError (snd (tokenErr e)))
      | (s', Inr me) \<Rightarrow>
          (case srcList src me (reportLimit atoi q) of
             Inl _ \<Rightarrow> (s', 500, PageError ''db error'')
           | Inr rows \<Rightarrow> (s', 200, PageReports (map (toItem me) rows))))"

definition ReplayReport ::
  "'s looker \<Rightarrow> ReportSource \<Rightarrow> (BattleReport \<Rightarrow> BuildErr + Result) \<Rightarrow> int \<Rightarrow> string \<Rightarrow> string \<Rightarrow> 's \<Rightarrow> 's \<times> nat \<times> Page" where
  "ReplayReport look src build now auth room s =
     (case PlayerFromToken (look now) auth s of
        (s', Inl e) \<Rightarrow> (s', fst (tokenErr e), PageError (snd (tokenErr e)))
      | (s', Inr me) \<Rightarrow>
          (case srcGet src room of
             Inr None \<Rightarrow> (s', 404, PageError ''report not found'')
           | Inl _ \<Rightarrow> (s', 500, PageError ''db error'')
           | Inr (Some rep) \<Rightarrow>
               if brPlayerA rep \<noteq> me \<and> brPlayerB rep \<noteq> me then (s', 404, PageError ''report not found'')
               else
                 (case build rep of
                    Inl (CardsChanged _ _) \<Rightarrow> (s', 409, PageError ''cards_changed'')
                  | Inl _ \<Rightarrow> (s', 409, PageError ''replay_mismatch'')
                  | Inr res \<Rightarrow> (s', 200, PageReplay res))))"

section \<open>Properties\<close>

text \<open>
  C28. A replay is shown to the two players of the game only, and only if it can be rebuilt;
  to anybody else a report that exists looks exactly like one that does not.
\<close>
theorem replay_private:
  "(snd (ReplayReport look src build now auth room s) = (200, PageReplay res) \<longleftrightarrow>
      (\<exists>me rep. snd (PlayerFromToken (look now) auth s) = Inr me \<and> srcGet src room = Inr (Some rep) \<and>
         me \<in> {brPlayerA rep, brPlayerB rep} \<and> build rep = Inr res)) \<and>
   (snd (PlayerFromToken (look now) auth s) = Inr me \<and> srcGet src room = Inr (Some rep) \<and>
      me \<notin> {brPlayerA rep, brPlayerB rep} \<and> srcGet src' room = Inr None \<longrightarrow>
      ReplayReport look src build now auth room s = ReplayReport look src' build now auth room s)"
proof -
  obtain s' x where t: "PlayerFromToken (look now) auth s = (s', x)" by (cases "PlayerFromToken (look now) auth s")
  have "snd (ReplayReport look src build now auth room s) = (200, PageReplay res) \<longleftrightarrow>
      (\<exists>me rep. x = Inr me \<and> srcGet src room = Inr (Some rep) \<and>
         me \<in> {brPlayerA rep, brPlayerB rep} \<and> build rep = Inr res)"
    using t by (auto simp: ReplayReport_def split: sum.splits option.splits BuildErr.splits)
  then show ?thesis using t by (auto simp: ReplayReport_def)
qed

text \<open>Carol asks for the game of Alice and Bob, which is stored or not.\<close>

definition sample_look :: "unit looker" where
  "sample_look _ tok s = (s, if tok = ''t1'' then Inr ''carol'' else Inl InvalidToken)"

definition sample_reports :: "BattleReport option \<Rightarrow> ReportSource" where
  "sample_reports row = \<lparr>srcList = (\<lambda>_ _. Inr []), srcGet = (\<lambda>_. Inr row)\<rparr>"

theorem replay_private_witness:
  "ReplayReport sample_look (sample_reports (Some tampered_row)) (\<lambda>_. Inl (BadDecks [])) 0 ''Bearer t1'' ''r1'' () =
   ReplayReport sample_look (sample_reports None) (\<lambda>_. Inl (BadDecks [])) 0 ''Bearer t1'' ''r1'' ()"
proof -
  have "snd (PlayerFromToken (sample_look 0) ''Bearer t1'' ()) = Inr ''carol''"
    by (simp add: PlayerFromToken_def sample_look_def)
  moreover have "''carol'' \<notin> {brPlayerA tampered_row, brPlayerB tampered_row}"
    by (simp add: tampered_row_def)
  ultimately show ?thesis
    using replay_private [of sample_look "sample_reports (Some tampered_row)" "\<lambda>_. Inl (BadDecks [])" 0 "''Bearer t1''"
        "''r1''" "()" undefined "''carol''" tampered_row "sample_reports None"]
    by (simp add: sample_reports_def)
qed

text \<open>
  The two players of a game see it from both sides: each is the other's opponent, exactly
  one has the first hand, and a finished game with a winner among them is a win for one and
  a loss for the other; any other game shows the same result to both.
\<close>
theorem reports_from_both_sides:
  assumes "rsPlayerA x \<noteq> rsPlayerB x" and "rsWinner x \<in> {[], rsPlayerA x, rsPlayerB x}"
    and "rsPlayerA x \<noteq> []" and "rsPlayerB x \<noteq> []"
  shows "let a = toItem (rsPlayerA x) x; b = toItem (rsPlayerB x) x in
    itOpponent a = rsPlayerB x \<and> itOpponent b = rsPlayerA x \<and> itFirstHand a \<and> \<not> itFirstHand b \<and>
    (if rsEndReason x = ''finished'' \<and> rsWinner x \<noteq> []
     then {itResult a, itResult b} = {''win'', ''lose''} \<and> (itResult a = ''win'' \<longleftrightarrow> rsWinner x = rsPlayerA x)
     else itResult a = itResult b \<and> itResult a \<in> {''unfinished'', ''draw''})"
  using assms by (auto simp: toItem_def resultFor_def Let_def)

definition sample_summary :: ReportSummary where
  "sample_summary = \<lparr>rsRoomID = ''r1'', rsPlayerA = ''alice'', rsPlayerB = ''bob'', rsWinner = ''bob'',
     rsEndReason = ''finished'', rsRounds = 7, rsStartedAt = 0, rsEndedAt = 60000000000\<rparr>"

theorem reports_from_both_sides_witness:
  "itOpponent (toItem ''alice'' sample_summary) = ''bob'' \<and>
   itResult (toItem ''alice'' sample_summary) \<noteq> ''win''"
proof -
  have s: "rsPlayerA sample_summary = ''alice''" "rsPlayerB sample_summary = ''bob''"
    "rsWinner sample_summary = ''bob''"
    by (simp_all add: sample_summary_def)
  have "itOpponent (toItem ''alice'' sample_summary) = ''bob''"
    "itResult (toItem ''alice'' sample_summary) \<noteq> ''win''"
    using reports_from_both_sides [of sample_summary] unfolding s Let_def by (auto split: if_splits)
  then show ?thesis ..
qed

end
