(* ===== verification/Rate_Limits.thy ===== *)
theory Rate_Limits
  imports Complex_Main Prelude "HOL-Library.AList"
begin

text \<open>
  The token buckets of \<open>internal/auth/ratelimit.go\<close> and \<open>loginlimit.go\<close>, and
  \<open>newLoginLimiter\<close> of \<open>server/main.go\<close>. Times are nanoseconds of the monotonic clock, an
  argument of the calls that read it; a \<open>float64\<close> is a real number here, so rounding is
  not modelled. A zero time is \<open>None\<close>.
\<close>

definition second :: int where "second = 1000000000"
definition minute :: int where "minute = 60 * second"

section \<open>One bucket\<close>

record limiter =
  lmRate :: real
  lmBurst :: real
  lmTokens :: real
  lmLast :: int

definition cmdRate :: real where "cmdRate = 10"
definition cmdBurst :: real where "cmdBurst = 10"

definition newLimiter :: "int \<Rightarrow> real \<Rightarrow> real \<Rightarrow> limiter" where
  "newLimiter now rate burst = \<lparr>lmRate = rate, lmBurst = burst, lmTokens = burst, lmLast = now\<rparr>"

text \<open>\<open>Duration.Seconds\<close>.\<close>

definition seconds :: "int \<Rightarrow> real" where
  "seconds d = real_of_int d / 1000000000"

definition Allow :: "int \<Rightarrow> limiter \<Rightarrow> limiter \<times> bool" where
  "Allow now l =
     (let t = lmTokens l + seconds (now - lmLast l) * lmRate l;
          t = (if t > lmBurst l then lmBurst l else t);
          l' = l\<lparr>lmTokens := t, lmLast := now\<rparr>
      in if t < 1 then (l', False) else (l'\<lparr>lmTokens := t - 1\<rparr>, True))"

section \<open>One bucket for each address\<close>

record IPLimiter =
  ipRate :: real
  ipBurst :: real
  ipMap :: "(string \<times> limiter) list"
  ipLastSweep :: "int option"

definition ipIdle :: int where "ipIdle = 10 * minute"

definition NewIPLimiter :: "real \<Rightarrow> real \<Rightarrow> IPLimiter" where
  "NewIPLimiter rate burst = \<lparr>ipRate = rate, ipBurst = burst, ipMap = [], ipLastSweep = None\<rparr>"

definition sweep :: "int \<Rightarrow> IPLimiter \<Rightarrow> IPLimiter" where
  "sweep now L =
     L\<lparr>ipLastSweep := Some now, ipMap := filter (\<lambda>(_, b). \<not> now - lmLast b > ipIdle) (ipMap L)\<rparr>"

definition sweepDue :: "int \<Rightarrow> IPLimiter \<Rightarrow> bool" where
  "sweepDue now L = (case ipLastSweep L of None \<Rightarrow> True | Some t \<Rightarrow> now - t > minute)"

definition AllowIP :: "int \<Rightarrow> string \<Rightarrow> IPLimiter \<Rightarrow> IPLimiter \<times> bool" where
  "AllowIP now ip L =
     (let L1 = (if sweepDue now L then sweep now L else L);
          b = (case map_of (ipMap L1) ip of
                 Some b \<Rightarrow> b | None \<Rightarrow> newLimiter now (ipRate L1) (ipBurst L1));
          (b', ok) = Allow now b
      in (L1\<lparr>ipMap := AList.update ip b' (ipMap L1)\<rparr>, ok))"

definition ipSize :: "IPLimiter \<Rightarrow> nat" where
  "ipSize L = length (ipMap L)"

text \<open>\<open>parse\<close> is \<open>strconv.ParseFloat\<close>; \<open>None\<close> is a nil limiter, which limits nothing.\<close>

definition newLoginLimiter :: "(string \<Rightarrow> real option) \<Rightarrow> string \<Rightarrow> IPLimiter option" where
  "newLoginLimiter parse v =
     (let rate = (case parse v of None \<Rightarrow> 1 | Some r \<Rightarrow> r)
      in if rate \<le> 0 then None else Some (NewIPLimiter rate 10))"

text \<open>\<open>split\<close> is \<open>net.SplitHostPort\<close>.\<close>

definition clientIP :: "(string \<Rightarrow> (string \<times> string) option) \<Rightarrow> string \<Rightarrow> string" where
  "clientIP split remote = (case split remote of None \<Rightarrow> remote | Some (host, _) \<Rightarrow> host)"

section \<open>Runs of requests\<close>

fun allowAll :: "limiter \<Rightarrow> int list \<Rightarrow> limiter \<times> bool list" where
  "allowAll l [] = (l, [])"
| "allowAll l (t # ts) =
     (let (l1, ok) = Allow t l; (l2, oks) = allowAll l1 ts in (l2, ok # oks))"

fun ipAllowAll :: "IPLimiter \<Rightarrow> (int \<times> string) list \<Rightarrow> bool list" where
  "ipAllowAll L [] = []"
| "ipAllowAll L ((t, ip) # rs) = (let (L1, ok) = AllowIP t ip L in ok # ipAllowAll L1 rs)"

definition bucket_ok :: "limiter \<Rightarrow> bool" where
  "bucket_ok l \<longleftrightarrow> 0 \<le> lmRate l \<and> 1 \<le> lmBurst l \<and> 0 \<le> lmTokens l \<and> lmTokens l \<le> lmBurst l"

lemma bucket_ok_new [simp]: "0 \<le> r \<Longrightarrow> 1 \<le> b \<Longrightarrow> bucket_ok (newLimiter now r b)"
  by (simp add: bucket_ok_def newLimiter_def)

lemma seconds_nonneg: "0 \<le> d \<Longrightarrow> 0 \<le> seconds d"
  by (simp add: seconds_def)

lemma seconds_0 [simp]: "seconds 0 = 0"
  by (simp add: seconds_def)

lemma seconds_add: "seconds (a + b) = seconds a + seconds b"
  by (simp add: seconds_def add_divide_distrib)

lemma Allow_fields [simp]:
  "lmRate (fst (Allow now l)) = lmRate l" "lmBurst (fst (Allow now l)) = lmBurst l"
  "lmLast (fst (Allow now l)) = now"
  by (simp_all add: Allow_def Let_def)

lemma Allow_ok:
  assumes "bucket_ok l" "lmLast l \<le> now"
  shows "bucket_ok (fst (Allow now l))"
proof -
  have "0 \<le> seconds (now - lmLast l) * lmRate l" using assms by (simp add: bucket_ok_def seconds_nonneg)
  with assms show ?thesis by (auto simp: bucket_ok_def Allow_def Let_def)
qed

text \<open>What a request costs: a token, and it gains no more than the elapsed time's worth.\<close>

lemma Allow_tokens:
  assumes "bucket_ok l" "lmLast l \<le> now"
  shows "lmTokens (fst (Allow now l)) + (if snd (Allow now l) then 1 else 0) \<le>
    lmTokens l + seconds (now - lmLast l) * lmRate l"
  by (simp add: Allow_def Let_def)

abbreviation granted :: "bool list \<Rightarrow> nat" where
  "granted oks \<equiv> length (filter id oks)"

lemma allowAll_bound:
  assumes "bucket_ok l" "sorted (lmLast l # ts)"
  shows "bucket_ok (fst (allowAll l ts)) \<and> lmRate (fst (allowAll l ts)) = lmRate l \<and>
    lmBurst (fst (allowAll l ts)) = lmBurst l \<and> lmLast (fst (allowAll l ts)) = last (lmLast l # ts) \<and>
    lmTokens (fst (allowAll l ts)) + granted (snd (allowAll l ts)) \<le>
      lmTokens l + seconds (last (lmLast l # ts) - lmLast l) * lmRate l"
  using assms
proof (induction ts arbitrary: l)
  case Nil
  then show ?case by (simp add: seconds_def)
next
  case (Cons t ts)
  let ?l = "fst (Allow t l)"
  have le: "lmLast l \<le> t" and srt: "sorted (lmLast ?l # ts)" using Cons.prems(2) by simp_all
  note one = Allow_tokens [OF Cons.prems(1) le]
  note IH = Cons.IH [OF Allow_ok [OF Cons.prems(1) le] srt]
  have sec: "seconds (last (t # ts) - lmLast l) * lmRate l =
      seconds (last (t # ts) - t) * lmRate l + seconds (t - lmLast l) * lmRate l"
    using seconds_add [of "last (t # ts) - t" "t - lmLast l"] by (simp add: distrib_right)
  have ev: "fst (allowAll l (t # ts)) = fst (allowAll ?l ts)"
    "snd (allowAll l (t # ts)) = snd (Allow t l) # snd (allowAll ?l ts)"
    by (simp_all add: Let_def case_prod_unfold)
  show ?case unfolding ev using IH one sec by (cases "snd (Allow t l)") simp_all
qed

lemma Allow_capped: "bucket_ok l \<Longrightarrow> lmTokens (fst (Allow t l)) + (if snd (Allow t l) then 1 else 0) \<le> lmBurst l"
  by (simp add: Allow_def Let_def bucket_ok_def)

text \<open>An idle bucket is a full one.\<close>

lemma Allow_idle:
  assumes "bucket_ok l" "t - lmLast l > ipIdle" "lmBurst l \<le> 600 * lmRate l"
  shows "Allow t l = Allow t (newLimiter t (lmRate l) (lmBurst l))"
proof -
  have "600 \<le> seconds (t - lmLast l)"
    using assms(2) by (simp add: seconds_def ipIdle_def minute_def second_def)
  then have "600 * lmRate l \<le> seconds (t - lmLast l) * lmRate l"
    using assms(1) by (intro mult_right_mono) (simp_all add: bucket_ok_def)
  with assms(1,3) have "lmBurst l \<le> lmTokens l + seconds (t - lmLast l) * lmRate l"
    unfolding bucket_ok_def by linarith
  then have "(if lmTokens l + seconds (t - lmLast l) * lmRate l > lmBurst l then lmBurst l
      else lmTokens l + seconds (t - lmLast l) * lmRate l) = lmBurst l" by simp
  then have cap: "(if lmBurst l < lmTokens l + seconds (t - lmLast l) * lmRate l then lmBurst l
      else lmTokens l + seconds (t - lmLast l) * lmRate l) = lmBurst l" .
  have "l\<lparr>lmTokens := x, lmLast := t\<rparr> = (newLimiter t (lmRate l) (lmBurst l))\<lparr>lmTokens := x, lmLast := t\<rparr>" for x
    by (cases l) (simp add: newLimiter_def)
  then show ?thesis by (simp add: Allow_def Let_def cap) (simp add: newLimiter_def)
qed

lemma map_of_filter_snd:
  "distinct (map fst al) \<Longrightarrow>
     map_of (filter (\<lambda>(_, b). P b) al) k =
       (case map_of al k of None \<Rightarrow> None | Some b \<Rightarrow> if P b then Some b else None)"
  by (induction al) (auto split: option.split simp: map_of_eq_None_iff dest: map_of_SomeD)

lemma spaced_granted:
  assumes "bucket_ok l" "sorted (lmLast l # ts)"
    and "ts = [] \<or> 1 \<le> lmTokens l + seconds (hd ts - lmLast l) * lmRate l"
  shows "successively (\<lambda>a b. 1 \<le> seconds (b - a) * lmRate l) ts \<longrightarrow> (\<forall>ok \<in> set (snd (allowAll l ts)). ok)"
  using assms
proof (induction ts arbitrary: l)
  case (Cons t ts)
  let ?m = "fst (Allow t l)"
  have le: "lmLast l \<le> t" and srt: "sorted (lmLast ?m # ts)" using Cons.prems(2) by simp_all
  have ok: "snd (Allow t l)" using Cons.prems(1,3) by (simp add: Allow_def Let_def bucket_ok_def)
  have m: "bucket_ok ?m" by (rule Allow_ok [OF Cons.prems(1) le])
  have "ts = [] \<or> 1 \<le> lmTokens ?m + seconds (hd ts - lmLast ?m) * lmRate ?m"
    if "successively (\<lambda>a b. 1 \<le> seconds (b - a) * lmRate l) (t # ts)"
    using that m by (cases ts) (simp_all add: bucket_ok_def add_increasing)
  with Cons.IH [OF m srt] ok show ?case
    by (auto simp: Let_def case_prod_unfold successively_Cons)
qed simp

text \<open>The bucket of one address on its own, made at its first request and never swept.\<close>

fun solo :: "real \<Rightarrow> real \<Rightarrow> limiter option \<Rightarrow> int list \<Rightarrow> bool list" where
  "solo rate burst ob [] = []"
| "solo rate burst ob (t # ts) =
     (let (b, ok) = Allow t (case ob of None \<Rightarrow> newLimiter t rate burst | Some b \<Rightarrow> b)
      in ok # solo rate burst (Some b) ts)"

definition agrees :: "IPLimiter \<Rightarrow> string \<Rightarrow> limiter option \<Rightarrow> int \<Rightarrow> bool" where
  "agrees L ip ob now \<longleftrightarrow>
     distinct (map fst (ipMap L)) \<and> 0 \<le> ipRate L \<and> 1 \<le> ipBurst L \<and> ipBurst L \<le> 600 * ipRate L \<and>
     (case ob of
        None \<Rightarrow> map_of (ipMap L) ip = None
      | Some b \<Rightarrow> bucket_ok b \<and> lmRate b = ipRate L \<and> lmBurst b = ipBurst L \<and> lmLast b \<le> now \<and>
          (map_of (ipMap L) ip = Some b \<or> map_of (ipMap L) ip = None \<and> now - lmLast b > ipIdle))"

lemma agrees_later: "agrees L ip ob now \<Longrightarrow> now \<le> t \<Longrightarrow> agrees L ip ob t"
  by (auto simp: agrees_def split: option.splits)

lemma map_of_sweep:
  assumes "distinct (map fst (ipMap L))"
  shows "map_of (ipMap (sweep now L)) ip =
    (case map_of (ipMap L) ip of None \<Rightarrow> None | Some b \<Rightarrow> if now - lmLast b > ipIdle then None else Some b)"
  using map_of_filter_snd [OF assms, of "\<lambda>b. \<not> now - lmLast b > ipIdle" ip]
  by (simp add: sweep_def split: option.split)

lemma agrees_sweep: "agrees L ip ob now \<Longrightarrow> agrees (sweep now L) ip ob now"
  unfolding agrees_def
  by (cases ob) (auto simp: map_of_sweep split: if_splits, auto simp: sweep_def intro: distinct_map_filter)

lemma agrees_swept:
  "agrees L ip ob now \<Longrightarrow> agrees (if sweepDue now L then sweep now L else L) ip ob now"
  by (simp add: agrees_sweep)

lemma agrees_other:
  assumes "agrees L ip ob now" "ip' \<noteq> ip"
  shows "agrees (fst (AllowIP now ip' L)) ip ob now"
proof -
  from agrees_swept [OF assms(1)] assms(2) show ?thesis
    by (auto simp: agrees_def AllowIP_def Let_def case_prod_unfold update_conv distinct_update split: option.splits)
qed

lemma agrees_same:
  assumes "agrees L ip ob now"
  defines "r \<equiv> Allow now (case ob of None \<Rightarrow> newLimiter now (ipRate L) (ipBurst L) | Some b \<Rightarrow> b)"
  shows "snd (AllowIP now ip L) = snd r" "agrees (fst (AllowIP now ip L)) ip (Some (fst r)) now"
    "ipRate (fst (AllowIP now ip L)) = ipRate L" "ipBurst (fst (AllowIP now ip L)) = ipBurst L"
proof -
  let ?L = "if sweepDue now L then sweep now L else L"
  have rb: "ipRate ?L = ipRate L" "ipBurst ?L = ipBurst L" by (simp_all add: sweep_def)
  note a = agrees_swept [OF assms(1)]
  have eq: "Allow now (case map_of (ipMap ?L) ip of Some b \<Rightarrow> b | None \<Rightarrow> newLimiter now (ipRate ?L) (ipBurst ?L)) = r"
    using a Allow_idle [of "the ob" now] unfolding rb r_def agrees_def
    by (cases ob) auto
  have ok: "bucket_ok (fst r)" "lmRate (fst r) = ipRate L" "lmBurst (fst r) = ipBurst L" "lmLast (fst r) = now"
    using assms(1) unfolding r_def by (auto simp: agrees_def newLimiter_def intro!: Allow_ok split: option.splits)
      (simp_all add: bucket_ok_def)
  have step: "AllowIP now ip L = (?L\<lparr>ipMap := AList.update ip (fst r) (ipMap ?L)\<rparr>, snd r)"
    unfolding AllowIP_def Let_def eq by (simp add: case_prod_unfold)
  show "snd (AllowIP now ip L) = snd r" by (simp add: step)
  show "agrees (fst (AllowIP now ip L)) ip (Some (fst r)) now"
    using a ok rb by (simp add: step agrees_def distinct_update update_conv)
  show "ipRate (fst (AllowIP now ip L)) = ipRate L" "ipBurst (fst (AllowIP now ip L)) = ipBurst L"
    using rb by (simp_all add: step)
qed

lemma AllowIP_rates [simp]:
  "ipRate (fst (AllowIP now ip L)) = ipRate L" "ipBurst (fst (AllowIP now ip L)) = ipBurst L"
  by (simp_all add: AllowIP_def Let_def case_prod_unfold sweep_def)

text \<open>The answers an address gets, and its requests.\<close>

definition answers :: "string \<Rightarrow> (int \<times> string) list \<Rightarrow> bool list \<Rightarrow> bool list" where
  "answers ip rs oks = map snd (filter (\<lambda>x. snd (fst x) = ip) (zip rs oks))"

definition requests :: "string \<Rightarrow> (int \<times> string) list \<Rightarrow> int list" where
  "requests ip rs = map fst (filter (\<lambda>r. snd r = ip) rs)"

lemma isolated:
  assumes "agrees L ip ob now" "sorted (now # map fst rs)"
  shows "answers ip rs (ipAllowAll L rs) = solo (ipRate L) (ipBurst L) ob (requests ip rs)"
  using assms
proof (induction rs arbitrary: L ob now)
  case Nil
  then show ?case by (simp add: answers_def requests_def)
next
  case (Cons r rs)
  obtain t ip' where r: "r = (t, ip')" by (cases r)
  have a: "agrees L ip ob t" using agrees_later [OF Cons.prems(1)] Cons.prems(2) by (simp add: r)
  have srt: "sorted (t # map fst rs)" using Cons.prems(2) by (simp add: r)
  show ?case
  proof (cases "ip' = ip")
    case True
    note s = agrees_same [OF a]
    from Cons.IH [OF s(2) srt] s(1) True show ?thesis
      by (simp add: r answers_def requests_def Let_def case_prod_unfold)
  next
    case False
    from Cons.IH [OF agrees_other [OF a False] srt] False show ?thesis
      by (simp add: r answers_def requests_def Let_def case_prod_unfold)
  qed
qed

section \<open>Properties\<close>

text \<open>
  In any window of any run of requests a bucket grants at most its burst plus its rate
  times the length of the window; and a client whose requests are at least one token's time
  apart is never refused.
\<close>
theorem bucket_bounds:
  assumes "0 \<le> rate" and "1 \<le> burst" and "sorted (t0 # us @ w # ws)"
  shows "granted (snd (allowAll (fst (allowAll (newLimiter t0 rate burst) us)) (w # ws)))
      \<le> burst + rate * seconds (last (w # ws) - w) \<and>
    (successively (\<lambda>a b. 1 \<le> seconds (b - a) * rate) us \<longrightarrow>
      (\<forall>ok \<in> set (snd (allowAll (newLimiter t0 rate burst) us)). ok))"
proof -
  let ?new = "newLimiter t0 rate burst"
  let ?l = "fst (allowAll ?new us)"
  have l0: "bucket_ok ?new" "lmLast ?new = t0" "lmRate ?new = rate" "lmBurst ?new = burst"
    using assms by (simp_all add: newLimiter_def bucket_ok_def)
  have srt: "sorted (lmLast ?new # us)" using assms(3) l0 by (simp add: sorted_append)
  note b = allowAll_bound [OF l0(1) srt]
  have w: "lmLast ?l \<le> w" using assms(3) b l0 by (auto simp: sorted_append split: if_splits)
  let ?m = "fst (Allow w ?l)"
  have ok: "bucket_ok ?m" "sorted (lmLast ?m # ws)"
    using Allow_ok [OF _ w] b assms(3) by (simp_all add: sorted_append)
  have "lmTokens ?m + (if snd (Allow w ?l) then 1 else 0) \<le> burst"
    using Allow_capped [of ?l w] b l0 by simp
  moreover have "granted (snd (allowAll ?m ws)) \<le> lmTokens ?m + seconds (last (w # ws) - w) * rate"
    using allowAll_bound [OF ok] b l0 by (simp add: bucket_ok_def)
  moreover have "snd (allowAll ?l (w # ws)) = snd (Allow w ?l) # snd (allowAll ?m ws)"
    by (simp add: Let_def case_prod_unfold)
  ultimately have "granted (snd (allowAll ?l (w # ws))) \<le> burst + rate * seconds (last (w # ws) - w)"
    by (cases "snd (Allow w ?l)") (simp_all add: mult.commute)
  moreover have "us = [] \<or> 1 \<le> lmTokens ?new + seconds (hd us - lmLast ?new) * lmRate ?new"
    using assms(1-3) by (cases us) (simp_all add: newLimiter_def seconds_nonneg add_increasing2)
  from spaced_granted [OF l0(1) srt this]
  have "successively (\<lambda>a b. 1 \<le> seconds (b - a) * rate) us \<longrightarrow> (\<forall>ok \<in> set (snd (allowAll ?new us)). ok)"
    using l0 by simp
  ultimately show ?thesis by blast
qed

theorem bucket_bounds_witness:
  "granted (snd (allowAll (fst (allowAll (newLimiter 0 cmdRate cmdBurst) [])) [0, 0, second])) \<le>
     cmdBurst + cmdRate * seconds second"
  using bucket_bounds [of cmdRate cmdBurst 0 "[]" 0 "[0, second]"]
  by (simp add: cmdRate_def cmdBurst_def second_def)

text \<open>
  C32. Addresses do not influence each other, and sweeping is not observable: each address
  gets exactly the answers of a bucket of its own that is never swept, provided that a
  bucket fills up within the ten minutes after which it may be swept.
\<close>
theorem addresses_isolated:
  assumes "0 \<le> rate" and "1 \<le> burst" and "burst \<le> 600 * rate" and "sorted (map fst rs)"
  shows "answers ip rs (ipAllowAll (NewIPLimiter rate burst) rs) = solo rate burst None (requests ip rs)"
proof (cases rs)
  case Nil
  then show ?thesis by (simp add: answers_def requests_def)
next
  case (Cons r rs')
  have "agrees (NewIPLimiter rate burst) ip None (fst r)"
    using assms(1-3) by (simp add: agrees_def NewIPLimiter_def)
  moreover have "sorted (fst r # map fst rs)" using assms(4) by (simp add: Cons)
  ultimately show ?thesis using isolated [of "NewIPLimiter rate burst" ip None "fst r" rs]
    by (simp add: NewIPLimiter_def)
qed

theorem addresses_isolated_witness:
  "answers ''b'' [(0, ''a''), (1, ''b''), (2, ''a'')]
     (ipAllowAll (NewIPLimiter 1 10) [(0, ''a''), (1, ''b''), (2, ''a'')]) = solo 1 10 None [1]"
  using addresses_isolated [of 1 10 "[(0, ''a''), (1, ''b''), (2, ''a'')]" "''b''"]
  by (simp add: requests_def)

text \<open>
  Without the proviso it is: at one login in a thousand seconds, an address that has used
  up its burst is granted a login ten minutes later, since its bucket is swept and made anew.
\<close>

lemma slow_bucket_swept:
  "snd (AllowIP (700 * second) ''a''
      \<lparr>ipRate = 1 / 1000, ipBurst = 10, ipMap = [(''a'', \<lparr>lmRate = 1 / 1000, lmBurst = 10, lmTokens = 0, lmLast = 0\<rparr>)],
       ipLastSweep = Some 0\<rparr>)"
  "\<not> snd (Allow (700 * second) \<lparr>lmRate = 1 / 1000, lmBurst = 10, lmTokens = 0, lmLast = 0\<rparr>)"
  by (simp_all add: AllowIP_def sweepDue_def sweep_def ipIdle_def minute_def second_def newLimiter_def Allow_def
      seconds_def Let_def)

end
