(* ===== verification/Accounts.thy ===== *)
theory Accounts
  imports Rate_Limits Tokens Deck
begin

text \<open>
  \<open>internal/auth/password.go\<close>, \<open>origin.go\<close> and the handlers of \<open>auth.go\<close>: logging in,
  saving a deck, and which browser origins may connect. The database, bcrypt, the JSON
  decoder and \<open>url.Parse\<close> are parameters. A response is its status and its body. The hashes
  that are compared, which dominate the time a login takes, are recorded; the slots that bound
  the number of concurrent bcrypt calls are not modelled.
\<close>

section \<open>Passwords\<close>

definition isBcryptHash :: "string \<Rightarrow> bool" where
  "isBcryptHash s \<longleftrightarrow> length s = 60 \<and> take 4 s \<in> {''$2a$'', ''$2b$'', ''$2y$''}"

text \<open>
  \<open>bcGenerate\<close> gets the salt as its first argument; \<open>None\<close> is an error. \<open>bcDummy\<close> is
  \<open>dummyHash\<close>, made when the program starts.
\<close>

record Bcrypt =
  bcDummy :: string
  bcGenerate :: "nat \<Rightarrow> string \<Rightarrow> string option"
  bcCompare :: "string \<Rightarrow> string \<Rightarrow> bool"

definition HashPassword :: "Bcrypt \<Rightarrow> nat \<Rightarrow> string \<Rightarrow> string option" where
  "HashPassword bc salt plain = bcGenerate bc salt plain"

text \<open>The comparisons a call makes: pairs of a hash and the password given.\<close>

definition burnPasswordCheck :: "Bcrypt \<Rightarrow> string \<Rightarrow> (string \<times> string) list" where
  "burnPasswordCheck bc given = [(bcDummy bc, given)]"

text \<open>\<open>ok\<close>, \<open>needUpgrade\<close> and the comparisons made.\<close>

definition checkPassword :: "Bcrypt \<Rightarrow> string \<Rightarrow> string \<Rightarrow> bool \<times> bool \<times> (string \<times> string) list" where
  "checkPassword bc stored given =
     (if isBcryptHash stored then (bcCompare bc stored given, False, [(stored, given)])
      else let ok = (stored = given) in (ok, ok, if \<not> ok then burnPasswordCheck bc given else []))"

section \<open>The database of users\<close>

datatype 'a DBResult = NoRows | DBError string | Row 'a

record 'u UserDB =
  udFind :: "string \<Rightarrow> 'u \<Rightarrow> (int \<times> string) DBResult"
  udSetPassword :: "int \<Rightarrow> string \<Rightarrow> 'u \<Rightarrow> 'u \<times> string option"
  udSetDeck :: "int \<Rightarrow> string list \<Rightarrow> 'u \<Rightarrow> 'u \<times> string option"

section \<open>Login\<close>

record loginReq =
  lrUsername :: string
  lrPassword :: string

datatype Body = ErrorBody string | LoginBody string string | DeckBody string

record Request =
  rqMethod :: string
  rqRemote :: string
  rqAuth :: string
  rqBody :: string

text \<open>What a handler reads and changes.\<close>

record ('u, 's) Site =
  siUsers :: 'u
  siTokens :: 's
  siLimiter :: "IPLimiter option"
  siCompared :: "(string \<times> string) list"

record ('u, 's) SiteEnv =
  seDB :: "'u UserDB"
  seBcrypt :: Bcrypt
  seIssue :: "'s issuer"
  seLook :: "'s looker"
  seLoginReq :: "string \<Rightarrow> loginReq option"
  seDeckReq :: "string \<Rightarrow> string list option"
  seSplit :: "string \<Rightarrow> (string \<times> string) option"

definition limitLogin :: "('u, 's) SiteEnv \<Rightarrow> int \<Rightarrow> Request \<Rightarrow> ('u, 's) Site \<Rightarrow> ('u, 's) Site \<times> bool" where
  "limitLogin env now r s =
     (case siLimiter s of
        None \<Rightarrow> (s, True)
      | Some L \<Rightarrow>
          (case AllowIP now (clientIP (seSplit env) (rqRemote r)) L of
             (L', ok) \<Rightarrow> (s\<lparr>siLimiter := Some L'\<rparr>, ok)))"

text \<open>The plain password of an old account becomes a hash; an error is only logged.\<close>

definition upgradePassword ::
  "('u, 's) SiteEnv \<Rightarrow> nat \<Rightarrow> int \<Rightarrow> string \<Rightarrow> ('u, 's) Site \<Rightarrow> ('u, 's) Site" where
  "upgradePassword env salt uid given s =
     (case HashPassword (seBcrypt env) salt given of
        None \<Rightarrow> s
      | Some h \<Rightarrow> s\<lparr>siUsers := fst (udSetPassword (seDB env) uid h (siUsers s))\<rparr>)"

definition compared :: "(string \<times> string) list \<Rightarrow> ('u, 's) Site \<Rightarrow> ('u, 's) Site" where
  "compared cs s = s\<lparr>siCompared := siCompared s @ cs\<rparr>"

definition Login ::
  "('u, 's) SiteEnv \<Rightarrow> int \<Rightarrow> nat \<Rightarrow> string + nat list \<Rightarrow> Request \<Rightarrow> ('u, 's) Site \<Rightarrow> ('u, 's) Site \<times> nat \<times> Body" where
  "Login env now salt rnd r s =
     (if rqMethod r \<noteq> ''POST'' then (s, 405, ErrorBody ''method not allowed'')
      else
        (case limitLogin env now r s of
           (s1, False) \<Rightarrow> (s1, 429, ErrorBody ''too many login attempts'')
         | (s1, True) \<Rightarrow>
             (case seLoginReq env (rqBody r) of
                None \<Rightarrow> (s1, 400, ErrorBody ''bad json'')
              | Some q \<Rightarrow>
                  (case udFind (seDB env) (lrUsername q) (siUsers s1) of
                     NoRows \<Rightarrow>
                       (compared (burnPasswordCheck (seBcrypt env) (lrPassword q)) s1, 401, ErrorBody ''invalid credentials'')
                   | DBError _ \<Rightarrow> (s1, 500, ErrorBody ''db error'')
                   | Row (uid, pass) \<Rightarrow>
                       (case checkPassword (seBcrypt env) pass (lrPassword q) of
                          (False, _, cs) \<Rightarrow> (compared cs s1, 401, ErrorBody ''invalid credentials'')
                        | (True, needUpgrade, cs) \<Rightarrow>
                            (let s1 = compared cs s1;
                                 s2 = (if needUpgrade then upgradePassword env salt uid (lrPassword q) s1 else s1)
                             in case seIssue env now rnd (lrUsername q) (siTokens s2) of
                                  (t, Inl _) \<Rightarrow> (s2\<lparr>siTokens := t\<rparr>, 503, ErrorBody ''token store unavailable'')
                                | (t, Inr token) \<Rightarrow> (s2\<lparr>siTokens := t\<rparr>, 200, LoginBody token (lrUsername q))))))))"

section \<open>Saving a deck\<close>

definition Savedecks ::
  "('u, 's) SiteEnv \<Rightarrow> Catalog \<Rightarrow> int \<Rightarrow> (DeckErr \<Rightarrow> string) \<Rightarrow> Request \<Rightarrow> ('u, 's) Site \<Rightarrow> ('u, 's) Site \<times> nat \<times> Body" where
  "Savedecks env cat now text r s =
     (if rqMethod r \<noteq> ''POST'' \<and> rqMethod r \<noteq> ''PUT'' then (s, 405, ErrorBody ''method not allowed'')
      else
        (case PlayerFromToken (seLook env now) (rqAuth r) (siTokens s) of
           (t, Inl e) \<Rightarrow> (s\<lparr>siTokens := t\<rparr>, fst (tokenErr e), ErrorBody (snd (tokenErr e)))
         | (t, Inr username) \<Rightarrow>
             (let s1 = s\<lparr>siTokens := t\<rparr> in
              case seDeckReq env (rqBody r) of
                None \<Rightarrow> (s1, 400, ErrorBody ''bad json'')
              | Some cards \<Rightarrow>
                  (case ValidateDeck (Some cat) \<lparr>dOwner = username, dCards = cards\<rparr> of
                     Some e \<Rightarrow> (s1, 400, ErrorBody (text e))
                   | None \<Rightarrow>
                       (case udFind (seDB env) username (siUsers s1) of
                          Row (uid, _) \<Rightarrow>
                            (case udSetDeck (seDB env) uid cards (siUsers s1) of
                               (u, Some _) \<Rightarrow> (s1\<lparr>siUsers := u\<rparr>, 400, ErrorBody ''db error'')
                             | (u, None) \<Rightarrow> (s1\<lparr>siUsers := u\<rparr>, 200, DeckBody username))
                        | _ \<Rightarrow> (s1, 400, ErrorBody ''user not found''))))))"

section \<open>Origins\<close>

text \<open>\<open>strings.EqualFold\<close> on ASCII.\<close>

definition lower :: "char \<Rightarrow> char" where
  "lower c = (if 65 \<le> (of_char c :: nat) \<and> (of_char c :: nat) \<le> 90 then char_of ((of_char c :: nat) + 32) else c)"

definition equalFold :: "string \<Rightarrow> string \<Rightarrow> bool" where
  "equalFold a b \<longleftrightarrow> map lower a = map lower b"

definition trimRight :: "(char \<Rightarrow> bool) \<Rightarrow> string \<Rightarrow> string" where
  "trimRight P s = rev (dropWhile P (rev s))"

definition isSpace :: "char \<Rightarrow> bool" where
  "isSpace c \<longleftrightarrow> (of_char c :: nat) \<in> {9, 10, 11, 12, 13, 32}"

definition trimSpace :: "string \<Rightarrow> string" where
  "trimSpace s = dropWhile isSpace (trimRight isSpace s)"

text \<open>\<open>hostOf\<close> is \<open>url.Parse\<close> followed by the field \<open>Host\<close>.\<close>

definition checkOrigin :: "(string \<Rightarrow> string option) \<Rightarrow> string list \<Rightarrow> string \<Rightarrow> string \<Rightarrow> bool" where
  "checkOrigin hostOf allowed host origin =
     (if origin = [] then True
      else if allowed = [] then
        (case hostOf origin of None \<Rightarrow> False | Some h \<Rightarrow> equalFold h host)
      else list_ex (\<lambda>a. equalFold (trimRight (\<lambda>c. c = CHR ''/'') a) origin) allowed)"

fun splitOn :: "char \<Rightarrow> string \<Rightarrow> string list" where
  "splitOn x [] = [[]]"
| "splitOn x (c # cs) =
     (if c = x then [] # splitOn x cs
      else (case splitOn x cs of [] \<Rightarrow> [[c]] | w # ws \<Rightarrow> (c # w) # ws))"

definition ParseOrigins :: "string \<Rightarrow> string list" where
  "ParseOrigins v =
     filter (\<lambda>a. a \<noteq> [])
       (map (\<lambda>o'. trimRight (\<lambda>c. c = CHR ''/'') (trimSpace o')) (splitOn (CHR '','') v))"

section \<open>What is documented of bcrypt and of the database\<close>

definition bcrypt_ok :: "Bcrypt \<Rightarrow> bool" where
  "bcrypt_ok bc \<longleftrightarrow> (\<forall>salt p h. bcGenerate bc salt p = Some h \<longrightarrow> isBcryptHash h \<and> bcCompare bc h p)"

text \<open>
  What bcrypt tells apart: it reads at most 72 bytes of a password, up to the first NUL. Two such
  passwords with a common hash would be a collision.
\<close>

definition plainPw :: "string \<Rightarrow> bool" where
  "plainPw p \<longleftrightarrow> length p \<le> 72 \<and> CHR 0x00 \<notin> set p"

definition bcrypt_exact :: "Bcrypt \<Rightarrow> bool" where
  "bcrypt_exact bc \<longleftrightarrow>
     (\<forall>salt p h q. bcGenerate bc salt p = Some h \<and> plainPw p \<and> plainPw q \<and> bcCompare bc h q \<longrightarrow> q = p)"

text \<open>\<open>UPDATE users SET password = ? WHERE id = ?\<close> changes that row only, or nothing.\<close>

definition setRow :: "int \<Rightarrow> string \<Rightarrow> (int \<times> string) DBResult \<Rightarrow> (int \<times> string) DBResult" where
  "setRow uid h x = (case x of Row (i, pw) \<Rightarrow> Row (i, if i = uid then h else pw) | _ \<Rightarrow> x)"

locale user_store =
  fixes db :: "'u UserDB"
  assumes find_set: "udFind db name (fst (udSetPassword db uid h u)) =
    (if snd (udSetPassword db uid h u) = None then setRow uid h (udFind db name u) else udFind db name u)"

section \<open>Lemmas\<close>

lemma limitLogin_rest [simp]:
  "siUsers (fst (limitLogin env now r s)) = siUsers s" "siTokens (fst (limitLogin env now r s)) = siTokens s"
  "siCompared (fst (limitLogin env now r s)) = siCompared s"
  by (simp_all add: limitLogin_def split: option.split prod.split)

lemma compared_rest [simp]:
  "siUsers (compared cs s) = siUsers s" "siTokens (compared cs s) = siTokens s"
  "siCompared (compared cs s) = siCompared s @ cs"
  by (simp_all add: compared_def)

text \<open>A login that succeeds went through every check.\<close>

lemma Login_200:
  assumes "Login env now salt rnd r s = (s', 200, b)"
  obtains q uid pass up token cs where "rqMethod r = ''POST''" "snd (limitLogin env now r s)"
    "seLoginReq env (rqBody r) = Some q" "udFind (seDB env) (lrUsername q) (siUsers s) = Row (uid, pass)"
    "checkPassword (seBcrypt env) pass (lrPassword q) = (True, up, cs)" "b = LoginBody token (lrUsername q)"
    "siUsers s' = siUsers (if up then upgradePassword env salt uid (lrPassword q) (compared cs (fst (limitLogin env now r s)))
       else fst (limitLogin env now r s))"
proof -
  obtain s1 ok where l: "limitLogin env now r s = (s1, ok)" by (cases "limitLogin env now r s")
  from assms l have "\<exists>q uid pass up token t cs. rqMethod r = ''POST'' \<and> ok \<and> seLoginReq env (rqBody r) = Some q \<and>
      udFind (seDB env) (lrUsername q) (siUsers s1) = Row (uid, pass) \<and>
      checkPassword (seBcrypt env) pass (lrPassword q) = (True, up, cs) \<and> b = LoginBody token (lrUsername q) \<and>
      s' = (if up then upgradePassword env salt uid (lrPassword q) (compared cs s1) else compared cs s1)\<lparr>siTokens := t\<rparr>"
    by (auto simp: Login_def Let_def split: if_splits bool.splits option.splits DBResult.splits prod.splits sum.splits)
  then obtain q uid pass up token t cs where L: "rqMethod r = ''POST''" ok "seLoginReq env (rqBody r) = Some q"
    "udFind (seDB env) (lrUsername q) (siUsers s1) = Row (uid, pass)"
    "checkPassword (seBcrypt env) pass (lrPassword q) = (True, up, cs)" "b = LoginBody token (lrUsername q)"
    "s' = (if up then upgradePassword env salt uid (lrPassword q) (compared cs s1) else compared cs s1)\<lparr>siTokens := t\<rparr>"
    by blast
  have u: "siUsers s1 = siUsers s" using limitLogin_rest(1) [of env now r s] l by simp
  show thesis
    by (rule that [of q uid pass up cs token]) (use L l u in simp_all)
qed

text \<open>A password that is rejected has been compared with one hash.\<close>

lemma checkPassword_rejects:
  "checkPassword bc stored given = (False, up, cs) \<Longrightarrow> \<exists>h. cs = [(h, given)]"
  by (auto simp: checkPassword_def burnPasswordCheck_def Let_def split: if_splits)

text \<open>The password is accepted for the row that was found.\<close>

definition accepts :: "Bcrypt \<Rightarrow> (int \<times> string) DBResult \<Rightarrow> string \<Rightarrow> bool" where
  "accepts bc x pw \<longleftrightarrow> (case x of Row (i, stored) \<Rightarrow> fst (checkPassword bc stored pw) | _ \<Rightarrow> False)"

lemma accepts_upgraded:
  assumes "bcrypt_ok bc" "bcrypt_exact bc" "bcGenerate bc salt given = Some h" "plainPw given" "plainPw pw"
    and "\<not> isBcryptHash given"
  shows "fst (checkPassword bc h pw) = fst (checkPassword bc given pw)"
proof -
  have "isBcryptHash h" "bcCompare bc h given" using assms(1,3) unfolding bcrypt_ok_def by blast+
  moreover have "bcCompare bc h pw \<Longrightarrow> pw = given" using assms(2-5) unfolding bcrypt_exact_def by blast
  ultimately show ?thesis using assms(6) by (auto simp: checkPassword_def Let_def)
qed

text \<open>A login changes the table of users in one case only.\<close>

lemma Login_users:
  assumes "Login env now salt rnd r s = (s', code, b)"
  shows "siUsers s' = siUsers s \<or>
    (\<exists>q uid pass h. code \<in> {200, 503} \<and> seLoginReq env (rqBody r) = Some q \<and>
       udFind (seDB env) (lrUsername q) (siUsers s) = Row (uid, pass) \<and> \<not> isBcryptHash pass \<and> lrPassword q = pass \<and>
       bcGenerate (seBcrypt env) salt pass = Some h \<and> siUsers s' = fst (udSetPassword (seDB env) uid h (siUsers s)))"
proof -
  obtain s1 ok where l: "limitLogin env now r s = (s1, ok)" by (cases "limitLogin env now r s")
  then have u: "siUsers s1 = siUsers s" using limitLogin_rest(1) [of env now r s] by simp
  show ?thesis
    using assms l u
    by (auto simp: Login_def upgradePassword_def HashPassword_def checkPassword_def Let_def
        split: if_splits bool.splits option.splits DBResult.splits prod.splits sum.splits)
qed

text \<open>With every check before it passed, the status says whether the password was accepted.\<close>

lemma Login_accepts:
  assumes "Login env now salt rnd r s = (s', code, b)" "rqMethod r = ''POST''" "snd (limitLogin env now r s)"
    and "seLoginReq env (rqBody r) = Some q" "\<And>e. udFind (seDB env) (lrUsername q) (siUsers s) \<noteq> DBError e"
  shows "code = 200 \<or> code = 503 \<longleftrightarrow> accepts (seBcrypt env) (udFind (seDB env) (lrUsername q) (siUsers s)) (lrPassword q)"
proof -
  obtain s1 ok where l: "limitLogin env now r s = (s1, ok)" by (cases "limitLogin env now r s")
  then have u: "siUsers s1 = siUsers s" using limitLogin_rest(1) [of env now r s] by simp
  show ?thesis
    using assms l u
    by (auto simp: Login_def accepts_def Let_def
        split: if_splits bool.splits option.splits DBResult.splits prod.splits sum.splits)
qed

section \<open>Logging in\<close>

context user_store
begin

lemma upgradePassword_find:
  assumes "seDB env = db"
  shows "udFind db name (siUsers (upgradePassword env salt uid given s)) = udFind db name (siUsers s) \<or>
    (\<exists>h. bcGenerate (seBcrypt env) salt given = Some h \<and>
       udFind db name (siUsers (upgradePassword env salt uid given s)) = setRow uid h (udFind db name (siUsers s)))"
  using assms by (auto simp: upgradePassword_def HashPassword_def find_set split: option.split)

lemma login_keeps:
  assumes "bcrypt_ok (seBcrypt env)" and "seDB env = db" and "Login env now salt rnd r s = (s', 200, b)"
  shows "\<exists>q uid pass pass' token. rqMethod r = ''POST'' \<and> snd (limitLogin env now r s) \<and>
    seLoginReq env (rqBody r) = Some q \<and> b = LoginBody token (lrUsername q) \<and>
    udFind db (lrUsername q) (siUsers s) = Row (uid, pass) \<and>
    fst (checkPassword (seBcrypt env) pass (lrPassword q)) \<and>
    udFind db (lrUsername q) (siUsers s') = Row (uid, pass') \<and>
    fst (checkPassword (seBcrypt env) pass' (lrPassword q)) \<and> (pass' = pass \<or> isBcryptHash pass') \<and>
    (\<forall>name i pw. udFind db name (siUsers s) = Row (i, pw) \<and> i \<noteq> uid \<longrightarrow>
       udFind db name (siUsers s') = Row (i, pw))"
proof -
  obtain q uid pass up token cs where L: "rqMethod r = ''POST''" "snd (limitLogin env now r s)"
    "seLoginReq env (rqBody r) = Some q" "udFind db (lrUsername q) (siUsers s) = Row (uid, pass)"
    "checkPassword (seBcrypt env) pass (lrPassword q) = (True, up, cs)" "b = LoginBody token (lrUsername q)"
    "siUsers s' = siUsers (if up then upgradePassword env salt uid (lrPassword q) (compared cs (fst (limitLogin env now r s)))
       else fst (limitLogin env now r s))"
    by (rule Login_200 [OF assms(3), unfolded assms(2)])
  let ?s1 = "compared cs (fst (limitLogin env now r s))"
  have "\<exists>pass'. udFind db (lrUsername q) (siUsers s') = Row (uid, pass') \<and>
      fst (checkPassword (seBcrypt env) pass' (lrPassword q)) \<and> (pass' = pass \<or> isBcryptHash pass')"
  proof (cases up)
    case False
    with L show ?thesis by simp
  next
    case True
    then have s': "siUsers s' = siUsers (upgradePassword env salt uid (lrPassword q) ?s1)" using L(7) by simp
    from upgradePassword_find [OF assms(2), of "lrUsername q" salt uid "lrPassword q" ?s1]
    show ?thesis
    proof
      assume "udFind db (lrUsername q) (siUsers (upgradePassword env salt uid (lrPassword q) ?s1)) =
        udFind db (lrUsername q) (siUsers ?s1)"
      with L(4,5) s' show ?thesis by simp
    next
      assume "\<exists>h. bcGenerate (seBcrypt env) salt (lrPassword q) = Some h \<and>
        udFind db (lrUsername q) (siUsers (upgradePassword env salt uid (lrPassword q) ?s1)) =
          setRow uid h (udFind db (lrUsername q) (siUsers ?s1))"
      then obtain h where h: "bcGenerate (seBcrypt env) salt (lrPassword q) = Some h"
        "udFind db (lrUsername q) (siUsers s') = Row (uid, h)"
        using L(4) s' by (auto simp: setRow_def)
      from assms(1) h(1) have "isBcryptHash h" "bcCompare (seBcrypt env) h (lrPassword q)"
        unfolding bcrypt_ok_def by blast+
      with h(2) show ?thesis by (auto simp: checkPassword_def)
    qed
  qed
  moreover have "udFind db name (siUsers s') = Row (i, pw)"
    if "udFind db name (siUsers s) = Row (i, pw)" "i \<noteq> uid" for name i pw
    using upgradePassword_find [OF assms(2), of name salt uid "lrPassword q" ?s1] that L(7)
    by (cases up) (auto simp: setRow_def)
  moreover have "fst (checkPassword (seBcrypt env) pass (lrPassword q))" using L(5) by simp
  ultimately show ?thesis using L(1-4,6) by blast
qed

text \<open>
  Exactly the same passwords are accepted afterwards: rows with one id have one password, and
  the passwords are such as bcrypt tells apart.
\<close>

lemma login_same_credentials:
  assumes "bcrypt_ok (seBcrypt env)" "bcrypt_exact (seBcrypt env)" "seDB env = db"
    and "Login env now salt rnd r s = (s', code, b)"
    and one: "\<And>n n' i p p'. udFind db n (siUsers s) = Row (i, p) \<Longrightarrow> udFind db n' (siUsers s) = Row (i, p') \<Longrightarrow> p = p'"
    and "plainPw pw" "\<And>q. seLoginReq env (rqBody r) = Some q \<Longrightarrow> plainPw (lrPassword q)"
  shows "accepts (seBcrypt env) (udFind db name (siUsers s')) pw = accepts (seBcrypt env) (udFind db name (siUsers s)) pw"
  using Login_users [OF assms(4)] unfolding assms(3)
proof (elim disjE exE conjE)
  fix q uid pass h
  assume q: "seLoginReq env (rqBody r) = Some q" "udFind db (lrUsername q) (siUsers s) = Row (uid, pass)"
      "\<not> isBcryptHash pass" "lrPassword q = pass" "bcGenerate (seBcrypt env) salt pass = Some h"
    and s': "siUsers s' = fst (udSetPassword db uid h (siUsers s))"
  have up: "fst (checkPassword (seBcrypt env) h pw) = fst (checkPassword (seBcrypt env) pass pw)"
    using accepts_upgraded [OF assms(1,2) q(5) _ assms(6) q(3)] assms(7) [OF q(1)] q(4) by simp
  show ?thesis
  proof (cases "udFind db name (siUsers s)")
    case (Row x)
    then obtain i p where x: "udFind db name (siUsers s) = Row (i, p)" by (cases x) simp
    from one [OF this, of "lrUsername q" pass] q(2) up show ?thesis
      by (auto simp: s' find_set accepts_def setRow_def x)
  qed (simp_all add: s' find_set accepts_def setRow_def)
qed simp_all

end

section \<open>Properties\<close>

text \<open>A site with one old account; its hashes are padded passwords.\<close>

definition sample_bcrypt :: Bcrypt where
  "sample_bcrypt =
     \<lparr>bcDummy = ''$2a$'' @ replicate 56 CHR ''.'', bcGenerate = (\<lambda>_ p. if length p \<le> 56 then Some (''$2a$'' @ p @ replicate (56 - length p) CHR 0x00) else None),
      bcCompare = (\<lambda>h p. h = ''$2a$'' @ p @ replicate (56 - length p) CHR 0x00)\<rparr>"

definition sample_users_db :: "(string \<Rightarrow> (int \<times> string) DBResult) UserDB" where
  "sample_users_db = \<lparr>udFind = (\<lambda>name u. u name), udSetPassword = (\<lambda>uid h u. (\<lambda>n. setRow uid h (u n), None)),
     udSetDeck = (\<lambda>_ _ u. (u, None))\<rparr>"

definition sample_site_env :: "(string \<Rightarrow> (int \<times> string) DBResult, MemTokens) SiteEnv" where
  "sample_site_env = \<lparr>seDB = sample_users_db, seBcrypt = sample_bcrypt, seIssue = memIssue, seLook = memLookup,
     seLoginReq = (\<lambda>b. Some \<lparr>lrUsername = ''alice'', lrPassword = b\<rparr>), seDeckReq = (\<lambda>_. None), seSplit = (\<lambda>_. None)\<rparr>"

definition sample_site :: "(string \<Rightarrow> (int \<times> string) DBResult, MemTokens) Site" where
  "sample_site = \<lparr>siUsers = (\<lambda>n. if n = ''alice'' then Row (1, ''secret'') else NoRows),
     siTokens = NewMemTokens 0 10 [], siLimiter = None, siCompared = []\<rparr>"

definition sample_login :: Request where
  "sample_login = \<lparr>rqMethod = ''POST'', rqRemote = [], rqAuth = [], rqBody = ''secret''\<rparr>"

lemma sample_bcrypt_ok: "bcrypt_ok (seBcrypt sample_site_env)"
  by (simp add: bcrypt_ok_def sample_site_env_def sample_bcrypt_def isBcryptHash_def)

lemma takeWhile_pad: "x \<notin> set p \<Longrightarrow> takeWhile (\<lambda>c. c \<noteq> x) (p @ replicate n x) = p"
  by (induction p) (auto simp: takeWhile_eq_Nil_iff)

lemma sample_bcrypt_exact: "bcrypt_exact sample_bcrypt"
proof -
  have "q = p" if "p @ replicate (56 - length p) CHR 0x00 = q @ replicate (56 - length q) CHR 0x00"
    "CHR 0x00 \<notin> set p" "CHR 0x00 \<notin> set q" for p q :: string
    using arg_cong [OF that(1), of "takeWhile (\<lambda>c. c \<noteq> CHR 0x00)"]
      takeWhile_pad [OF that(2)] takeWhile_pad [OF that(3)] by simp
  then show ?thesis by (auto simp: bcrypt_exact_def sample_bcrypt_def plainPw_def split: if_splits)
qed

lemma sample_logs_in:
  "\<exists>s' b. Login sample_site_env 0 0 (Inr [1, 2, 3]) sample_login sample_site = (s', 200, b)"
  by (simp add: Login_def sample_site_env_def sample_login_def sample_site_def limitLogin_def sample_users_db_def
      checkPassword_def isBcryptHash_def memIssue_def newToken_def Let_def)

text \<open>
  C26. A refused name or password says nothing about which accounts exist: whether the user is
  unknown, has an old plain password or a hash, the answer is the same 401, it is given after
  exactly one bcrypt comparison of the password given, and users and tokens are as before.
\<close>
theorem refusals_look_alike:
  assumes "Login env now salt rnd r s = (s', 401, b)"
  shows "b = ErrorBody ''invalid credentials'' \<and> siUsers s' = siUsers s \<and> siTokens s' = siTokens s \<and>
    (\<exists>q h. seLoginReq env (rqBody r) = Some q \<and> siCompared s' = siCompared s @ [(h, lrPassword q)])"
proof -
  obtain s1 ok where l: "limitLogin env now r s = (s1, ok)" by (cases "limitLogin env now r s")
  then have s1: "siUsers s1 = siUsers s" "siTokens s1 = siTokens s" "siCompared s1 = siCompared s"
    using limitLogin_rest [of env now r s] by simp_all
  have "b = ErrorBody ''invalid credentials'' \<and>
      (\<exists>q h. seLoginReq env (rqBody r) = Some q \<and> s' = compared [(h, lrPassword q)] s1)"
    using assms l
    by (auto simp: Login_def burnPasswordCheck_def Let_def dest!: checkPassword_rejects
        split: if_splits bool.splits option.splits DBResult.splits prod.splits sum.splits)
  then show ?thesis using s1 by auto
qed

theorem refusals_look_alike_witness:
  "\<exists>s' b h. Login sample_site_env 0 0 (Inr []) (sample_login\<lparr>rqBody := ''guess''\<rparr>) sample_site = (s', 401, b) \<and>
     siCompared s' = [(h, ''guess'')]"
proof -
  have "\<exists>s' b. Login sample_site_env 0 0 (Inr []) (sample_login\<lparr>rqBody := ''guess''\<rparr>) sample_site = (s', 401, b)"
    by (simp add: Login_def sample_site_env_def sample_login_def sample_site_def limitLogin_def sample_users_db_def
        checkPassword_def isBcryptHash_def Let_def)
  then obtain s' b where l:
    "Login sample_site_env 0 0 (Inr []) (sample_login\<lparr>rqBody := ''guess''\<rparr>) sample_site = (s', 401, b)" by blast
  from refusals_look_alike [OF l] l show ?thesis
    by (auto simp: sample_site_env_def sample_site_def sample_login_def)
qed

end
