(* ===== verification/Storage.thy ===== *)
theory Storage
  imports Report_Pages Accounts
begin

text \<open>
  \<open>internal/store\<close>: what its statements do on the tables of \<open>deployments/init.sql\<close>. A table
  is the list of its rows in the order of their ids. What the program cannot know of the
  server is a parameter \<open>SQL\<close>: the collation strings are compared with, the text a JSON column
  gives back, and the order of rows with the same key. Each statement gets the error the
  driver reports, if any; a statement with an error has changed nothing.
\<close>

section \<open>The tables\<close>

record SQL =
  sqSame :: "string \<Rightarrow> string \<Rightarrow> bool"
  sqJson :: "string \<Rightarrow> string option"
  sqLatest :: "ReportSummary list \<Rightarrow> ReportSummary list"

record UserRow =
  urId :: int
  urName :: string
  urPassword :: string

record DB =
  dbUsers :: "UserRow list"
  dbDecks :: "(int \<times> string) list"
  dbReports :: "BattleReport list"

text \<open>A column of type \<open>DATETIME(3)\<close> rounds to milliseconds.\<close>

definition datetime3 :: "int \<Rightarrow> int" where
  "datetime3 t = (t + 500000) div 1000000 * 1000000"

section \<open>\<open>user.go\<close>\<close>

definition FindUserByName :: "SQL \<Rightarrow> string option \<Rightarrow> string \<Rightarrow> DB \<Rightarrow> (int \<times> string) DBResult" where
  "FindUserByName sq fault name db =
     (case fault of
        Some e \<Rightarrow> DBError e
      | None \<Rightarrow>
          (case find (\<lambda>u. sqSame sq (urName u) name) (dbUsers db) of
             None \<Rightarrow> NoRows
           | Some u \<Rightarrow> Row (urId u, urPassword u)))"

definition UpdatePassword :: "string option \<Rightarrow> int \<Rightarrow> string \<Rightarrow> DB \<Rightarrow> DB \<times> string option" where
  "UpdatePassword fault uid h db =
     (case fault of
        Some e \<Rightarrow> (db, Some e)
      | None \<Rightarrow>
          (db\<lparr>dbUsers := map (\<lambda>u. if urId u = uid then u\<lparr>urPassword := h\<rparr> else u) (dbUsers db)\<rparr>, None))"

definition UpsertDeck :: "string option \<Rightarrow> int \<Rightarrow> string \<Rightarrow> DB \<Rightarrow> DB \<times> string option" where
  "UpsertDeck fault uid cards db =
     (case fault of
        Some e \<Rightarrow> (db, Some e)
      | None \<Rightarrow> (db\<lparr>dbDecks := AList.update uid cards (dbDecks db)\<rparr>, None))"

text \<open>\<open>unmarshal\<close> is \<open>json.Unmarshal\<close> into \<open>[]string\<close>.\<close>

definition LoadDeck ::
  "SQL \<Rightarrow> (string \<Rightarrow> string + string list) \<Rightarrow> string option \<Rightarrow> string \<Rightarrow> DB \<Rightarrow> string list DBResult" where
  "LoadDeck sq unmarshal fault name db =
     (case fault of
        Some e \<Rightarrow> DBError e
      | None \<Rightarrow>
          (case [raw. (uid, raw) \<leftarrow> dbDecks db, u \<leftarrow> dbUsers db, urId u = uid \<and> sqSame sq (urName u) name] of
             [] \<Rightarrow> NoRows
           | raw # _ \<Rightarrow> (case unmarshal raw of Inl e \<Rightarrow> DBError e | Inr cards \<Rightarrow> Row cards)))"

section \<open>\<open>report.go\<close> and \<open>report_read.go\<close>\<close>

text \<open>
  The row as the columns keep it: \<open>None\<close> if a column does not take its value. A zero time is
  not a \<open>DATETIME\<close>.
\<close>

definition storedRow :: "SQL \<Rightarrow> BattleReport \<Rightarrow> BattleReport option" where
  "storedRow sq r =
     (case (sqJson sq (brInitDecksJSON r), sqJson sq (brActionsJSON r), brStartedAt r) of
        (Some d, Some a, Some t) \<Rightarrow>
          Some (r\<lparr>brInitDecksJSON := d, brActionsJSON := a, brStartedAt := Some (datetime3 t),
                  brEndedAt := datetime3 (brEndedAt r)\<rparr>)
      | _ \<Rightarrow> None)"

definition SaveBattleReport :: "SQL \<Rightarrow> string option \<Rightarrow> BattleReport \<Rightarrow> DB \<Rightarrow> DB \<times> string option" where
  "SaveBattleReport sq fault r db =
     (case fault of
        Some e \<Rightarrow> (db, Some e)
      | None \<Rightarrow>
          (case storedRow sq r of
             None \<Rightarrow> (db, Some ''bad value'')
           | Some row \<Rightarrow>
               if \<exists>x \<in> set (dbReports db). sqSame sq (brRoomID x) (brRoomID r)
               then (db, Some ''duplicate key uk_room'')
               else (db\<lparr>dbReports := dbReports db @ [row]\<rparr>, None)))"

definition summaryOf :: "BattleReport \<Rightarrow> ReportSummary" where
  "summaryOf r =
     \<lparr>rsRoomID = brRoomID r, rsPlayerA = brPlayerA r, rsPlayerB = brPlayerB r, rsWinner = brWinner r,
      rsEndReason = brEndReason r, rsRounds = brRounds r, rsStartedAt = the (brStartedAt r),
      rsEndedAt = brEndedAt r\<rparr>"

text \<open>\<open>ORDER BY started_at DESC LIMIT n\<close>; a limit is never negative here.\<close>

definition latest :: "SQL \<Rightarrow> int \<Rightarrow> ReportSummary list \<Rightarrow> ReportSummary list" where
  "latest sq n xs = take (nat n) (sqLatest sq xs)"

definition storeListReports ::
  "SQL \<Rightarrow> string option \<Rightarrow> string \<Rightarrow> int \<Rightarrow> DB \<Rightarrow> string + ReportSummary list" where
  "storeListReports sq fault me n db =
     (case fault of
        Some e \<Rightarrow> Inl e
      | None \<Rightarrow>
          (let rows = map summaryOf (dbReports db)
           in Inr (latest sq n
                (latest sq n (filter (\<lambda>x. sqSame sq (rsPlayerA x) me) rows) @
                 latest sq n (filter (\<lambda>x. sqSame sq (rsPlayerB x) me) rows)))))"

definition GetReport :: "SQL \<Rightarrow> string option \<Rightarrow> string \<Rightarrow> DB \<Rightarrow> string + BattleReport option" where
  "GetReport sq fault room db =
     (case fault of
        Some e \<Rightarrow> Inl e
      | None \<Rightarrow> Inr (find (\<lambda>r. sqSame sq (brRoomID r) room) (dbReports db)))"

definition AllRoomIDs :: "string option \<Rightarrow> DB \<Rightarrow> string + string list" where
  "AllRoomIDs fault db = (case fault of Some e \<Rightarrow> Inl e | None \<Rightarrow> Inr (map brRoomID (dbReports db)))"

section \<open>The interfaces of the handlers, on the tables\<close>

definition sqlUsers :: "SQL \<Rightarrow> (string list \<Rightarrow> string) \<Rightarrow> string option \<Rightarrow> string option \<Rightarrow> DB UserDB" where
  "sqlUsers sq marshal readFault writeFault =
     \<lparr>udFind = FindUserByName sq readFault, udSetPassword = UpdatePassword writeFault,
      udSetDeck = (\<lambda>uid cards. UpsertDeck writeFault uid (marshal cards))\<rparr>"

definition sqlReports :: "SQL \<Rightarrow> string option \<Rightarrow> DB \<Rightarrow> ReportSource" where
  "sqlReports sq fault db =
     \<lparr>srcList = (\<lambda>me n. storeListReports sq fault me n db),
      srcGet = (\<lambda>room. GetReport sq fault room db)\<rparr>"

section \<open>Accounts\<close>

lemma find_map: "find P (map f xs) = map_option f (find (\<lambda>x. P (f x)) xs)"
  by (induction xs) auto

lemma password_same: "z = z\<lparr>urPassword := h\<rparr> \<Longrightarrow> urPassword z = h"
  by (cases z) simp

text \<open>The table of users keeps the law the login relies on.\<close>

interpretation sql_users: user_store "sqlUsers sq marshal readFault writeFault"
  for sq marshal readFault writeFault
  by unfold_locales
    (auto simp: sqlUsers_def FindUserByName_def UpdatePassword_def setRow_def find_map if_distrib dest: password_same cong: if_cong
      split: option.splits)

section \<open>Decks\<close>

text \<open>The keys of the table of users: ids, and names as the collation compares them.\<close>

definition keyed :: "SQL \<Rightarrow> DB \<Rightarrow> bool" where
  "keyed sq db \<longleftrightarrow>
     distinct (map urId (dbUsers db)) \<and>
     (\<forall>name. length (filter (\<lambda>u. sqSame sq (urName u) name) (dbUsers db)) \<le> 1)"

lemma hd_filter_key:
  "(case map snd (filter (\<lambda>(k, _). k = x) al) of [] \<Rightarrow> z | r # _ \<Rightarrow> f r) =
     (case map_of al x of None \<Rightarrow> z | Some r \<Rightarrow> f r)"
  by (induction al) auto

lemma join_one:
  "filter P us = (case o' of None \<Rightarrow> [] | Some u \<Rightarrow> [u]) \<Longrightarrow>
     [raw. (uid, raw) \<leftarrow> ds, u \<leftarrow> us, urId u = uid \<and> P u] =
     (case o' of None \<Rightarrow> [] | Some u \<Rightarrow> map snd (filter (\<lambda>(k, _). k = urId u) ds))"
proof -
  assume f: "filter P us = (case o' of None \<Rightarrow> [] | Some u \<Rightarrow> [u])"
  have "concat (map (\<lambda>u. if urId u = k \<and> P u then [raw] else []) us) =
      map (\<lambda>_. raw) (filter (\<lambda>u. urId u = k) (filter P us))" for k and raw :: 'b
    by (induction us) auto
  then have one: "concat (map (\<lambda>u. if urId u = k \<and> P u then [raw] else []) us) =
      (case o' of None \<Rightarrow> [] | Some u \<Rightarrow> if urId u = k then [raw] else [])" for k and raw :: 'b
    unfolding f by (simp split: option.split)
  show ?thesis unfolding one by (cases o'; induction ds) auto
qed

lemma filter_find:
  "length (filter P xs) \<le> 1 \<Longrightarrow> filter P xs = (case find P xs of None \<Rightarrow> [] | Some x \<Rightarrow> [x])"
  by (induction xs) auto

text \<open>With these keys the join of \<open>LoadDeck\<close> is two lookups.\<close>

lemma LoadDeck_keyed:
  assumes "keyed sq db"
  shows "LoadDeck sq unmarshal fault name db =
    (case fault of
       Some e \<Rightarrow> DBError e
     | None \<Rightarrow>
         (case find (\<lambda>u. sqSame sq (urName u) name) (dbUsers db) of
            None \<Rightarrow> NoRows
          | Some u \<Rightarrow>
              (case map_of (dbDecks db) (urId u) of
                 None \<Rightarrow> NoRows
               | Some raw \<Rightarrow> (case unmarshal raw of Inl e \<Rightarrow> DBError e | Inr cards \<Rightarrow> Row cards))))"
proof -
  let ?P = "\<lambda>u. sqSame sq (urName u) name"
  have "length (filter ?P (dbUsers db)) \<le> 1" using assms by (simp add: keyed_def)
  note j = join_one [OF filter_find [OF this], of "dbDecks db"]
  show ?thesis
    unfolding LoadDeck_def j by (cases "find ?P (dbUsers db)") (simp_all add: hd_filter_key cong: option.case_cong)
qed

section \<open>The newest reports\<close>

definition sql_ok :: "SQL \<Rightarrow> bool" where
  "sql_ok sq \<longleftrightarrow>
     (\<forall>a. sqSame sq a a) \<and>
     (\<forall>xs. mset (sqLatest sq xs) = mset xs \<and> sorted_wrt (\<lambda>x y. rsStartedAt y \<le> rsStartedAt x) (sqLatest sq xs))"

lemma sql_okD:
  assumes "sql_ok sq"
  shows "sqSame sq a a" "mset (sqLatest sq xs) = mset xs" "length (sqLatest sq xs) = length xs"
    "sorted_wrt (\<lambda>x y. rsStartedAt y \<le> rsStartedAt x) (sqLatest sq xs)"
  using assms mset_eq_length [of "sqLatest sq xs" xs] by (simp_all add: sql_ok_def)

text \<open>The front of a descending list is no smaller than any bound enough elements reach.\<close>

lemma take_descending:
  "sorted_wrt (\<lambda>x y. f y \<le> f x) xs \<Longrightarrow> n \<le> length (filter (\<lambda>x. k \<le> f x) xs) \<Longrightarrow> x \<in> set (take n xs) \<Longrightarrow>
     k \<le> (f x :: int)"
proof (induction xs arbitrary: n)
  case (Cons a xs)
  show ?case
  proof (cases "k \<le> f a")
    case True
    with Cons show ?thesis by (cases n) auto
  next
    case False
    then have "filter (\<lambda>x. k \<le> f x) xs = []" using Cons.prems(1) by (fastforce simp: filter_empty_conv)
    with False Cons.prems show ?thesis by simp
  qed
qed simp

lemma drop_descending:
  "sorted_wrt (\<lambda>x y. f y \<le> f x) xs \<Longrightarrow> x \<in> set (drop n xs) \<Longrightarrow> y \<in> set (take n xs) \<Longrightarrow> f x \<le> (f y :: int)"
  by (metis append_take_drop_id sorted_wrt_append)

lemma mset_take_drop: "mset (take n xs) + mset (drop n xs) = mset xs"
  by (metis append_take_drop_id mset_append)

text \<open>The newest of the newest of two tables are the newest of both.\<close>

lemma latest_union:
  fixes n xs ys
  assumes "sql_ok sq"
  defines "rows \<equiv> latest sq n (latest sq n xs @ latest sq n ys)"
  shows "mset rows \<subseteq># mset xs + mset ys" "length rows = min (nat n) (length xs + length ys)"
    "sorted_wrt (\<lambda>x y. rsStartedAt y \<le> rsStartedAt x) rows"
    "x \<in># mset xs + mset ys - mset rows \<Longrightarrow> y \<in> set rows \<Longrightarrow> rsStartedAt x \<le> rsStartedAt y"
proof -
  note ok = sql_okD [OF assms(1)]
  let ?m = "nat n"
  let ?xs = "latest sq n xs" and ?ys = "latest sq n ys"
  let ?both = "sqLatest sq (?xs @ ?ys)"
  let ?old = "\<lambda>zs. mset (drop ?m (sqLatest sq zs))"
  have split: "mset (latest sq n zs) + ?old zs = mset zs" for zs
    unfolding latest_def mset_take_drop by (rule ok(2))
  have both: "mset rows + ?old (?xs @ ?ys) = mset ?xs + mset ?ys"
    unfolding rows_def using split [of "?xs @ ?ys"] by simp
  have total: "mset xs + mset ys = mset rows + (?old (?xs @ ?ys) + ?old xs + ?old ys)"
    using both split [of xs] split [of ys] by (metis add.assoc add.commute)
  show "mset rows \<subseteq># mset xs + mset ys" unfolding total by simp
  have len: "length (latest sq n zs) = min (length zs) ?m" for zs by (simp add: latest_def ok(3))
  show "length rows = min ?m (length xs + length ys)" unfolding rows_def len length_append by (simp add: min_def)
  show "sorted_wrt (\<lambda>x y. rsStartedAt y \<le> rsStartedAt x) rows"
    unfolding rows_def latest_def using ok(4) by (rule sorted_wrt_take)
  have dropped: "rsStartedAt x \<le> rsStartedAt y"
    if x: "x \<in> set (drop ?m (sqLatest sq zs))" and zs: "mset (latest sq n zs) \<subseteq># mset (?xs @ ?ys)"
      and y: "y \<in> set rows" for x y zs
  proof -
    have "?m \<le> length (latest sq n zs)" using x len [of zs] ok(3) [of zs] by (cases "?m \<le> length zs") simp_all
    moreover have "filter (\<lambda>z. rsStartedAt x \<le> rsStartedAt z) (latest sq n zs) = latest sq n zs"
      using drop_descending [OF ok(4) x] by (simp add: filter_id_conv latest_def)
    moreover have "length (filter P (latest sq n zs)) \<le> length (filter P ?both)" for P
      using size_mset_mono [OF multiset_filter_mono [OF zs, of P]] ok(2) [of "?xs @ ?ys"]
      by (metis mset_filter size_mset)
    ultimately have "?m \<le> length (filter (\<lambda>z. rsStartedAt x \<le> rsStartedAt z) ?both)" by (metis le_trans)
    then show ?thesis using take_descending [OF ok(4), of ?m "rsStartedAt x" "?xs @ ?ys" y] y
      by (simp add: rows_def latest_def)
  qed
  show "rsStartedAt x \<le> rsStartedAt y" if x: "x \<in># mset xs + mset ys - mset rows" and y: "y \<in> set rows"
  proof -
    have "x \<in># ?old (?xs @ ?ys) + ?old xs + ?old ys" using x unfolding total by simp
    then consider "x \<in> set (drop ?m ?both)" | "x \<in> set (drop ?m (sqLatest sq xs))" | "x \<in> set (drop ?m (sqLatest sq ys))"
      by auto
    then show ?thesis
    proof cases
      case 1
      then show ?thesis using drop_descending [OF ok(4) 1] y by (simp add: rows_def latest_def)
    qed (use dropped y in auto)
  qed
qed

text \<open>A report has one of its players as the user or the other, not both.\<close>

lemma filter_either:
  "\<forall>x \<in> set xs. \<not> (P x \<and> Q x) \<Longrightarrow> mset (filter (\<lambda>x. P x \<or> Q x) xs) = mset (filter P xs) + mset (filter Q xs)"
  by (induction xs) auto

section \<open>A stored game\<close>

text \<open>The JSON decoder behind the columns: what it reads of a text that was stored.\<close>

definition viaColumn :: "SQL \<Rightarrow> Json \<Rightarrow> Json" where
  "viaColumn sq J =
     J\<lparr>unmarshalDecks := (\<lambda>x. case sqJson sq x of None \<Rightarrow> Inl [] | Some y \<Rightarrow> unmarshalDecks J y),
       unmarshalLog := (\<lambda>x. case sqJson sq x of None \<Rightarrow> Inl [] | Some y \<Rightarrow> unmarshalLog J y)\<rparr>"

lemma toBattleReport_viaColumn [simp]: "toBattleReport (viaColumn sq J) h rep = toBattleReport J h rep"
  by (simp add: toBattleReport_def viaColumn_def cong: sum.case_cong)

lemma stored_row:
  assumes "Build env (viaColumn sq J) sw oc h br = Inr res" "brStartedAt br \<noteq> None"
  obtains row where "storedRow sq br = Some row" "Build env J sw oc h row = Inr (resultOf row (resFrames res))"
    "brRoomID row = brRoomID br" "brPlayerA row = brPlayerA br" "brPlayerB row = brPlayerB br"
proof -
  from assms(1) obtain log steps s0 t where b: "brCardsHash br = h" "decodes env (viaColumn sq J) sw oc br log steps s0"
    "plays Apply s0 steps t"
    "\<forall>k < length log. leHash (log ! k) = [] \<or>
       leHash (log ! k) = Checksum (quoteRest env) (trail Apply s0 steps ! k)"
    "Winner t = brWinner br" "DisplayRound t = brRounds br" "Over t \<longleftrightarrow> brEndReason br = ''finished''"
    "res = resultOf br (frames log steps s0)"
    unfolding Build_Inr_iff by blast
  from b(2) obtain d a where j: "sqJson sq (brInitDecksJSON br) = Some d" "sqJson sq (brActionsJSON br) = Some a"
    by (auto simp: decodes_def viaColumn_def split: option.splits)
  from assms(2) obtain t0 where t0: "brStartedAt br = Some t0" by auto
  let ?row = "br\<lparr>brInitDecksJSON := d, brActionsJSON := a, brStartedAt := Some (datetime3 t0),
     brEndedAt := datetime3 (brEndedAt br)\<rparr>"
  have "decodes env J sw oc ?row log steps s0"
    using b(2) j by (auto simp: decodes_def viaColumn_def)
  then have "Build env J sw oc h ?row = Inr (resultOf ?row (frames log steps s0))"
    unfolding Build_Inr_iff
    by (intro conjI exI [of _ log] exI [of _ steps] exI [of _ s0] exI [of _ t]) (use b in simp_all)
  moreover have "resFrames res = frames log steps s0" using b(8) by (simp add: resultOf_def)
  ultimately show thesis using j t0 by (intro that [of ?row]) (simp_all add: storedRow_def)
qed

lemma find_append: "find P (xs @ ys) = (case find P xs of None \<Rightarrow> find P ys | Some x \<Rightarrow> Some x)"
  by (induction xs) auto

text \<open>What is saved is found, if no other report has the id of its room.\<close>

lemma GetReport_saved:
  assumes "sql_ok sq" "storedRow sq br = Some row" "brRoomID row = brRoomID br"
    and "\<forall>x \<in> set (dbReports db). \<not> sqSame sq (brRoomID x) (brRoomID br)"
  shows "GetReport sq None (brRoomID br) (fst (SaveBattleReport sq None br db)) = Inr (Some row)"
proof -
  have "find (\<lambda>r. sqSame sq (brRoomID r) (brRoomID br)) (dbReports db) = None"
    using assms(4) by (simp add: find_None_iff)
  then show ?thesis
    using assms sql_okD(1) [OF assms(1)] by (auto simp: GetReport_def SaveBattleReport_def find_append)
qed

section \<open>Properties\<close>

text \<open>
  C5. From the room to the page: the game a room has hosted, written to the database by the
  room when it closed, is shown to either of its players, provided the card table is as it
  was and MySQL took the row. The frames of the answer are the states of the game in order,
  from the opening to the state the room ended with. The JSON columns may reformat what
  was written, as long as the decoder reads it back.
\<close>
theorem saved_game_replays:
  assumes new: "NewState sw room (Some c) \<lparr>iID = pa, iCards = da\<rparr> \<lparr>iID = pb, iCards = db\<rparr> seed = Inr s0"
    and lib: "shuffle_ok sw" "wf_catalog c" "decoder_ok env"
    and run: "reach env (initSystem now (createdRoom s0 room pa pb out f)) S"
    and rep: "rep \<in> set (rReports (lRoom (sLoop S)))"
    and sql: "json_ok (viaColumn sq J) env rep" "sql_ok sq" "\<forall>x \<in> set (dbReports d). \<not> sqSame sq (brRoomID x) room"
    and me: "snd (PlayerFromToken (look now') auth s) = Inr me" "me \<in> {pa, pb}"
  shows "\<exists>res b steps.
    snd (ReplayReport look
      (sqlReports sq None (saveReport J (\<lambda>d r. fst (SaveBattleReport sq None r d)) h rep d))
      (Build env J sw (Some c) h) now' auth room s) = (200, PageReplay res) \<and>
    rBattle (lRoom (sLoop S)) = Some b \<and> Steps env (rLog (lRoom (sLoop S))) = Inr steps \<and>
    plays Apply s0 steps b \<and> map fState (resFrames res) = map godView (s0 # trail Apply s0 steps)"
proof -
  obtain br res b steps where br: "toBattleReport J h rep = Inr br"
    "Build env (viaColumn sq J) sw (Some c) h br = Inr res"
    "brRoomID br = room" "brPlayerA br = pa" "brPlayerB br = pb" "brStartedAt br \<noteq> None"
    and game: "rBattle (lRoom (sLoop S)) = Some b" "Steps env (rLog (lRoom (sLoop S))) = Inr steps"
      "plays Apply s0 steps b" "map fState (resFrames res) = map godView (s0 # trail Apply s0 steps)"
    using room_report_rebuilds [OF new lib run rep sql(1), of h] by auto
  obtain row where row: "storedRow sq br = Some row"
    "Build env J sw (Some c) h row = Inr (resultOf row (resFrames res))"
    "brRoomID row = brRoomID br" "brPlayerA row = brPlayerA br" "brPlayerB row = brPlayerB br"
    by (rule stored_row [OF br(2,6)])
  have "GetReport sq None room (fst (SaveBattleReport sq None br d)) = Inr (Some row)"
    using GetReport_saved [OF sql(2) row(1,3)] sql(3) br(3) by simp
  then have "snd (ReplayReport look
      (sqlReports sq None (saveReport J (\<lambda>d r. fst (SaveBattleReport sq None r d)) h rep d))
      (Build env J sw (Some c) h) now' auth room s) = (200, PageReplay (resultOf row (resFrames res)))"
    using me br row
    by (cases "PlayerFromToken (look now') auth s") (auto simp: ReplayReport_def sqlReports_def saveReport_def)
  moreover have "resFrames (resultOf row (resFrames res)) = resFrames res" by (simp add: resultOf_def)
  ultimately show ?thesis using game by metis
qed

text \<open>A server that compares bytes, and its tables.\<close>

definition sample_sql :: SQL where
  "sample_sql = \<lparr>sqSame = (=), sqJson = Some, sqLatest = (\<lambda>xs. rev (sort_key rsStartedAt xs))\<rparr>"

definition sample_db :: DB where
  "sample_db =
     \<lparr>dbUsers = [\<lparr>urId = 1, urName = ''alice'', urPassword = ''secret''\<rparr>, \<lparr>urId = 2, urName = ''bob'', urPassword = ''pet''\<rparr>],
      dbDecks = [], dbReports = [tampered_row\<lparr>brRoomID := ''old''\<rparr>]\<rparr>"

definition bob_look :: "unit looker" where
  "bob_look _ tok s = (s, Inr ''bob'')"

lemma bob_logged_in: "snd (PlayerFromToken (bob_look t) ''Bearer x'' s) = Inr ''bob''"
  by (simp add: PlayerFromToken_def bob_look_def)

lemma sample_sql_ok: "sql_ok sample_sql"
  using sorted_sort_key [of "rsStartedAt :: ReportSummary \<Rightarrow> int"]
  by (simp add: sql_ok_def sample_sql_def sorted_wrt_rev sorted_map)

lemma sample_viaColumn: "viaColumn sample_sql J = J"
  by (simp add: viaColumn_def sample_sql_def)

theorem saved_game_replays_witness:
  "\<exists>rep res. rReports (lRoom (sLoop sample_closed)) = [rep] \<and>
     snd (ReplayReport bob_look
       (sqlReports sample_sql None (saveReport sample_json (\<lambda>d r. fst (SaveBattleReport sample_sql None r d)) ''cards'' rep sample_db))
       (Build sample_env sample_json sample_swaps (Some sample_catalog) ''cards'') 9 ''Bearer x'' ''room'' ()) =
     (200, PageReplay res)"
proof -
  obtain rep where rep: "rReports (lRoom (sLoop sample_closed)) = [rep]" using sample_closed_report by blast
  have "\<forall>x \<in> set (dbReports sample_db). \<not> sqSame sample_sql (brRoomID x) ''room''"
    by (simp add: sample_db_def sample_sql_def)
  moreover have "rep \<in> set (rReports (lRoom (sLoop sample_closed)))" "json_ok (viaColumn sample_sql sample_json) sample_env rep"
    using rep sample_report_json [OF rep] by (simp_all add: sample_viaColumn)
  ultimately show ?thesis
    using saved_game_replays [OF sample_new sample_swaps_ok sample_catalog_wf sample_decoder
      sample_closed_reach [unfolded sample_created], where look = bob_look and now' = 9 and auth = "''Bearer x''"
      and s = "()" and me = "''bob''" and sq = sample_sql and J = sample_json and h = "''cards''" and rep = rep and d = sample_db]
      rep sample_sql_ok bob_logged_in by auto
qed

text \<open>
  C29. A player's page lists the newest of their games, as many as were asked for (20 unless
  said otherwise, at most 100) or as there are, the newest first, each once, as that
  player saw it; no game that is left out is newer than one that is listed. Taking the
  newest of each of the two columns first, as the query does, loses none.
\<close>
theorem reports_are_the_newest:
  assumes "sql_ok sq" and "snd (PlayerFromToken (look now) auth s) = Inr me"
    and "\<forall>x \<in> set (dbReports db). \<not> (sqSame sq (brPlayerA x) me \<and> sqSame sq (brPlayerB x) me)"
  defines "mine \<equiv> filter (\<lambda>x. sqSame sq (rsPlayerA x) me \<or> sqSame sq (rsPlayerB x) me) (map summaryOf (dbReports db))"
  shows "1 \<le> reportLimit atoi q \<and> reportLimit atoi q \<le> 100 \<and>
    (\<exists>rows. snd (ListReports look (sqlReports sq None db) atoi now auth q s) = (200, PageReports (map (toItem me) rows)) \<and>
       mset rows \<subseteq># mset mine \<and> length rows = min (nat (reportLimit atoi q)) (length mine) \<and>
       sorted_wrt (\<lambda>x y. rsStartedAt y \<le> rsStartedAt x) rows \<and>
       (\<forall>x y. x \<in># mset mine - mset rows \<and> y \<in> set rows \<longrightarrow> rsStartedAt x \<le> rsStartedAt y))"
proof -
  let ?all = "map summaryOf (dbReports db)"
  let ?as = "filter (\<lambda>x. sqSame sq (rsPlayerA x) me) ?all" and ?bs = "filter (\<lambda>x. sqSame sq (rsPlayerB x) me) ?all"
  let ?n = "reportLimit atoi q"
  let ?rows = "latest sq ?n (latest sq ?n ?as @ latest sq ?n ?bs)"
  have "\<forall>x \<in> set ?all. \<not> (sqSame sq (rsPlayerA x) me \<and> sqSame sq (rsPlayerB x) me)"
    using assms(3) by (simp add: summaryOf_def)
  from filter_either [OF this] have mine: "mset ?as + mset ?bs = mset mine" by (simp add: mine_def)
  then have len: "length ?as + length ?bs = length mine" by (metis mset_append size_mset length_append)
  note newest = latest_union [OF assms(1), where n = ?n and xs = ?as and ys = ?bs, unfolded mine len]
  have "snd (ListReports look (sqlReports sq None db) atoi now auth q s) = (200, PageReports (map (toItem me) ?rows))"
    using assms(2)
    by (cases "PlayerFromToken (look now) auth s") (simp add: ListReports_def sqlReports_def storeListReports_def Let_def)
  moreover have "1 \<le> ?n \<and> ?n \<le> 100" by (simp add: reportLimit_def split: option.split)
  ultimately show ?thesis using newest by blast
qed

theorem reports_are_the_newest_witness:
  "\<exists>rows. snd (ListReports bob_look (sqlReports sample_sql None sample_db) (\<lambda>_. None) 9 ''Bearer x'' [] ()) =
     (200, PageReports (map (toItem ''bob'') rows)) \<and> length rows = 1"
proof -
  have "\<forall>x \<in> set (dbReports sample_db). \<not> (sqSame sample_sql (brPlayerA x) ''bob'' \<and> sqSame sample_sql (brPlayerB x) ''bob'')"
    by (simp add: sample_db_def sample_sql_def tampered_row_def)
  moreover have "length (filter (\<lambda>x. sqSame sample_sql (rsPlayerA x) ''bob'' \<or> sqSame sample_sql (rsPlayerB x) ''bob'')
      (map summaryOf (dbReports sample_db))) = 1"
    by (simp add: sample_db_def sample_sql_def tampered_row_def summaryOf_def)
  moreover have "reportLimit (\<lambda>_. None) [] = 20" by (simp add: reportLimit_def)
  ultimately show ?thesis
    using reports_are_the_newest [where look = bob_look and now = 9 and db = sample_db and atoi = "\<lambda>_. None" and q = "[]",
        OF sample_sql_ok bob_logged_in]
    by auto
qed

lemma keyed_find:
  assumes "keyed sq db" "FindUserByName sq fault n db = Row (i, p)" "FindUserByName sq fault n' db = Row (i, p')"
  shows "p = p'"
proof -
  have "\<exists>u \<in> set (dbUsers db). urId u = i \<and> urPassword u = x" if "FindUserByName sq fault m db = Row (i, x)" for m x
    using that by (auto simp: FindUserByName_def find_Some_iff split: option.splits)
  then obtain u u' where u: "u \<in> set (dbUsers db)" "urId u = i" "urPassword u = p"
    "u' \<in> set (dbUsers db)" "urId u' = i" "urPassword u' = p'" using assms(2,3) by meson
  have "inj_on urId (set (dbUsers db))" using assms(1) by (simp add: keyed_def distinct_map)
  with u show ?thesis by (metis inj_onD)
qed

text \<open>
  C25. A login checks name and password, and whatever its outcome it changes nobody's credentials.
  It succeeds only for a POST the limiter grants whose name and password are right; once those
  checks and the database let it through, it is refused exactly when they are wrong. The table
  of users is only changed by a login with the right password (200, or 503 if no token could be
  stored); afterwards, whether or not the old plain password was replaced by a hash on the way
  and whatever the database did, exactly the same passwords are accepted for every name, as far
  as bcrypt can tell them apart. The stored password is then as it was or a bcrypt hash, and
  the rows of other users are as before.
\<close>
theorem login_keeps_credentials:
  assumes "bcrypt_ok (seBcrypt env)" and "bcrypt_exact (seBcrypt env)"
    and "seDB env = sqlUsers sq marshal readFault writeFault" and "keyed sq (siUsers s)"
    and "Login env now salt rnd r s = (s', code, b)"
  shows "(code = 200 \<longrightarrow>
      (\<exists>q uid pass pass' token. rqMethod r = ''POST'' \<and> snd (limitLogin env now r s) \<and>
         seLoginReq env (rqBody r) = Some q \<and> b = LoginBody token (lrUsername q) \<and>
         FindUserByName sq readFault (lrUsername q) (siUsers s) = Row (uid, pass) \<and>
         fst (checkPassword (seBcrypt env) pass (lrPassword q)) \<and>
         FindUserByName sq readFault (lrUsername q) (siUsers s') = Row (uid, pass') \<and>
         fst (checkPassword (seBcrypt env) pass' (lrPassword q)) \<and> (pass' = pass \<or> isBcryptHash pass') \<and>
         (\<forall>name i pw. FindUserByName sq readFault name (siUsers s) = Row (i, pw) \<and> i \<noteq> uid \<longrightarrow>
            FindUserByName sq readFault name (siUsers s') = Row (i, pw)))) \<and>
    (\<forall>q. rqMethod r = ''POST'' \<and> snd (limitLogin env now r s) \<and> seLoginReq env (rqBody r) = Some q \<and> readFault = None \<longrightarrow>
       (code = 200 \<or> code = 503 \<longleftrightarrow>
          accepts (seBcrypt env) (FindUserByName sq readFault (lrUsername q) (siUsers s)) (lrPassword q))) \<and>
    (code \<noteq> 200 \<and> code \<noteq> 503 \<longrightarrow> siUsers s' = siUsers s) \<and>
    (\<forall>name pw. plainPw pw \<and> (\<forall>q. seLoginReq env (rqBody r) = Some q \<longrightarrow> plainPw (lrPassword q)) \<longrightarrow>
       accepts (seBcrypt env) (FindUserByName sq readFault name (siUsers s')) pw =
       accepts (seBcrypt env) (FindUserByName sq readFault name (siUsers s)) pw)"
proof (intro conjI impI allI)
  fix name pw
  assume pw: "plainPw pw \<and> (\<forall>q. seLoginReq env (rqBody r) = Some q \<longrightarrow> plainPw (lrPassword q))"
  show "accepts (seBcrypt env) (FindUserByName sq readFault name (siUsers s')) pw =
      accepts (seBcrypt env) (FindUserByName sq readFault name (siUsers s)) pw"
    using sql_users.login_same_credentials [OF assms(1-3,5), of pw name] keyed_find [OF assms(4)] pw
    by (auto simp: sqlUsers_def)
next
  fix q
  assume "rqMethod r = ''POST'' \<and> snd (limitLogin env now r s) \<and> seLoginReq env (rqBody r) = Some q \<and> readFault = None"
  with Login_accepts [OF assms(5), of q]
  show "code = 200 \<or> code = 503 \<longleftrightarrow>
      accepts (seBcrypt env) (FindUserByName sq readFault (lrUsername q) (siUsers s)) (lrPassword q)"
    by (simp add: assms(3) sqlUsers_def FindUserByName_def split: option.split)
next
  assume "code \<noteq> 200 \<and> code \<noteq> 503"
  with Login_users [OF assms(5)] show "siUsers s' = siUsers s" by blast
next
  assume "code = 200"
  from sql_users.login_keeps [OF assms(1,3) assms(5) [unfolded this]]
  show "\<exists>q uid pass pass' token. rqMethod r = ''POST'' \<and> snd (limitLogin env now r s) \<and>
         seLoginReq env (rqBody r) = Some q \<and> b = LoginBody token (lrUsername q) \<and>
         FindUserByName sq readFault (lrUsername q) (siUsers s) = Row (uid, pass) \<and>
         fst (checkPassword (seBcrypt env) pass (lrPassword q)) \<and>
         FindUserByName sq readFault (lrUsername q) (siUsers s') = Row (uid, pass') \<and>
         fst (checkPassword (seBcrypt env) pass' (lrPassword q)) \<and> (pass' = pass \<or> isBcryptHash pass') \<and>
         (\<forall>name i pw. FindUserByName sq readFault name (siUsers s) = Row (i, pw) \<and> i \<noteq> uid \<longrightarrow>
            FindUserByName sq readFault name (siUsers s') = Row (i, pw))"
    by (simp add: sqlUsers_def)
qed

definition sql_site_env :: "(DB, MemTokens) SiteEnv" where
  "sql_site_env = \<lparr>seDB = sqlUsers sample_sql concat None None, seBcrypt = sample_bcrypt, seIssue = memIssue,
     seLook = memLookup, seLoginReq = (\<lambda>b. Some \<lparr>lrUsername = ''alice'', lrPassword = b\<rparr>), seDeckReq = (\<lambda>_. None),
     seSplit = (\<lambda>_. None)\<rparr>"

definition sql_site :: "(DB, MemTokens) Site" where
  "sql_site = \<lparr>siUsers = sample_db, siTokens = NewMemTokens 0 10 [], siLimiter = None, siCompared = []\<rparr>"

theorem login_keeps_credentials_witness:
  "\<exists>s' b pass'. Login sql_site_env 0 0 (Inr [1, 2, 3]) sample_login sql_site = (s', 200, b) \<and>
     FindUserByName sample_sql None ''alice'' (siUsers s') = Row (1, pass') \<and>
     fst (checkPassword sample_bcrypt pass' ''secret'') \<and> \<not> accepts sample_bcrypt (Row (1, pass')) ''guess''"
proof -
  have "\<exists>s' b. Login sql_site_env 0 0 (Inr [1, 2, 3]) sample_login sql_site = (s', 200, b)"
    by (simp add: Login_def sql_site_env_def sample_login_def sql_site_def sample_db_def limitLogin_def sqlUsers_def
        FindUserByName_def sample_sql_def checkPassword_def isBcryptHash_def memIssue_def newToken_def Let_def)
  then obtain s' b where l: "Login sql_site_env 0 0 (Inr [1, 2, 3]) sample_login sql_site = (s', 200, b)" by blast
  have env: "bcrypt_ok (seBcrypt sql_site_env)" "seDB sql_site_env = sqlUsers sample_sql concat None None"
    "seLoginReq sql_site_env = (\<lambda>b. Some \<lparr>lrUsername = ''alice'', lrPassword = b\<rparr>)" "seBcrypt sql_site_env = sample_bcrypt"
    using sample_bcrypt_ok by (simp_all add: sql_site_env_def sample_site_env_def)
  have "FindUserByName sample_sql None ''alice'' (siUsers sql_site) = Row (1, ''secret'')"
    by (simp add: FindUserByName_def sql_site_def sample_db_def sample_sql_def)
  moreover have "keyed sample_sql (siUsers sql_site)"
    by (simp add: keyed_def sql_site_def sample_db_def sample_sql_def)
  moreover have "plainPw ''secret''" "plainPw ''guess''" by (simp_all add: plainPw_def)
  moreover have "\<not> accepts sample_bcrypt (Row (1, ''secret'')) ''guess''"
    by (simp add: accepts_def checkPassword_def isBcryptHash_def)
  ultimately show ?thesis
    using login_keeps_credentials [OF env(1) _ env(2) _ l] sample_bcrypt_exact l
    by (simp add: env sample_login_def) (metis surj_pair)
qed

end
