(* ===== verification/Match.thy ===== *)
theory Match
  imports Complex_Main Prelude "HOL-Library.DAList"
begin

text \<open>
  \<open>internal/match/match.go\<close>: the waiting queue, two sorted sets of Redis (rating, and time
  of arrival), and the round that pairs players. Redis is a parameter: its commands act on a
  store of any type, which may change under other clients between any two commands. Scores
  are reals.
\<close>

datatype ZKey = keyRating | keyTime

record 'r ZDB =
  zAddNX :: "ZKey \<Rightarrow> real \<Rightarrow> string \<Rightarrow> 'r \<Rightarrow> 'r \<times> string option"
  zAdd :: "ZKey \<Rightarrow> real \<Rightarrow> string \<Rightarrow> 'r \<Rightarrow> 'r \<times> string option"
  zRem :: "ZKey \<Rightarrow> string \<Rightarrow> 'r \<Rightarrow> 'r \<times> (string + nat)"
  zRemBoth :: "string \<Rightarrow> 'r \<Rightarrow> 'r \<times> string option"
  zRange :: "ZKey \<Rightarrow> int \<Rightarrow> int \<Rightarrow> 'r \<Rightarrow> 'r \<times> (string + (string \<times> real) list)"
  zScore :: "ZKey \<Rightarrow> string \<Rightarrow> 'r \<Rightarrow> 'r \<times> (string + real option)"
  zByScore :: "ZKey \<Rightarrow> real \<Rightarrow> real \<Rightarrow> nat \<Rightarrow> 'r \<Rightarrow> 'r \<times> (string + string list)"

record Matcher =
  mmBaseWindow :: real
  mmWidenPerSec :: real
  mmMaxWindow :: real
  mmBatch :: int

record Pair =
  pairA :: string
  pairB :: string
  pairRoom :: string

section \<open>The queue\<close>

text \<open>\<open>Join\<close>; \<open>now\<close> is \<open>time.Now().UnixMilli()\<close>.\<close>

definition JoinQueue :: "'r ZDB \<Rightarrow> int \<Rightarrow> string \<Rightarrow> real \<Rightarrow> 'r \<Rightarrow> 'r \<times> string option" where
  "JoinQueue db now p score r =
     (case zAddNX db keyRating score p r of
        (r1, Some e) \<Rightarrow> (r1, Some e)
      | (r1, None) \<Rightarrow> zAddNX db keyTime (real_of_int now) p r1)"

definition restore :: "'r ZDB \<Rightarrow> string \<Rightarrow> real \<Rightarrow> real \<Rightarrow> 'r \<Rightarrow> 'r \<times> string option" where
  "restore db p score enqueuedAt r =
     (case zAdd db keyRating score p r of
        (r1, Some e) \<Rightarrow> (r1, Some e)
      | (r1, None) \<Rightarrow> zAdd db keyTime enqueuedAt p r1)"

definition LeaveQueue :: "'r ZDB \<Rightarrow> string \<Rightarrow> 'r \<Rightarrow> 'r \<times> string option" where
  "LeaveQueue db p r = zRemBoth db p r"

definition takePlayer :: "'r ZDB \<Rightarrow> string \<Rightarrow> 'r \<Rightarrow> 'r \<times> (string + bool)" where
  "takePlayer db p r =
     (case zRem db keyRating p r of
        (r1, Inl e) \<Rightarrow> (r1, Inl e)
      | (r1, Inr n) \<Rightarrow> if n = 0 then (r1, Inr False) else (fst (zRem db keyTime p r1), Inr True))"

section \<open>A round\<close>

record 'r MatchRound =
  mrDB :: 'r
  mrPaired :: "string list"
  mrPairs :: "Pair list"

text \<open>The window of a player who has waited since \<open>t\<close>, in milliseconds.\<close>

definition window :: "Matcher \<Rightarrow> int \<Rightarrow> real \<Rightarrow> real" where
  "window cfg now t =
     (let waited = (real_of_int now - t) / 1000;
          w = mmBaseWindow cfg + mmWidenPerSec cfg * waited
      in if w > mmMaxWindow cfg then mmMaxWindow cfg else w)"

definition pickOpponent :: "string list \<Rightarrow> string \<Rightarrow> string list \<Rightarrow> string" where
  "pickOpponent paired a ids =
     (case find (\<lambda>t. t \<noteq> a \<and> t \<notin> set paired) ids of None \<Rightarrow> [] | Some t \<Rightarrow> t)"

definition roomIdOf :: "string \<Rightarrow> string \<Rightarrow> int \<Rightarrow> string" where
  "roomIdOf a b nano = a @ ''-'' @ b @ ''-'' @ show_int nano"

text \<open>
  The body of the loop for one entry \<open>(a, t)\<close> of the time set. \<open>stamp n\<close> is the nanosecond
  clock when the \<open>n\<close>-th pair is made. The second component is the error \<open>matchOnce\<close> returns.
\<close>

definition tryPair ::
  "'r ZDB \<Rightarrow> Matcher \<Rightarrow> int \<Rightarrow> (nat \<Rightarrow> int) \<Rightarrow> string \<Rightarrow> real \<Rightarrow> string \<Rightarrow> real \<Rightarrow> 'r MatchRound \<Rightarrow>
     'r MatchRound \<times> string option" where
  "tryPair db cfg now stamp a t b aScore rd =
     (case takePlayer db a (mrDB rd) of
        (r, Inl e) \<Rightarrow> (rd\<lparr>mrDB := r\<rparr>, Some e)
      | (r, Inr False) \<Rightarrow> (rd\<lparr>mrDB := r\<rparr>, None)
      | (r, Inr True) \<Rightarrow>
          (case takePlayer db b r of
             (r', Inr True) \<Rightarrow>
               (\<lparr>mrDB = r', mrPaired = mrPaired rd @ [a, b],
                 mrPairs = mrPairs rd @ [\<lparr>pairA = a, pairB = b, pairRoom = roomIdOf a b (stamp (length (mrPairs rd)))\<rparr>]\<rparr>,
                None)
           | (r', _) \<Rightarrow> (rd\<lparr>mrDB := fst (restore db a aScore t r')\<rparr>, None)))"

definition matchPlayer ::
  "'r ZDB \<Rightarrow> Matcher \<Rightarrow> int \<Rightarrow> (nat \<Rightarrow> int) \<Rightarrow> string \<times> real \<Rightarrow> 'r MatchRound \<Rightarrow> 'r MatchRound \<times> string option" where
  "matchPlayer db cfg now stamp z rd =
     (case z of
        (a, t) \<Rightarrow>
          if a \<in> set (mrPaired rd) then (rd, None)
          else
            (case zScore db keyRating a (mrDB rd) of
               (r, Inl e) \<Rightarrow> (rd\<lparr>mrDB := r\<rparr>, Some e)
             | (r, Inr None) \<Rightarrow> (rd\<lparr>mrDB := r\<rparr>, None)
             | (r, Inr (Some aScore)) \<Rightarrow>
                 (let w = window cfg now t in
                  case zByScore db keyRating (aScore - w) (aScore + w) 10 r of
                    (r, Inl e) \<Rightarrow> (rd\<lparr>mrDB := r\<rparr>, Some e)
                  | (r, Inr ids) \<Rightarrow>
                      (let b = pickOpponent (mrPaired rd) a ids
                       in if b = [] then (rd\<lparr>mrDB := r\<rparr>, None)
                          else tryPair db cfg now stamp a t b aScore (rd\<lparr>mrDB := r\<rparr>)))))"

fun matchLoop ::
  "'r ZDB \<Rightarrow> Matcher \<Rightarrow> int \<Rightarrow> (nat \<Rightarrow> int) \<Rightarrow> (string \<times> real) list \<Rightarrow> 'r MatchRound \<Rightarrow>
     'r MatchRound \<times> string option" where
  "matchLoop db cfg now stamp [] rd = (rd, None)"
| "matchLoop db cfg now stamp (z # zs) rd =
     (case matchPlayer db cfg now stamp z rd of
        (rd', Some e) \<Rightarrow> (rd', Some e)
      | (rd', None) \<Rightarrow> matchLoop db cfg now stamp zs rd')"

text \<open>\<open>matchOnce\<close>: the store afterwards, the pairs handed to \<open>OnMatch\<close> in order, and the error.\<close>

definition matchOnce ::
  "'r ZDB \<Rightarrow> Matcher \<Rightarrow> int \<Rightarrow> (nat \<Rightarrow> int) \<Rightarrow> 'r \<Rightarrow> 'r \<times> Pair list \<times> string option" where
  "matchOnce db cfg now stamp r =
     (let batch = (if mmBatch cfg \<le> 0 then 20 else mmBatch cfg)
      in case zRange db keyTime 0 (batch - 1) r of
           (r1, Inl e) \<Rightarrow> (r1, [], Some e)
         | (r1, Inr zs) \<Rightarrow>
             (case matchLoop db cfg now stamp zs \<lparr>mrDB = r1, mrPaired = [], mrPairs = []\<rparr> of
                (rd, e) \<Rightarrow> (mrDB rd, mrPairs rd, e)))"

section \<open>Whatever Redis answers\<close>

definition pairPlayers :: "Pair list \<Rightarrow> string list" where
  "pairPlayers ps = concat (map (\<lambda>p. [pairA p, pairB p]) ps)"

definition round_ok :: "(nat \<Rightarrow> int) \<Rightarrow> 'r MatchRound \<Rightarrow> bool" where
  "round_ok stamp rd \<longleftrightarrow>
     pairPlayers (mrPairs rd) = mrPaired rd \<and> distinct (mrPaired rd) \<and>
     (\<forall>k < length (mrPairs rd). pairRoom (mrPairs rd ! k) =
        roomIdOf (pairA (mrPairs rd ! k)) (pairB (mrPairs rd ! k)) (stamp k))"

lemma pairPlayers_snoc: "pairPlayers (ps @ [p]) = pairPlayers ps @ [pairA p, pairB p]"
  by (simp add: pairPlayers_def)

lemma pickOpponent:
  "b = pickOpponent paired a ids \<Longrightarrow> b \<noteq> [] \<Longrightarrow> b \<in> set ids \<and> b \<noteq> a \<and> b \<notin> set paired"
  by (cases "find (\<lambda>t. t \<noteq> a \<and> t \<notin> set paired) ids") (auto simp: pickOpponent_def find_Some_iff)

text \<open>What \<open>matchPlayer\<close> comes down to: nothing but reads, or \<open>tryPair\<close> on a player in the window.\<close>

lemma matchPlayer_cases:
  obtains (read) r where "fst (matchPlayer db cfg now stamp (a, t) rd) = rd\<lparr>mrDB := r\<rparr>"
      "r = mrDB rd \<or> r = fst (zScore db keyRating a (mrDB rd)) \<or>
       (\<exists>lo hi. r = fst (zByScore db keyRating lo hi 10 (fst (zScore db keyRating a (mrDB rd)))))"
  | (pair) r1 aScore w r ids b where "a \<notin> set (mrPaired rd)" "r1 = fst (zScore db keyRating a (mrDB rd))"
      "snd (zScore db keyRating a (mrDB rd)) = Inr (Some aScore)" "w = window cfg now t"
      "zByScore db keyRating (aScore - w) (aScore + w) 10 r1 = (r, Inr ids)"
      "b \<in> set ids" "b \<noteq> a" "b \<notin> set (mrPaired rd)"
      "matchPlayer db cfg now stamp (a, t) rd = tryPair db cfg now stamp a t b aScore (rd\<lparr>mrDB := r\<rparr>)"
proof -
  obtain r1 x where sc: "zScore db keyRating a (mrDB rd) = (r1, x)" by (cases "zScore db keyRating a (mrDB rd)")
  show thesis
  proof (cases "a \<notin> set (mrPaired rd) \<and> (\<exists>aScore. x = Inr (Some aScore))")
    case False
    then consider "a \<in> set (mrPaired rd)" | "a \<notin> set (mrPaired rd)" "\<exists>e. x = Inl e" | "a \<notin> set (mrPaired rd)" "x = Inr None"
      by (cases x; force)
    then show thesis
    proof cases
      case 1
      then show thesis by (intro read [of "mrDB rd"]) (simp_all add: matchPlayer_def)
    qed (use sc in \<open>auto intro!: read [of r1] simp: matchPlayer_def\<close>)
  next
    case True
    then obtain aScore where x: "a \<notin> set (mrPaired rd)" "x = Inr (Some aScore)" by blast
    let ?w = "window cfg now t"
    obtain r y where rg: "zByScore db keyRating (aScore - ?w) (aScore + ?w) 10 r1 = (r, y)"
      by (cases "zByScore db keyRating (aScore - ?w) (aScore + ?w) 10 r1")
    have r: "r = fst (zByScore db keyRating (aScore - ?w) (aScore + ?w) 10 (fst (zScore db keyRating a (mrDB rd))))"
      using rg sc by simp
    show thesis
    proof (cases "\<exists>ids. y = Inr ids \<and> pickOpponent (mrPaired rd) a ids \<noteq> []")
      case True
      then obtain ids where y: "y = Inr ids" "pickOpponent (mrPaired rd) a ids \<noteq> []" by blast
      from pickOpponent [OF refl y(2)] show thesis
        by (intro pair [of r1 aScore ?w r ids "pickOpponent (mrPaired rd) a ids"])
          (use x y sc rg in \<open>simp_all add: matchPlayer_def Let_def\<close>)
    next
      case False
      have "fst (matchPlayer db cfg now stamp (a, t) rd) = rd\<lparr>mrDB := r\<rparr>"
        using False x sc rg by (cases y) (auto simp: matchPlayer_def Let_def)
      then show thesis by (intro read [of r]) (assumption, use r in blast)
    qed
  qed
qed

lemma tryPair_ok:
  assumes "round_ok stamp rd" "a \<notin> set (mrPaired rd)" "b \<notin> set (mrPaired rd)" "a \<noteq> b"
  shows "round_ok stamp (fst (tryPair db cfg now stamp a t b s rd))"
  using assms
  by (auto simp: round_ok_def tryPair_def pairPlayers_snoc nth_append less_Suc_eq
      split: prod.splits sum.splits bool.splits)

lemma round_ok_db [simp]: "round_ok stamp (rd\<lparr>mrDB := r\<rparr>) = round_ok stamp rd"
  by (simp add: round_ok_def)

lemma matchPlayer_ok:
  assumes "round_ok stamp rd" shows "round_ok stamp (fst (matchPlayer db cfg now stamp (a, t) rd))"
proof (cases rule: matchPlayer_cases [of db cfg now stamp a t rd])
  case (read r)
  with assms show ?thesis by simp
next
  case (pair r1 aScore w r ids b)
  then show ?thesis unfolding pair(9) using assms by (intro tryPair_ok) simp_all
qed

lemma matchLoop_ok: "round_ok stamp rd \<Longrightarrow> round_ok stamp (fst (matchLoop db cfg now stamp zs rd))"
proof (induction zs arbitrary: rd)
  case (Cons z zs)
  obtain a t where z: "z = (a, t)" by (cases z)
  obtain rd' e where mp: "matchPlayer db cfg now stamp z rd = (rd', e)" by (cases "matchPlayer db cfg now stamp z rd")
  have "round_ok stamp rd'" using matchPlayer_ok [OF Cons.prems, of db cfg now a t] mp by (simp add: z)
  with Cons.IH mp show ?case by (cases e) simp_all
qed simp

section \<open>A player nobody else touches\<close>

text \<open>
  \<open>ent r k\<close> is the score of player \<open>p\<close> under key \<open>k\<close>. While no other client touches \<open>p\<close>,
  the documented commands change and report \<open>p\<close> as follows; of all other players nothing is
  assumed, they may come and go between any two commands, and reads may fail.
\<close>

definition guarded :: "'r ZDB \<Rightarrow> ('r \<Rightarrow> ZKey \<Rightarrow> real option) \<Rightarrow> string \<Rightarrow> bool" where
  "guarded db ent p \<longleftrightarrow>
     (\<forall>k s m r. ent (fst (zAdd db k s m r)) = (if m = p then (ent r)(k := Some s) else ent r)) \<and>
     (\<forall>k s r. snd (zAdd db k s p r) = None) \<and>
     (\<forall>k m r. ent (fst (zRem db k m r)) = (if m = p then (ent r)(k := None) else ent r)) \<and>
     (\<forall>k r. snd (zRem db k p r) = Inr (if ent r k = None then 0 else 1)) \<and>
     (\<forall>k i j r. ent (fst (zRange db k i j r)) = ent r \<and>
        (\<forall>zs s. snd (zRange db k i j r) = Inr zs \<and> (p, s) \<in> set zs \<longrightarrow> ent r k = Some s)) \<and>
     (\<forall>k m r. ent (fst (zScore db k m r)) = ent r) \<and>
     (\<forall>k r x. snd (zScore db k p r) = Inr x \<longrightarrow> x = ent r k) \<and>
     (\<forall>k lo hi n r. ent (fst (zByScore db k lo hi n r)) = ent r \<and>
        (\<forall>ids. snd (zByScore db k lo hi n r) = Inr ids \<and> p \<in> set ids \<longrightarrow>
           (\<exists>s. ent r k = Some s \<and> lo \<le> s \<and> s \<le> hi)))"

lemma guardedD:
  assumes "guarded db ent p"
  shows "ent (fst (zAdd db k s m r)) = (if m = p then (ent r)(k := Some s) else ent r)"
    "snd (zAdd db k s p r) = None"
    "ent (fst (zRem db k m r)) = (if m = p then (ent r)(k := None) else ent r)"
    "snd (zRem db k p r) = Inr (if ent r k = None then 0 else 1)"
    "ent (fst (zRange db k i j r)) = ent r"
    "snd (zRange db k i j r) = Inr zs \<Longrightarrow> (p, s) \<in> set zs \<Longrightarrow> ent r k = Some s"
    "ent (fst (zScore db k m r)) = ent r"
    "snd (zScore db k p r) = Inr x \<Longrightarrow> x = ent r k"
    "ent (fst (zByScore db k lo hi n r)) = ent r"
    "snd (zByScore db k lo hi n r) = Inr ids \<Longrightarrow> p \<in> set ids \<Longrightarrow> \<exists>s. ent r k = Some s \<and> lo \<le> s \<and> s \<le> hi"
proof -
  note g = assms [unfolded guarded_def]
  show "ent (fst (zAdd db k s m r)) = (if m = p then (ent r)(k := Some s) else ent r)"
    "snd (zAdd db k s p r) = None"
    "ent (fst (zRem db k m r)) = (if m = p then (ent r)(k := None) else ent r)"
    "snd (zRem db k p r) = Inr (if ent r k = None then 0 else 1)"
    "ent (fst (zRange db k i j r)) = ent r" "ent (fst (zScore db k m r)) = ent r"
    "ent (fst (zByScore db k lo hi n r)) = ent r"
    using g by simp_all
  show "snd (zRange db k i j r) = Inr zs \<Longrightarrow> (p, s) \<in> set zs \<Longrightarrow> ent r k = Some s"
    "snd (zScore db k p r) = Inr x \<Longrightarrow> x = ent r k" using g by blast+
  show "snd (zByScore db k lo hi n r) = Inr ids \<Longrightarrow> p \<in> set ids \<Longrightarrow> \<exists>s. ent r k = Some s \<and> lo \<le> s \<and> s \<le> hi"
    using g by blast
qed

definition queued :: "real \<Rightarrow> real \<Rightarrow> ZKey \<Rightarrow> real option" where
  "queued s t k = (case k of keyRating \<Rightarrow> Some s | keyTime \<Rightarrow> Some t)"

lemma queued_simps [simp]: "queued s t keyRating = Some s" "queued s t keyTime = Some t"
  by (simp_all add: queued_def)

lemma ZKey_ext: "f keyRating = g keyRating \<Longrightarrow> f keyTime = g keyTime \<Longrightarrow> f = g"
  by (rule ext) (metis ZKey.exhaust)

lemma takePlayer_self:
  assumes "guarded db ent p" "ent r = queued s t"
  shows "snd (takePlayer db p r) = Inr True" "ent (fst (takePlayer db p r)) = (\<lambda>_. None)"
proof -
  obtain r1 where z: "zRem db keyRating p r = (r1, Inr 1)"
    using guardedD(4) [OF assms(1), of keyRating r] assms(2) by (cases "zRem db keyRating p r") simp
  have 1: "ent r1 = (ent r)(keyRating := None)" using guardedD(3) [OF assms(1), of keyRating p r] z by simp
  have 2: "ent (fst (zRem db keyTime p r1)) = (ent r1)(keyTime := None)"
    using guardedD(3) [OF assms(1), of keyTime p r1] by simp
  show "snd (takePlayer db p r) = Inr True" using z by (simp add: takePlayer_def)
  show "ent (fst (takePlayer db p r)) = (\<lambda>_. None)"
    using z 2 by (intro ZKey_ext) (simp_all add: takePlayer_def 1)
qed

lemma takePlayer_other:
  assumes "guarded db ent p" "m \<noteq> p"
  shows "ent (fst (takePlayer db m r)) = ent r"
proof -
  have e: "ent (fst (zRem db k m r)) = ent r" for k r using guardedD(3) [OF assms(1)] assms(2) by simp
  obtain r1 x where "zRem db keyRating m r = (r1, x)" by (cases "zRem db keyRating m r")
  with e [of keyRating r] e [of keyTime r1] show ?thesis by (cases x) (simp_all add: takePlayer_def)
qed

lemma restore_ent:
  assumes "guarded db ent p"
  shows "ent (fst (restore db m s t r)) = (if m = p then queued s t else ent r)"
proof -
  note g = guardedD(1) [OF assms] guardedD(2) [OF assms, of keyRating s r]
  obtain r1 x where z: "zAdd db keyRating s m r = (r1, x)" by (cases "zAdd db keyRating s m r")
  show ?thesis
  proof (cases "m = p")
    case True
    then have "x = None" using g(2) z by simp
    with True z show ?thesis using g(1) [of keyTime t m r1] g(1) [of keyRating s m r]
      by (auto simp: restore_def intro!: ZKey_ext)
  next
    case False
    with z show ?thesis using g(1) [of keyTime t m r1] g(1) [of keyRating s m r]
      by (cases x) (simp_all add: restore_def)
  qed
qed

text \<open>In the middle of a round: \<open>p\<close> is either in a pair and out of the queue, or as before.\<close>

definition accounted :: "('r \<Rightarrow> ZKey \<Rightarrow> real option) \<Rightarrow> string \<Rightarrow> real \<Rightarrow> real \<Rightarrow> 'r MatchRound \<Rightarrow> bool" where
  "accounted ent p s t rd \<longleftrightarrow>
     ent (mrDB rd) = (if p \<in> set (mrPaired rd) then \<lambda>_. None else queued s t)"

lemma tryPair_accounted:
  assumes g: "guarded db ent p" and acc: "accounted ent p s t rd"
    and ab: "a \<noteq> b" "a \<notin> set (mrPaired rd)" "b \<notin> set (mrPaired rd)"
    and own: "a = p \<Longrightarrow> aScore = s \<and> ta = t"
  shows "accounted ent p s t (fst (tryPair db cfg now stamp a ta b aScore rd))"
proof -
  note self = takePlayer_self [OF g] and other = takePlayer_other [OF g]
  obtain r x where ta: "takePlayer db a (mrDB rd) = (r, x)" by (cases "takePlayer db a (mrDB rd)")
  obtain r' y where tb: "takePlayer db b r = (r', y)" by (cases "takePlayer db b r")
  note res = restore_ent [OF g, of a aScore ta r']
  show ?thesis
  proof (cases "a = p")
    case True
    have q: "ent (mrDB rd) = queued s t" using acc ab(2) True by (simp add: accounted_def)
    have x: "x = Inr True" "ent r = (\<lambda>_. None)" using self [OF q] ta True by simp_all
    have r': "ent r' = (\<lambda>_. None)" using other [of b r] x(2) ab(1) True tb by simp
    show ?thesis
    proof (cases "y = Inr True")
      case y: True
      with x ta tb r' True show ?thesis by (simp add: tryPair_def accounted_def)
    next
      case False
      have "tryPair db cfg now stamp a ta b aScore rd = (rd\<lparr>mrDB := fst (restore db a aScore ta r')\<rparr>, None)"
        using False x(1) ta tb by (auto simp: tryPair_def split: sum.split bool.split)
      with res own [OF True] True ab(2) show ?thesis by (simp add: accounted_def)
    qed
  next
    case False
    have r: "ent r = ent (mrDB rd)" using other [of a "mrDB rd"] False ta by simp
    show ?thesis
    proof (cases "x = Inr True")
      case x: True
      show ?thesis
      proof (cases "b = p")
        case True
        have "ent r = queued s t" using acc ab(3) True r by (simp add: accounted_def)
        from self [OF this] tb True have "y = Inr True" "ent r' = (\<lambda>_. None)" by simp_all
        with x ta tb True show ?thesis by (simp add: tryPair_def accounted_def)
      next
        case bp: False
        have r': "ent r' = ent (mrDB rd)" using other [of b r] bp tb r by simp
        show ?thesis
        proof (cases "y = Inr True")
          case True
          with x ta tb r' acc False bp show ?thesis by (auto simp: tryPair_def accounted_def)
        next
          case y: False
          have "tryPair db cfg now stamp a ta b aScore rd = (rd\<lparr>mrDB := fst (restore db a aScore ta r')\<rparr>, None)"
            using y x ta tb by (auto simp: tryPair_def split: sum.split bool.split)
          with res r' acc False show ?thesis by (simp add: accounted_def)
        qed
      qed
    next
      case x: False
      then have "fst (tryPair db cfg now stamp a ta b aScore rd) = rd\<lparr>mrDB := r\<rparr>"
        using ta by (auto simp: tryPair_def split: sum.split bool.split)
      with r acc show ?thesis by (simp add: accounted_def)
    qed
  qed
qed

lemma accounted_db:
  "ent r = ent (mrDB rd) \<Longrightarrow> accounted ent p s t (rd\<lparr>mrDB := r\<rparr>) = accounted ent p s t rd"
  by (simp add: accounted_def)

lemma matchPlayer_accounted:
  assumes g: "guarded db ent p" and acc: "accounted ent p s t rd" and own: "a = p \<Longrightarrow> ta = t"
  shows "accounted ent p s t (fst (matchPlayer db cfg now stamp (a, ta) rd))"
proof (cases rule: matchPlayer_cases [of db cfg now stamp a ta rd])
  case (read r)
  then have "ent r = ent (mrDB rd)" using guardedD(7,9) [OF g] by auto
  with acc show ?thesis by (simp add: read(1) accounted_db)
next
  case (pair r1 aScore w r ids b)
  have r: "ent r = ent (mrDB rd)"
    using guardedD(7) [OF g] guardedD(9) [OF g, of keyRating "aScore - w" "aScore + w" 10 r1] pair(2,5) by simp
  have "aScore = s" if "a = p"
    using guardedD(8) [OF g, of keyRating "mrDB rd"] pair(1,3) that acc by (simp add: accounted_def)
  with pair r acc own show ?thesis
    unfolding pair(9) by (intro tryPair_accounted [OF g]) (simp_all add: accounted_db)
qed

lemma matchLoop_accounted:
  assumes g: "guarded db ent p" and zs: "\<forall>x. (p, x) \<in> set zs \<longrightarrow> x = t"
  shows "accounted ent p s t rd \<Longrightarrow> accounted ent p s t (fst (matchLoop db cfg now stamp zs rd))"
  using zs
proof (induction zs arbitrary: rd)
  case (Cons z zs)
  obtain a ta where z: "z = (a, ta)" by (cases z)
  obtain rd' e where mp: "matchPlayer db cfg now stamp z rd = (rd', e)" by (cases "matchPlayer db cfg now stamp z rd")
  have "accounted ent p s t rd'"
    using matchPlayer_accounted [OF g Cons.prems(1), of a ta cfg now stamp] Cons.prems(2) mp by (auto simp: z)
  with Cons.IH [of rd'] Cons.prems(2) mp show ?case by (cases e) simp_all
qed simp

lemma tryPair_pairs:
  assumes "x \<in> set (mrPairs (fst (tryPair db cfg now stamp a t b s rd)))"
  shows "x \<in> set (mrPairs rd) \<or> pairA x = a \<and> pairB x = b"
  using assms by (auto simp: tryPair_def split: prod.splits sum.splits bool.splits)

text \<open>Pairs of two players nobody else touches are within the window of the one who waited.\<close>

definition in_window ::
  "Matcher \<Rightarrow> int \<Rightarrow> string \<Rightarrow> real \<Rightarrow> real \<Rightarrow> string \<Rightarrow> real \<Rightarrow> 'r MatchRound \<Rightarrow> bool" where
  "in_window cfg now p s t q s' rd \<longleftrightarrow>
     (\<forall>x \<in> set (mrPairs rd). pairA x = p \<and> pairB x = q \<longrightarrow> \<bar>s - s'\<bar> \<le> window cfg now t)"

lemma matchPlayer_window:
  assumes g: "guarded db ent p" "guarded db ent' q"
    and acc: "accounted ent p s t rd" "accounted ent' q s' t' rd"
    and win: "in_window cfg now p s t q s' rd" and own: "a = p \<Longrightarrow> ta = t"
  shows "in_window cfg now p s t q s' (fst (matchPlayer db cfg now stamp (a, ta) rd))"
proof (cases rule: matchPlayer_cases [of db cfg now stamp a ta rd])
  case (read r)
  with win show ?thesis by (simp add: in_window_def)
next
  case (pair r1 aScore w r ids b)
  have "\<bar>s - s'\<bar> \<le> window cfg now t" if "a = p" "b = q"
  proof -
    have sc: "aScore = s"
      using guardedD(8) [OF g(1), of keyRating "mrDB rd"] pair(1,3) that acc(1) by (simp add: accounted_def)
    have "ent' r1 = queued s' t'"
      using guardedD(7) [OF g(2)] pair(2,8) that acc(2) by (simp add: accounted_def)
    with guardedD(10) [OF g(2), of keyRating "aScore - w" "aScore + w" 10 r1 ids] pair(5,6) that
    have "aScore - w \<le> s' \<and> s' \<le> aScore + w" by simp
    with sc pair(4) own that show ?thesis by (simp add: abs_le_iff)
  qed
  with win show ?thesis
    unfolding pair(9) in_window_def
    using tryPair_pairs [of _ db cfg now stamp a ta b aScore "rd\<lparr>mrDB := r\<rparr>"] by fastforce
qed

lemma matchLoop_window:
  assumes g: "guarded db ent p" "guarded db ent' q"
    and zs: "\<forall>x. (p, x) \<in> set zs \<longrightarrow> x = t" "\<forall>x. (q, x) \<in> set zs \<longrightarrow> x = t'"
  shows "accounted ent p s t rd \<Longrightarrow> accounted ent' q s' t' rd \<Longrightarrow> in_window cfg now p s t q s' rd \<Longrightarrow>
    in_window cfg now p s t q s' (fst (matchLoop db cfg now stamp zs rd))"
  using zs
proof (induction zs arbitrary: rd)
  case (Cons z zs)
  obtain a ta where z: "z = (a, ta)" by (cases z)
  obtain rd' e where mp: "matchPlayer db cfg now stamp z rd = (rd', e)" by (cases "matchPlayer db cfg now stamp z rd")
  have "accounted ent p s t rd'" "accounted ent' q s' t' rd'"
    using matchPlayer_accounted [OF g(1) Cons.prems(1), of a ta cfg now stamp]
      matchPlayer_accounted [OF g(2) Cons.prems(2), of a ta cfg now stamp] Cons.prems(4,5) mp
    by (auto simp: z)
  moreover have "in_window cfg now p s t q s' rd'"
    using matchPlayer_window [OF g Cons.prems(1-3), of a ta stamp] Cons.prems(4) mp by (auto simp: z)
  ultimately show ?case using Cons.IH [of rd'] Cons.prems(4,5) mp by (cases e) simp_all
qed simp

section \<open>A Redis for the witnesses\<close>

text \<open>Sorted sets as association lists, with no other client.\<close>

definition sample_zdb :: "(ZKey \<Rightarrow> (string, real) alist) ZDB" where
  "sample_zdb =
     \<lparr>zAddNX = (\<lambda>k s m r. (if DAList.lookup (r k) m = None then r(k := DAList.update m s (r k)) else r, None)),
      zAdd = (\<lambda>k s m r. (r(k := DAList.update m s (r k)), None)),
      zRem = (\<lambda>k m r. (r(k := DAList.delete m (r k)), Inr (if DAList.lookup (r k) m = None then 0 else 1))),
      zRemBoth = (\<lambda>m r. (\<lambda>k. DAList.delete m (r k), None)),
      zRange = (\<lambda>k i j r. (r, Inr (drop (nat i) (take (nat (j + 1)) (sort_key snd (DAList.impl_of (r k))))))),
      zScore = (\<lambda>k m r. (r, Inr (DAList.lookup (r k) m))),
      zByScore = (\<lambda>k lo hi n r. (r, Inr (take n (map fst
        (filter (\<lambda>x. lo \<le> snd x \<and> snd x \<le> hi) (sort_key snd (DAList.impl_of (r k))))))))\<rparr>"

lemma alist_lookup: "(m, s) \<in> set (DAList.impl_of al) \<longleftrightarrow> DAList.lookup al m = Some s"
  using impl_of [of al] by (simp add: DAList.lookup.rep_eq)

lemma sample_zdb_guarded: "guarded sample_zdb (\<lambda>r k. DAList.lookup (r k) p) p"
proof -
  have "\<exists>s. DAList.lookup al p = Some s \<and> lo \<le> s \<and> s \<le> hi"
    if "p \<in> set (take n (map fst (filter (\<lambda>x. lo \<le> snd x \<and> snd x \<le> hi) (sort_key snd (DAList.impl_of al)))))"
    for al lo hi n
    using set_mp [OF set_take_subset that] by (auto simp: alist_lookup)
  moreover have "DAList.lookup al p = Some s"
    if "(p, s) \<in> set (drop i (take j (sort_key snd (DAList.impl_of al))))" for al s i j
    using set_mp [OF set_take_subset set_mp [OF set_drop_subset that]] by (simp add: alist_lookup)
  ultimately show ?thesis by (auto simp: guarded_def sample_zdb_def fun_eq_iff)
qed

definition sample_queue :: "ZKey \<Rightarrow> (string, real) alist" where
  "sample_queue k =
     (case k of keyRating \<Rightarrow> DAList.update ''alice'' 1500 (DAList.update ''bob'' 1520 DAList.empty)
      | keyTime \<Rightarrow> DAList.update ''alice'' 0 (DAList.update ''bob'' 10 DAList.empty))"

definition sample_matcher :: Matcher where
  "sample_matcher = \<lparr>mmBaseWindow = 50, mmWidenPerSec = 20, mmMaxWindow = 500, mmBatch = 200\<rparr>"

lemma sample_queued:
  "(\<lambda>k. DAList.lookup (sample_queue k) ''alice'') = queued 1500 0"
  "(\<lambda>k. DAList.lookup (sample_queue k) ''bob'') = queued 1520 10"
  by (simp_all add: sample_queue_def queued_def fun_eq_iff split: ZKey.split)

lemma sample_impl:
  "DAList.impl_of (sample_queue keyRating) = [(''bob'', 1520), (''alice'', 1500)]"
  "DAList.impl_of (sample_queue keyTime) = [(''bob'', 10), (''alice'', 0)]"
  by (simp_all add: sample_queue_def DAList.update.rep_eq DAList.empty.rep_eq)

lemma sample_zdb_simps:
  "zRem sample_zdb k m r = (r(k := DAList.delete m (r k)), Inr (if DAList.lookup (r k) m = None then 0 else 1))"
  "zRange sample_zdb k i j r = (r, Inr (drop (nat i) (take (nat (j + 1)) (sort_key snd (DAList.impl_of (r k))))))"
  "zScore sample_zdb k m r = (r, Inr (DAList.lookup (r k) m))"
  "zByScore sample_zdb k lo hi n r = (r, Inr (take n (map fst
     (filter (\<lambda>x. lo \<le> snd x \<and> snd x \<le> hi) (sort_key snd (DAList.impl_of (r k)))))))"
  by (simp_all add: sample_zdb_def)

lemma sample_match:
  "fst (snd (matchOnce sample_zdb sample_matcher 1000 stamp sample_queue)) =
     [\<lparr>pairA = ''alice'', pairB = ''bob'', pairRoom = roomIdOf ''alice'' ''bob'' (stamp 0)\<rparr>]"
  by (simp add: matchOnce_def sample_zdb_simps sample_matcher_def matchPlayer_def tryPair_def takePlayer_def
      sample_impl window_def pickOpponent_def DAList.lookup.rep_eq DAList.delete.rep_eq Let_def)

text \<open>The pairs of a round.\<close>

lemma matchOnce_pairs:
  "distinct (pairPlayers (fst (snd (matchOnce db cfg now stamp r)))) \<and>
   (\<forall>k < length (fst (snd (matchOnce db cfg now stamp r))).
      let pr = fst (snd (matchOnce db cfg now stamp r)) ! k
      in pairA pr \<noteq> pairB pr \<and> pairRoom pr = roomIdOf (pairA pr) (pairB pr) (stamp k))"
proof -
  let ?ps = "fst (snd (matchOnce db cfg now stamp r))"
  have "\<exists>rd :: 'a MatchRound. round_ok stamp rd \<and> mrPairs rd = ?ps"
  proof -
    obtain r1 z where "zRange db keyTime 0 ((if mmBatch cfg \<le> 0 then 20 else mmBatch cfg) - 1) r = (r1, z)"
      by (cases "zRange db keyTime 0 ((if mmBatch cfg \<le> 0 then 20 else mmBatch cfg) - 1) r")
    moreover have empty: "round_ok stamp \<lparr>mrDB = r1, mrPaired = [], mrPairs = []\<rparr>"
      by (simp add: round_ok_def pairPlayers_def)
    ultimately show ?thesis
      using matchLoop_ok [OF empty, of db cfg now]
      by (cases z) (auto simp: matchOnce_def case_prod_unfold intro: exI [of _ "\<lparr>mrDB = r1, mrPaired = [], mrPairs = []\<rparr>"])
  qed
  then obtain rd :: "'a MatchRound" where rd: "round_ok stamp rd" "mrPairs rd = ?ps" by blast
  then have d: "distinct (pairPlayers ?ps)" by (simp add: round_ok_def)
  have "pairA x \<noteq> pairB x" if "x \<in> set ps" "distinct (pairPlayers ps)" for x ps
    using that by (induction ps) (auto simp: pairPlayers_def)
  then have "pairA (?ps ! k) \<noteq> pairB (?ps ! k)" if "k < length ?ps" for k
    using d nth_mem [OF that] by blast
  with d rd show ?thesis by (simp add: round_ok_def Let_def)
qed

section \<open>Properties\<close>

text \<open>
  C21. Whatever Redis answers and whoever else uses it: in one round no player is paired
  twice and none with themselves, and the room of a pair is named after both players and
  the clock.
\<close>
theorem matchOnce_pairs_once:
  "distinct (pairPlayers (fst (snd (matchOnce db cfg now stamp r)))) \<and>
   (\<forall>k < length (fst (snd (matchOnce db cfg now stamp r))).
      let pr = fst (snd (matchOnce db cfg now stamp r)) ! k
      in pairA pr \<noteq> pairB pr \<and> pairRoom pr = roomIdOf (pairA pr) (pairB pr) (stamp k))"
  by (rule matchOnce_pairs)

theorem matchOnce_pairs_once_witness:
  "distinct (pairPlayers (fst (snd (matchOnce sample_zdb sample_matcher 1000 (\<lambda>_. 7) sample_queue))))"
  by (rule conjunct1 [OF matchOnce_pairs_once])

text \<open>The round of \<open>matchOnce\<close> for a player nobody else touches.\<close>

lemma matchOnce_round:
  assumes "guarded db ent p" "ent r = queued s t"
  obtains r1 where "fst (matchOnce db cfg now stamp r) = r1" "fst (snd (matchOnce db cfg now stamp r)) = []"
      "ent r1 = queued s t"
  | rd zs r1 where "fst (matchOnce db cfg now stamp r) = mrDB rd" "fst (snd (matchOnce db cfg now stamp r)) = mrPairs rd"
      "rd = fst (matchLoop db cfg now stamp zs \<lparr>mrDB = r1, mrPaired = [], mrPairs = []\<rparr>)"
      "zRange db keyTime 0 ((if mmBatch cfg \<le> 0 then 20 else mmBatch cfg) - 1) r = (r1, Inr zs)"
      "ent r1 = queued s t" "\<forall>x. (p, x) \<in> set zs \<longrightarrow> x = t"
proof -
  let ?b = "(if mmBatch cfg \<le> 0 then 20 else mmBatch cfg) - 1"
  obtain r1 z where zr: "zRange db keyTime 0 ?b r = (r1, z)" by (cases "zRange db keyTime 0 ?b r")
  have r1: "ent r1 = queued s t" using guardedD(5) [OF assms(1), of keyTime 0 ?b r] zr assms(2) by simp
  show thesis
  proof (cases z)
    case (Inl e)
    with zr r1 show thesis by (intro that(1)) (simp_all add: matchOnce_def)
  next
    case (Inr zs)
    have "\<forall>x. (p, x) \<in> set zs \<longrightarrow> x = t"
      using guardedD(6) [OF assms(1), of keyTime 0 ?b r zs] zr Inr assms(2) by auto
    with zr r1 Inr show thesis
      by (intro that(2) [OF _ _ refl zr [unfolded Inr]]) (simp_all add: matchOnce_def case_prod_unfold)
  qed
qed

lemma accounted_pairs:
  "accounted ent p s t rd \<Longrightarrow> round_ok stamp rd \<Longrightarrow>
     ent (mrDB rd) = (if p \<in> set (pairPlayers (mrPairs rd)) then \<lambda>_. None else queued s t)"
  by (simp add: accounted_def round_ok_def)

text \<open>
  C20. No player is lost or kept by a round: a waiting player whom no other client touches
  during the round is afterwards either in a pair and out of the queue, or in no pair and
  in the queue with the rating and the waiting time of before, even when other players
  leave in the middle or reads fail. This assumes (\<open>guarded\<close>) that the writes of this player
  succeed in Redis: after a \<open>ZADD\<close> or \<open>ZREM\<close> with an error the code only logs it, and the player
  may be lost.
\<close>
theorem matchOnce_loses_nobody:
  assumes "guarded db ent p" and "ent r = queued s t"
  shows "ent (fst (matchOnce db cfg now stamp r)) =
    (if p \<in> set (pairPlayers (fst (snd (matchOnce db cfg now stamp r)))) then \<lambda>_. None else queued s t)"
proof (cases rule: matchOnce_round [OF assms, of cfg now stamp])
  case (1 r1)
  then show ?thesis by (simp add: pairPlayers_def)
next
  case (2 rd zs r1)
  let ?rd = "\<lparr>mrDB = r1, mrPaired = [], mrPairs = []\<rparr>"
  have "accounted ent p s t rd"
    unfolding 2(3) by (rule matchLoop_accounted [OF assms(1) 2(6)]) (simp add: accounted_def 2(5))
  moreover have "round_ok stamp rd"
    unfolding 2(3) by (rule matchLoop_ok) (simp add: round_ok_def pairPlayers_def)
  ultimately show ?thesis unfolding 2(1,2) by (rule accounted_pairs)
qed

theorem matchOnce_loses_nobody_witness:
  "(\<lambda>k. DAList.lookup (fst (matchOnce sample_zdb sample_matcher 1000 (\<lambda>_. 7) sample_queue) k) ''bob'') = (\<lambda>_. None)"
proof -
  note w = matchOnce_loses_nobody [of sample_zdb "\<lambda>r k. DAList.lookup (r k) ''bob''" "''bob''" sample_queue 1520 10
      sample_matcher 1000 "\<lambda>_. 7", OF sample_zdb_guarded sample_queued(2)]
  show ?thesis by (rule trans [OF w], unfold sample_match) (simp add: pairPlayers_def)
qed

text \<open>
  Two such players are paired only if their ratings differ by no more than the window of
  the one whose turn it was, which starts at the base, grows with the seconds waited and is
  capped.
\<close>
theorem matchOnce_within_window:
  assumes "guarded db ent p" and "ent r = queued s t" and "guarded db ent' q" and "ent' r = queued s' t'"
  shows "\<forall>x \<in> {x \<in> set (fst (snd (matchOnce db cfg now stamp r))). pairA x = p \<and> pairB x = q}.
    \<bar>s - s'\<bar> \<le> min (mmMaxWindow cfg)
      (mmBaseWindow cfg + mmWidenPerSec cfg * ((real_of_int now - t) / 1000))"
proof -
  have w: "window cfg now t =
      min (mmMaxWindow cfg) (mmBaseWindow cfg + mmWidenPerSec cfg * ((real_of_int now - t) / 1000))"
    by (simp add: window_def Let_def min_def)
  show ?thesis
  proof (cases rule: matchOnce_round [OF assms(1,2), of cfg now stamp])
    case (1 r1)
    then show ?thesis by simp
  next
    case (2 rd zs r1)
    let ?rd = "\<lparr>mrDB = r1, mrPaired = [], mrPairs = []\<rparr>"
    have r1: "ent' r1 = queued s' t'" "\<forall>x. (q, x) \<in> set zs \<longrightarrow> x = t'"
      using guardedD(5,6) [OF assms(3), of keyTime 0 "(if mmBatch cfg \<le> 0 then 20 else mmBatch cfg) - 1" r] 2(4) assms(4)
      by fastforce+
    have "in_window cfg now p s t q s' rd"
      unfolding 2(3)
      by (rule matchLoop_window [OF assms(1,3) 2(6) r1(2)]) (simp_all add: accounted_def in_window_def 2(5) r1(1))
    then show ?thesis by (auto simp: in_window_def 2(2) w)
  qed
qed

theorem matchOnce_within_window_witness:
  "\<bar>1500 - 1520\<bar> \<le> min (500 :: real) (50 + 20 * ((1000 - 0) / 1000)) \<and>
   pairA (hd (fst (snd (matchOnce sample_zdb sample_matcher 1000 (\<lambda>_. 7) sample_queue)))) = ''alice''"
proof -
  note w = matchOnce_within_window [of sample_zdb "\<lambda>r k. DAList.lookup (r k) ''alice''" "''alice''" sample_queue 1500 0
      "\<lambda>r k. DAList.lookup (r k) ''bob''" "''bob''" 1520 10 sample_matcher 1000 "\<lambda>_. 7",
      OF sample_zdb_guarded sample_queued(1) sample_zdb_guarded sample_queued(2), unfolded sample_match]
  show ?thesis using w unfolding sample_match by (simp add: sample_matcher_def)
qed

end
