(* ===== verification/Connections.thy ===== *)
theory Connections
  imports Room_Manager Rate_Limits Match
begin

text \<open>
  \<open>internal/auth/ws.go\<close> and the connection table of \<open>auth.go\<close>: the clients, the buffer each
  has for outgoing messages, who is connected, and what a message does to the queue and to the
  rooms. A \<open>*WsClient\<close> is an index into the list of all clients ever made. When both cases
  of a \<open>select\<close> are ready Go chooses one: the choice is an argument. The JSON decoder, the
  parser of numbers and Redis are parameters.
\<close>

section \<open>Clients\<close>

record wsMsg =
  wmType :: string
  wmPayload :: string
  wmData :: string

datatype Outgoing = Reply wsMsg | RoomMsg Payload | MatchFound string | StartFailed

record WsClient =
  wcSend :: "Outgoing list"
  wcQuit :: bool
  wcRoomId :: string
  wcKicked :: bool

text \<open>
  The server's table and its counters. \<open>hbUsers\<close> and \<open>hbEnded\<close> stand for the arguments of
  the \<open>readLoop\<close> calls and for which of them have returned.
\<close>

record Hub =
  hbClients :: "WsClient list"
  hbConns :: "(string \<times> nat) list"
  hbUsers :: "string list"
  hbEnded :: "bool list"
  hbSendDropped :: nat
  hbSlowKicked :: nat
  hbRateLimited :: nat

definition newClient :: WsClient where
  "newClient = \<lparr>wcSend = [], wcQuit = False, wcRoomId = [], wcKicked = False\<rparr>"

definition newHub :: Hub where
  "newHub = \<lparr>hbClients = [], hbConns = [], hbUsers = [], hbEnded = [], hbSendDropped = 0,
     hbSlowKicked = 0, hbRateLimited = 0\<rparr>"

definition onClient :: "nat \<Rightarrow> (WsClient \<Rightarrow> WsClient) \<Rightarrow> Hub \<Rightarrow> Hub" where
  "onClient p f h = h\<lparr>hbClients := (hbClients h)[p := f (hbClients h ! p)]\<rparr>"

text \<open>\<open>close\<close>: the first call closes the channel, later ones do nothing.\<close>

definition closeClient :: "nat \<Rightarrow> Hub \<Rightarrow> Hub" where
  "closeClient p = onClient p (\<lambda>c. c\<lparr>wcQuit := True\<rparr>)"

definition sendClient :: "bool \<Rightarrow> nat \<Rightarrow> Outgoing \<Rightarrow> Hub \<Rightarrow> Hub \<times> bool" where
  "sendClient pick p b h =
     (let c = hbClients h ! p; room = length (wcSend c) < 256 in
      if room \<and> (wcQuit c \<longrightarrow> pick) then (onClient p (\<lambda>c. c\<lparr>wcSend := wcSend c @ [b]\<rparr>) h, True)
      else if wcQuit c then (h, False)
      else
        (let h1 = h\<lparr>hbSendDropped := hbSendDropped h + 1\<rparr>
         in (if wcKicked c then h1
             else closeClient p ((onClient p (\<lambda>c. c\<lparr>wcKicked := True\<rparr>) h1)\<lparr>hbSlowKicked := hbSlowKicked h1 + 1\<rparr>),
             False)))"

section \<open>The table\<close>

definition addConn :: "string \<Rightarrow> nat \<Rightarrow> Hub \<Rightarrow> Hub" where
  "addConn user p h =
     (let h1 = h\<lparr>hbConns := AList.update user p (hbConns h)\<rparr>
      in case map_of (hbConns h) user of None \<Rightarrow> h1 | Some old \<Rightarrow> closeClient old h1)"

definition removeConn :: "string \<Rightarrow> nat \<Rightarrow> Hub \<Rightarrow> Hub \<times> bool" where
  "removeConn user p h =
     (if map_of (hbConns h) user = Some p then (h\<lparr>hbConns := AList.delete user (hbConns h)\<rparr>, True)
      else (h, False))"

definition SendTo :: "bool \<Rightarrow> string \<Rightarrow> Outgoing \<Rightarrow> Hub \<Rightarrow> Hub" where
  "SendTo pick user b h =
     (case map_of (hbConns h) user of None \<Rightarrow> h | Some p \<Rightarrow> fst (sendClient pick p b h))"

definition NotifyMatch :: "bool \<Rightarrow> bool \<Rightarrow> string \<Rightarrow> string \<Rightarrow> string \<Rightarrow> Hub \<Rightarrow> Hub" where
  "NotifyMatch pick pick' a b roomId h =
     SendTo pick' b (MatchFound roomId) (SendTo pick a (MatchFound roomId) h)"

section \<open>Messages\<close>

text \<open>The server a message acts on: clients, rooms and the queue in Redis.\<close>

record 'r Server =
  svHub :: Hub
  svRooms :: Manager
  svQueue :: 'r

record MsgEnv =
  meDecode :: "string \<Rightarrow> wsMsg option"
  meRoomId :: "string \<Rightarrow> string"
  meParse :: "string \<Rightarrow> real option"

definition reply :: "bool \<Rightarrow> nat \<Rightarrow> string \<Rightarrow> string \<Rightarrow> 'r Server \<Rightarrow> 'r Server" where
  "reply pick p typ payload s =
     s\<lparr>svHub := fst (sendClient pick p (Reply \<lparr>wmType = typ, wmPayload = payload, wmData = []\<rparr>) (svHub s))\<rparr>"

text \<open>\<open>Room.Send\<close> on the room a pointer names.\<close>

definition sendRoom :: "nat \<Rightarrow> Cmd \<Rightarrow> Manager \<Rightarrow> Manager \<times> bool" where
  "sendRoom q c m =
     (let S = slSys (hSlots m ! q); (r, ok, drop) = Send c (lRoom (sLoop S))
      in (m\<lparr>hSlots := onSlot q (\<lambda>S. S\<lparr>sLoop := (sLoop S)\<lparr>lRoom := r\<rparr>,
             sDropped := (if drop then sDropped S + 1 else sDropped S)\<rparr>) (hSlots m)\<rparr>, ok))"

definition onEnqueue :: "'r ZDB \<Rightarrow> MsgEnv \<Rightarrow> int \<Rightarrow> bool \<Rightarrow> string \<Rightarrow> nat \<Rightarrow> wsMsg \<Rightarrow> 'r Server \<Rightarrow> 'r Server" where
  "onEnqueue db env nowMs pick user p m s =
     (let score = (case meParse env (wmPayload m) of Some v \<Rightarrow> v | None \<Rightarrow> 1500)
      in case JoinQueue db nowMs user score (svQueue s) of
           (q, Some _) \<Rightarrow> reply pick p ''error'' ''enqueue failed'' (s\<lparr>svQueue := q\<rparr>)
         | (q, None) \<Rightarrow> reply pick p ''queued'' user (s\<lparr>svQueue := q\<rparr>))"

definition onGame :: "MsgEnv \<Rightarrow> bool \<Rightarrow> string \<Rightarrow> nat \<Rightarrow> wsMsg \<Rightarrow> 'r Server \<Rightarrow> 'r Server" where
  "onGame env pick user p m s =
     (let roomId = meRoomId env (wmData m) in
      case GetRoom (svRooms s) roomId of
        None \<Rightarrow> reply pick p ''error'' ''room_not_found'' s
      | Some q \<Rightarrow>
          if \<not> HasPlayer (lRoom (sLoop (slSys (hSlots (svRooms s) ! q)))) user
          then reply pick p ''error'' ''not_in_room'' s
          else
            (let s1 = s\<lparr>svHub := onClient p (\<lambda>c. c\<lparr>wcRoomId := roomId\<rparr>) (svHub s)\<rparr>;
                 (ms, ok) = sendRoom q \<lparr>cmdPlayer = user, cmdType = wmType m, cmdData = wmData m\<rparr> (svRooms s1);
                 s2 = s1\<lparr>svRooms := ms\<rparr>
             in if ok then s2 else reply pick p ''error'' ''room_busy_or_closed'' s2))"

definition gameTypes :: "string set" where
  "gameTypes = {''join'', ''play_card'', ''end_turn'', ''attack''}"

text \<open>
  One round of \<open>readLoop\<close> for a message \<open>data\<close> of client \<open>p\<close> of \<open>user\<close>, with the
  connection's own limiter.
\<close>

definition onMessage ::
  "'r ZDB \<Rightarrow> MsgEnv \<Rightarrow> int \<Rightarrow> int \<Rightarrow> bool \<Rightarrow> string \<Rightarrow> nat \<Rightarrow> string \<Rightarrow> limiter \<times> 'r Server \<Rightarrow> limiter \<times> 'r Server" where
  "onMessage db env now nowMs pick user p data x =
     (case x of
        (lm, s) \<Rightarrow>
          (case meDecode env data of
             None \<Rightarrow> (lm, reply pick p ''error'' ''bad json'' s)
           | Some m \<Rightarrow>
               if wmType m = ''enqueue'' then (lm, onEnqueue db env nowMs pick user p m s)
               else if wmType m \<in> gameTypes then
                 (case Allow now lm of
                    (lm', False) \<Rightarrow>
                      (lm', reply pick p ''error'' ''rate_limited''
                               (s\<lparr>svHub := (svHub s)\<lparr>hbRateLimited := hbRateLimited (svHub s) + 1\<rparr>\<rparr>))
                  | (lm', True) \<Rightarrow> (lm', onGame env pick user p m s))
               else if wmType m = ''dequeue'' then
                 (lm, reply pick p ''dequeued'' [] (s\<lparr>svQueue := fst (LeaveQueue db user (svQueue s))\<rparr>))
               else (lm, reply pick p ''error'' (''unknown type: '' @ wmType m) s)))"

section \<open>The life of a connection\<close>

text \<open>\<open>ServerWs\<close> once the upgrade has succeeded, up to \<open>readLoop\<close>.\<close>

definition openConn :: "bool \<Rightarrow> string \<Rightarrow> 'r Server \<Rightarrow> 'r Server" where
  "openConn pick user s =
     (let h = svHub s; p = length (hbClients h);
          h1 = h\<lparr>hbClients := hbClients h @ [newClient], hbUsers := hbUsers h @ [user], hbEnded := hbEnded h @ [False]\<rparr>
      in reply pick p ''welcome'' user (s\<lparr>svHub := addConn user p h1\<rparr>))"

text \<open>The rest of \<open>ServerWs\<close>, when \<open>readLoop\<close> has returned.\<close>

definition closeConn :: "'r ZDB \<Rightarrow> nat \<Rightarrow> 'r Server \<Rightarrow> 'r Server" where
  "closeConn db p s =
     (let user = hbUsers (svHub s) ! p;
          (h1, mine) = removeConn user p (svHub s);
          s1 = s\<lparr>svHub := h1\<lparr>hbEnded := (hbEnded h1)[p := True]\<rparr>\<rparr>;
          s2 = (if \<not> mine then s1
                else
                  (let s' = s1\<lparr>svQueue := fst (LeaveQueue db user (svQueue s1))\<rparr>;
                       rid = wcRoomId (hbClients h1 ! p)
                   in if rid = [] then s'
                      else
                        (case GetRoom (svRooms s') rid of
                           None \<Rightarrow> s'
                         | Some q \<Rightarrow>
                             s'\<lparr>svRooms := fst (sendRoom q \<lparr>cmdPlayer = user, cmdType = ''leave'', cmdData = []\<rparr>
                                                  (svRooms s'))\<rparr>)))
      in s2\<lparr>svHub := closeClient p (svHub s2)\<rparr>)"

section \<open>One open connection for each user\<close>

text \<open>\<open>quieter\<close>: nothing but buffers, counters and more closed clients.\<close>

definition quieter :: "Hub \<Rightarrow> Hub \<Rightarrow> bool" where
  "quieter h h' \<longleftrightarrow>
     hbConns h' = hbConns h \<and> hbUsers h' = hbUsers h \<and> hbEnded h' = hbEnded h \<and>
     length (hbClients h') = length (hbClients h) \<and>
     (\<forall>p < length (hbClients h). wcQuit (hbClients h ! p) \<longrightarrow> wcQuit (hbClients h' ! p))"

lemma quieter_refl [simp]: "quieter h h"
  by (simp add: quieter_def)

lemma quieter_trans: "quieter h h1 \<Longrightarrow> quieter h1 h2 \<Longrightarrow> quieter h h2"
  by (auto simp: quieter_def)

lemma quieter_onClient:
  "(\<And>c. wcQuit c \<Longrightarrow> wcQuit (f c)) \<Longrightarrow> quieter h (onClient p f h)"
  by (cases "p < length (hbClients h)") (auto simp: quieter_def onClient_def nth_list_update list_update_beyond)

lemma quieter_counters [simp]:
  "quieter h (h'\<lparr>hbSendDropped := n\<rparr>) = quieter h h'" "quieter h (h'\<lparr>hbSlowKicked := n\<rparr>) = quieter h h'"
  "quieter h (h'\<lparr>hbRateLimited := n\<rparr>) = quieter h h'"
  by (simp_all add: quieter_def)

lemma quieter_close: "quieter h (closeClient p h)"
  unfolding closeClient_def by (rule quieter_onClient) simp

lemma quieter_sendClient: "quieter h (fst (sendClient pick p b h))"
proof -
  let ?h = "h\<lparr>hbSendDropped := hbSendDropped h + 1\<rparr>"
  have "quieter h (onClient p (\<lambda>c. c\<lparr>wcSend := wcSend c @ [b]\<rparr>) h)" by (rule quieter_onClient) simp
  moreover have h: "quieter h ?h" by simp
  moreover have "quieter h (closeClient p ((onClient p (\<lambda>c. c\<lparr>wcKicked := True\<rparr>) ?h)\<lparr>hbSlowKicked := n\<rparr>))" for n
  proof (rule quieter_trans [OF _ quieter_close])
    show "quieter h ((onClient p (\<lambda>c. c\<lparr>wcKicked := True\<rparr>) ?h)\<lparr>hbSlowKicked := n\<rparr>)"
      using quieter_trans [OF h quieter_onClient [of "\<lambda>c. c\<lparr>wcKicked := True\<rparr>" ?h p]] by simp
  qed
  ultimately show ?thesis by (simp add: sendClient_def Let_def)
qed

lemma quieter_SendTo: "quieter h (SendTo pick user b h)"
  by (simp add: SendTo_def quieter_sendClient split: option.split)

lemma quieter_reply: "quieter h (svHub s) \<Longrightarrow> quieter h (svHub (reply pick p t b s))"
  using quieter_trans [OF _ quieter_sendClient] by (simp add: reply_def)

lemma reply_rest [simp]:
  "svRooms (reply pick p t b s) = svRooms s" "svQueue (reply pick p t b s) = svQueue s"
  by (simp_all add: reply_def)

lemma quieter_onGame: "quieter (svHub s) (svHub (onGame env pick user p m s))"
proof -
  have "quieter (svHub s) (onClient p (\<lambda>c. c\<lparr>wcRoomId := r\<rparr>) (svHub s))" for r
    by (rule quieter_onClient) simp
  then show ?thesis
    by (auto simp: onGame_def Let_def intro!: quieter_reply split: option.split prod.split)
qed

lemma quieter_onEnqueue: "quieter (svHub s) (svHub (onEnqueue db env nowMs pick user p m s))"
  by (auto simp: onEnqueue_def Let_def intro!: quieter_reply split: option.split prod.split)

lemma quieter_onMessage: "quieter (svHub s) (svHub (snd (onMessage db env now nowMs pick user p data (lm, s))))"
  by (auto simp: onMessage_def intro!: quieter_reply quieter_onGame quieter_onEnqueue
      split: option.split prod.split bool.split)

definition hub_ok :: "Hub \<Rightarrow> bool" where
  "hub_ok h \<longleftrightarrow>
     length (hbUsers h) = length (hbClients h) \<and> length (hbEnded h) = length (hbClients h) \<and>
     (\<forall>u p. map_of (hbConns h) u = Some p \<longrightarrow>
        p < length (hbClients h) \<and> hbUsers h ! p = u \<and> \<not> hbEnded h ! p) \<and>
     (\<forall>p < length (hbClients h). \<not> hbEnded h ! p \<and> \<not> wcQuit (hbClients h ! p) \<longrightarrow>
        map_of (hbConns h) (hbUsers h ! p) = Some p)"

lemma hub_okD:
  assumes "hub_ok h"
  shows "length (hbUsers h) = length (hbClients h)" "length (hbEnded h) = length (hbClients h)"
    "map_of (hbConns h) u = Some p \<Longrightarrow> p < length (hbClients h) \<and> hbUsers h ! p = u \<and> \<not> hbEnded h ! p"
    "p < length (hbClients h) \<Longrightarrow> \<not> hbEnded h ! p \<Longrightarrow> \<not> wcQuit (hbClients h ! p) \<Longrightarrow>
      map_of (hbConns h) (hbUsers h ! p) = Some p"
  using assms by (simp_all add: hub_ok_def)

lemma hub_ok_quieter: "hub_ok h \<Longrightarrow> quieter h h' \<Longrightarrow> hub_ok h'"
  by (auto simp: hub_ok_def quieter_def)

text \<open>A new connection replaces and closes the one the user had.\<close>

lemma openConn_ok:
  assumes "hub_ok (svHub s)"
  shows "hub_ok (svHub (openConn pick user s))"
proof -
  let ?h = "svHub s"
  let ?p = "length (hbClients ?h)"
  let ?h1 = "?h\<lparr>hbClients := hbClients ?h @ [newClient], hbUsers := hbUsers ?h @ [user], hbEnded := hbEnded ?h @ [False]\<rparr>"
  note ok = hub_okD [OF assms]
  have conns: "hbConns (addConn user ?p ?h1) = AList.update user ?p (hbConns ?h)"
    "hbUsers (addConn user ?p ?h1) = hbUsers ?h1" "hbEnded (addConn user ?p ?h1) = hbEnded ?h1"
    "length (hbClients (addConn user ?p ?h1)) = Suc ?p"
    by (simp_all add: addConn_def Let_def closeClient_def onClient_def split: option.split)
  have closed: "wcQuit (hbClients (addConn user ?p ?h1) ! q)"
    if "map_of (hbConns ?h) user = Some q" for q
    using that ok(3) [OF that] by (simp add: addConn_def Let_def closeClient_def onClient_def)
  have same: "wcQuit (hbClients (addConn user ?p ?h1) ! q) \<longleftrightarrow>
      wcQuit (hbClients ?h ! q) \<or> map_of (hbConns ?h) user = Some q" if "q < ?p" for q
    using that ok(3) [of user] closed [of q]
    by (cases "map_of (hbConns ?h) user")
      (auto simp: addConn_def Let_def closeClient_def onClient_def nth_append nth_list_update)
  have "hub_ok (addConn user ?p ?h1)"
    unfolding hub_ok_def conns using ok same
    by (auto simp: update_conv nth_append less_Suc_eq split: if_splits)
  moreover have "quieter (addConn user ?p ?h1) (svHub (openConn pick user s))"
    by (simp add: openConn_def Let_def quieter_reply)
  ultimately show ?thesis by (rule hub_ok_quieter)
qed

lemma closeConn_hub:
  "svHub (closeConn db p s) =
     closeClient p ((fst (removeConn (hbUsers (svHub s) ! p) p (svHub s)))\<lparr>hbEnded := (hbEnded (svHub s))[p := True]\<rparr>)"
proof -
  obtain h1 b where rc: "removeConn (hbUsers (svHub s) ! p) p (svHub s) = (h1, b)"
    by (cases "removeConn (hbUsers (svHub s) ! p) p (svHub s)")
  then have "hbEnded h1 = hbEnded (svHub s)" by (auto simp: removeConn_def split: if_splits)
  with rc show ?thesis by (simp add: closeConn_def Let_def split: option.split)
qed

lemma closeConn_ok:
  assumes "hub_ok (svHub s)" "p < length (hbClients (svHub s))"
  shows "hub_ok (svHub (closeConn db p s))"
proof -
  let ?h = "svHub s"
  let ?u = "hbUsers ?h ! p"
  let ?h1 = "(fst (removeConn ?u p ?h))\<lparr>hbEnded := (hbEnded ?h)[p := True]\<rparr>"
  note ok = hub_okD [OF assms(1)]
  have parts: "hbClients ?h1 = hbClients ?h" "hbUsers ?h1 = hbUsers ?h" "hbEnded ?h1 = (hbEnded ?h)[p := True]"
    by (simp_all add: removeConn_def)
  have look: "map_of (hbConns (fst (removeConn ?u p ?h))) u = (if u = ?u \<and> map_of (hbConns ?h) ?u = Some p then None else map_of (hbConns ?h) u)"
    for u by (simp add: removeConn_def delete_conv')
  have "q < length (hbClients ?h) \<and> hbUsers ?h ! q = u \<and> \<not> (hbEnded ?h)[p := True] ! q"
    if "map_of (hbConns ?h1) u = Some q" for u q
  proof -
    have q: "map_of (hbConns ?h) u = Some q" "\<not> (u = ?u \<and> map_of (hbConns ?h) ?u = Some p)"
      using that by (simp_all add: look split: if_splits)
    have "q \<noteq> p" using q ok(3) [OF q(1)] by auto
    with ok(3) [OF q(1)] show ?thesis by simp
  qed
  moreover have "map_of (hbConns ?h1) (hbUsers ?h ! q) = Some q"
    if "q < length (hbClients ?h)" "\<not> (hbEnded ?h)[p := True] ! q" "\<not> wcQuit (hbClients ?h ! q)" for q
  proof -
    have q: "q \<noteq> p" using that(2) assms(2) ok(2) by auto
    then have "\<not> hbEnded ?h ! q" using that(2) by simp
    note m = ok(4) [OF that(1) this that(3)]
    have "\<not> (hbUsers ?h ! q = ?u \<and> map_of (hbConns ?h) ?u = Some p)" using m q by (metis option.inject)
    then have "map_of (hbConns (fst (removeConn ?u p ?h))) (hbUsers ?h ! q) = Some q"
      unfolding look using m by (simp only: if_False)
    then show ?thesis by simp
  qed
  ultimately have "hub_ok ?h1" unfolding hub_ok_def parts length_list_update using ok(1,2) by blast
  then show ?thesis unfolding closeConn_hub by (rule hub_ok_quieter [OF _ quieter_close])
qed

section \<open>Runs of a server\<close>

text \<open>
  Connections are opened, messages are read on those whose \<open>readLoop\<close> runs, rooms push
  messages to users (and change, as does the queue), and connections end.
\<close>

inductive served :: "'r ZDB \<Rightarrow> MsgEnv \<Rightarrow> 'r Server \<Rightarrow> bool" for db env where
  start: "svHub s = newHub \<Longrightarrow> served db env s"
| opened: "served db env s \<Longrightarrow> served db env (openConn pick user s)"
| message: "served db env s \<Longrightarrow> p < length (hbClients (svHub s)) \<Longrightarrow> \<not> hbEnded (svHub s) ! p \<Longrightarrow>
    served db env (snd (onMessage db env now nowMs pick (hbUsers (svHub s) ! p) p data (lm, s)))"
| pushed: "served db env s \<Longrightarrow> served db env (s\<lparr>svHub := SendTo pick user b (svHub s)\<rparr>)"
| elsewhere: "served db env s \<Longrightarrow> served db env (s\<lparr>svRooms := m, svQueue := q\<rparr>)"
| closed: "served db env s \<Longrightarrow> p < length (hbClients (svHub s)) \<Longrightarrow> \<not> hbEnded (svHub s) ! p \<Longrightarrow>
    served db env (closeConn db p s)"

lemma served_ok: "served db env s \<Longrightarrow> hub_ok (svHub s)"
proof (induction rule: served.induct)
  case (start s)
  then show ?case by (simp add: newHub_def hub_ok_def)
next
  case (pushed s pick user b)
  then show ?case using hub_ok_quieter [OF _ quieter_SendTo] by simp
next
  case (message s p now nowMs pick data lm)
  then show ?case using hub_ok_quieter [OF _ quieter_onMessage] by blast
qed (simp_all add: openConn_ok closeConn_ok)

section \<open>Properties\<close>

text \<open>
  C23. A user has at most one open connection, and it is the one in the table: an entry of
  the table belongs to its user and its \<open>readLoop\<close> runs, and every other connection of
  the user that is still being read has been told to quit. The end of such a superseded
  connection leaves the table, the queue and the rooms as they are, so a player who has
  reconnected neither leaves the queue nor the room.
\<close>
theorem one_connection:
  assumes "served db env s" and "p < length (hbClients (svHub s))" and "\<not> hbEnded (svHub s) ! p"
  shows "(map_of (hbConns (svHub s)) u = Some q \<longrightarrow>
      q < length (hbClients (svHub s)) \<and> hbUsers (svHub s) ! q = u \<and> \<not> hbEnded (svHub s) ! q) \<and>
    (map_of (hbConns (svHub s)) (hbUsers (svHub s) ! p) \<noteq> Some p \<longrightarrow>
      wcQuit (hbClients (svHub s) ! p) \<and>
      hbConns (svHub (closeConn db p s)) = hbConns (svHub s) \<and>
      svQueue (closeConn db p s) = svQueue s \<and> svRooms (closeConn db p s) = svRooms s)"
proof -
  note ok = hub_okD [OF served_ok [OF assms(1)]]
  have "wcQuit (hbClients (svHub s) ! p)" if "map_of (hbConns (svHub s)) (hbUsers (svHub s) ! p) \<noteq> Some p"
    using ok(4) [OF assms(2,3)] that by blast
  moreover have "hbConns (svHub (closeConn db p s)) = hbConns (svHub s) \<and>
      svQueue (closeConn db p s) = svQueue s \<and> svRooms (closeConn db p s) = svRooms s"
    if "map_of (hbConns (svHub s)) (hbUsers (svHub s) ! p) \<noteq> Some p"
    using that by (simp add: closeConn_def removeConn_def Let_def closeClient_def onClient_def)
  ultimately show ?thesis using ok(3) [of u q] by blast
qed

text \<open>Alice connects twice.\<close>

definition sample_server :: "(ZKey \<Rightarrow> (string, real) alist) Server" where
  "sample_server = openConn True ''alice'' (openConn True ''alice''
     \<lparr>svHub = newHub, svRooms = NewManager, svQueue = sample_queue\<rparr>)"

definition sample_msg_env :: MsgEnv where
  "sample_msg_env = \<lparr>meDecode = (\<lambda>_. None), meRoomId = id, meParse = (\<lambda>_. None)\<rparr>"

lemma sample_served: "served sample_zdb sample_msg_env sample_server"
  unfolding sample_server_def by (intro served.opened served.start) simp

theorem one_connection_witness:
  "wcQuit (hbClients (svHub sample_server) ! 0) \<and> svQueue (closeConn sample_zdb 0 sample_server) = sample_queue"
proof -
  have s: "0 < length (hbClients (svHub sample_server))" "\<not> hbEnded (svHub sample_server) ! 0"
    "hbUsers (svHub sample_server) ! 0 = ''alice''" "map_of (hbConns (svHub sample_server)) ''alice'' = Some 1"
    "svQueue sample_server = sample_queue"
    by (simp_all add: sample_server_def openConn_def newHub_def addConn_def reply_def sendClient_def onClient_def
        newClient_def closeClient_def Let_def)
  from one_connection [OF sample_served s(1,2)] s(3-5) show ?thesis by simp
qed

text \<open>A command handed to a room is its event \<open>Arrive\<close>.\<close>

lemma sendRoom_arrives:
  "fst (sendRoom q c m) = m\<lparr>hSlots := onSlot q (\<lambda>S. the (step env (Arrive c) S)) (hSlots m)\<rparr>"
  by (simp add: sendRoom_def onSlot_def Let_def split: prod.split)

lemma onGame_rooms:
  "svRooms (onGame env pick user p m s) = svRooms s \<or>
   (\<exists>q. GetRoom (svRooms s) (meRoomId env (wmData m)) = Some q \<and>
      HasPlayer (lRoom (sLoop (slSys (hSlots (svRooms s) ! q)))) user \<and>
      svRooms (onGame env pick user p m s) =
        fst (sendRoom q \<lparr>cmdPlayer = user, cmdType = wmType m, cmdData = wmData m\<rparr> (svRooms s)))"
  by (auto simp: onGame_def Let_def split: option.split prod.split)

text \<open>
  The only way a message reaches a room: as the arrival of one command in the room it
  names, when the user of the connection is one of its two players and the connection's
  limiter grants it. The command carries that user, so nobody can act for another player.
\<close>
theorem own_commands_only:
  "svRooms (snd (onMessage db env now nowMs pick user p data (lm, s))) = svRooms s \<or>
   (\<exists>m q. meDecode env data = Some m \<and> wmType m \<in> gameTypes \<and> snd (Allow now lm) \<and>
      GetRoom (svRooms s) (meRoomId env (wmData m)) = Some q \<and>
      HasPlayer (lRoom (sLoop (slSys (hSlots (svRooms s) ! q)))) user \<and>
      svRooms (snd (onMessage db env now nowMs pick user p data (lm, s))) =
        (svRooms s)\<lparr>hSlots := onSlot q (\<lambda>S. the (step renv
           (Arrive \<lparr>cmdPlayer = user, cmdType = wmType m, cmdData = wmData m\<rparr>) S)) (hSlots (svRooms s))\<rparr>)"
proof (cases "\<exists>m. meDecode env data = Some m \<and> wmType m \<noteq> ''enqueue'' \<and> wmType m \<in> gameTypes \<and> snd (Allow now lm)")
  case True
  then obtain m where m: "meDecode env data = Some m" "wmType m \<noteq> ''enqueue''" "wmType m \<in> gameTypes" "snd (Allow now lm)"
    by blast
  have "snd (onMessage db env now nowMs pick user p data (lm, s)) = onGame env pick user p m s"
    using m by (cases "Allow now lm") (simp add: onMessage_def)
  with onGame_rooms [of env pick user p m s] m show ?thesis unfolding sendRoom_arrives [of _ _ _ renv] by auto
next
  case False
  then have "svRooms (snd (onMessage db env now nowMs pick user p data (lm, s))) = svRooms s"
    by (auto simp: onMessage_def onEnqueue_def Let_def split: option.split prod.split bool.split)
  then show ?thesis by blast
qed

end
