(* ===== verification/Server_Match.thy ===== *)
theory Server_Match
  imports Storage Connections
begin

text \<open>
  What \<open>server/main.go\<close> does with a pair of the matchmaker: the decks of the two players, the
  opening position, the room and the messages (\<open>OnMatch\<close> in \<open>run\<close>), with the configuration of
  the matchmaker and the seed. The rest of \<open>run\<close> is the wiring of the process.
\<close>

section \<open>Configuration\<close>

definition newMatcher :: Matcher where
  "newMatcher = \<lparr>mmBaseWindow = 50, mmWidenPerSec = 20, mmMaxWindow = 500, mmBatch = 200\<rparr>"

definition envOr :: "(string \<Rightarrow> string) \<Rightarrow> string \<Rightarrow> string \<Rightarrow> string" where
  "envOr env key def = (let v = env key in if v \<noteq> [] then v else def)"

text \<open>\<open>LittleEndian.Uint64\<close> of eight random bytes, as a signed number.\<close>

definition newSeed :: "nat list \<Rightarrow> int" where
  "newSeed bs = sint (of_nat (foldr (\<lambda>b n. b + 256 * n) bs 0) :: 64 word)"

section \<open>Decks\<close>

text \<open>The inner loop of \<open>defaultDeck\<close>: the iterations that are left of two.\<close>

fun addCopies :: "nat \<Rightarrow> string \<Rightarrow> string list \<Rightarrow> string list" where
  "addCopies 0 i out = out"
| "addCopies (Suc k) i out = (if length out < 12 then addCopies k i (out @ [i]) else out)"

definition defaultDeck :: "Catalog \<Rightarrow> string list" where
  "defaultDeck ct = fold (addCopies 2) (IDs ct) []"

definition loadDeckOrDefault ::
  "SQL \<Rightarrow> (string \<Rightarrow> string + string list) \<Rightarrow> string option \<Rightarrow> DB \<Rightarrow> Catalog \<Rightarrow> string \<Rightarrow> string list" where
  "loadDeckOrDefault sq unmarshal fault db ct username =
     (case LoadDeck sq unmarshal fault username db of
        Row cards \<Rightarrow>
          if ValidateDeck (Some ct) \<lparr>dOwner = username, dCards = cards\<rparr> = None then cards else defaultDeck ct
      | _ \<Rightarrow> defaultDeck ct)"

section \<open>A pair becomes a room\<close>

text \<open>
  The surroundings of one call: the database and the errors of its two reads, the swaps of the
  shuffle, whether a message to a room's player panics, and the choices of the two \<open>Send\<close>s.
\<close>

record MatchEnv =
  maSQL :: SQL
  maUnmarshal :: "string \<Rightarrow> string + string list"
  maFaults :: "string option \<times> string option"
  maDB :: DB
  maSwaps :: shuffle_lib
  maOut :: "(nat \<Rightarrow> bool) option"
  maPicks :: "bool \<times> bool"

definition matchDecks :: "MatchEnv \<Rightarrow> Catalog \<Rightarrow> Pair \<Rightarrow> string list \<times> string list" where
  "matchDecks env ct p =
     (loadDeckOrDefault (maSQL env) (maUnmarshal env) (fst (maFaults env)) (maDB env) ct (pairA p),
      loadDeckOrDefault (maSQL env) (maUnmarshal env) (snd (maFaults env)) (maDB env) ct (pairB p))"

definition OnMatch :: "MatchEnv \<Rightarrow> Catalog \<Rightarrow> int \<Rightarrow> int \<Rightarrow> Pair \<Rightarrow> 'r Server \<Rightarrow> 'r Server" where
  "OnMatch env ct seed now p s =
     (let (deckA, deckB) = matchDecks env ct p in
      case NewState (maSwaps env) (pairRoom p) (Some ct) \<lparr>iID = pairA p, iCards = deckA\<rparr>
             \<lparr>iID = pairB p, iCards = deckB\<rparr> seed of
        Inl _ \<Rightarrow>
          s\<lparr>svHub := SendTo (snd (maPicks env)) (pairB p) StartFailed
                       (SendTo (fst (maPicks env)) (pairA p) StartFailed (svHub s))\<rparr>
      | Inr st \<Rightarrow>
          s\<lparr>svRooms := fst (Create now st (pairRoom p) (pairA p) (pairB p) (maOut env) True (svRooms s)),
            svHub := NotifyMatch (fst (maPicks env)) (snd (maPicks env)) (pairA p) (pairB p) (pairRoom p) (svHub s)\<rparr>)"

section \<open>The default deck\<close>

lemma addCopies_take: "length out \<le> 12 \<Longrightarrow> addCopies k i out = take 12 (out @ replicate k i)"
proof (induction k arbitrary: out)
  case (Suc k)
  show ?case
  proof (cases "length out < 12")
    case True
    then have "addCopies (Suc k) i out = addCopies k i (out @ [i])" by simp
    also have "\<dots> = take 12 ((out @ [i]) @ replicate k i)" by (rule Suc.IH) (use True in simp)
    also have "(out @ [i]) @ replicate k i = out @ replicate (Suc k) i" by simp
    finally show ?thesis .
  qed (use Suc.prems in simp)
qed simp

lemma fold_addCopies:
  "length out \<le> 12 \<Longrightarrow> fold (addCopies 2) is out = take 12 (out @ concat (map (replicate 2) is))"
proof (induction "is" arbitrary: out)
  case (Cons i "is")
  then have "addCopies 2 i out = take 12 (out @ replicate 2 i)" by (simp add: addCopies_take)
  with Cons show ?case by (simp add: take_append min_def)
qed simp

text \<open>Two of each card in the order of the table, twelve at most.\<close>

lemma defaultDeck_eq: "defaultDeck ct = take 12 (concat (map (replicate 2) (IDs ct)))"
  by (simp add: defaultDeck_def fold_addCopies)

lemma count_doubled: "count_list (concat (map (replicate 2) is)) i = 2 * count_list is i"
  by (induction "is") (auto simp: count_list_append numeral_2_eq_2)

lemma length_doubled: "length (concat (map (replicate 2) is)) = 2 * length is"
  by (induction "is") auto

lemma distinct_count_list: "distinct xs \<Longrightarrow> count_list xs x \<le> 1"
  by (induction xs) auto

lemma count_take_le: "count_list (take n xs) i \<le> count_list xs i"
  by (metis append_take_drop_id count_list_append le_add1)

lemma defaultDeck_valid:
  assumes "wf_catalog ct"
  shows "ValidateDeck (Some ct) \<lparr>dOwner = u, dCards = defaultDeck ct\<rparr> = None \<longleftrightarrow> 4 \<le> Len ct"
proof -
  have "distinct (IDs ct)" using catalog.ids_distinct [OF assms] .
  then have "count_list (IDs ct) i \<le> 1" for i by (rule distinct_count_list)
  then have "count_list (defaultDeck ct) i \<le> 2" for i
    using count_take_le [of 12 "concat (map (replicate 2) (IDs ct))" i]
    unfolding defaultDeck_eq count_doubled by (metis le_trans mult_le_mono2 mult.right_neutral)
  moreover have "Has ct i" if "i \<in> set (defaultDeck ct)" for i
    using that set_take_subset [of 12 "concat (map (replicate 2) (IDs ct))"] catalog.has_ids [OF assms]
    by (auto simp: defaultDeck_eq)
  moreover have "length (defaultDeck ct) = min (2 * Len ct) 12"
    by (simp add: defaultDeck_eq length_doubled IDs_def Len_def)
  ultimately show ?thesis by (auto simp: ValidateDeck_def checkCopies_start Let_def)
qed

lemma loadDeckOrDefault_valid:
  assumes "wf_catalog ct" "4 \<le> Len ct"
  shows "ValidateDeck (Some ct) \<lparr>dOwner = u, dCards = loadDeckOrDefault sq um fault db ct u\<rparr> = None"
  using defaultDeck_valid [OF assms(1)] assms(2)
  by (simp add: loadDeckOrDefault_def split: DBResult.split)

lemma valid_deck_length:
  "ValidateDeck (Some ct) d = None \<Longrightarrow> 8 \<le> length (dCards d) \<and> length (dCards d) \<le> 12"
  by (simp add: ValidateDeck_def Let_def split: if_splits)

section \<open>The room of a pair\<close>

lemma NewState_decks:
  "NewState sw r oc a b seed = Inr s \<Longrightarrow> InitDecks s = [iCards a, iCards b]"
  by (auto simp: NewState_Inr)

lemma SendTo_delivers:
  "map_of (hbConns h) u = Some q \<Longrightarrow> q < length (hbClients h) \<Longrightarrow> \<not> wcQuit (hbClients h ! q) \<Longrightarrow>
     length (wcSend (hbClients h ! q)) < 256 \<Longrightarrow>
     wcSend (hbClients (SendTo pick u b h) ! q) = wcSend (hbClients h ! q) @ [b]"
  by (simp add: SendTo_def sendClient_def onClient_def Let_def)

lemma onClient_other: "q \<noteq> p \<Longrightarrow> hbClients (onClient p f h) ! q = hbClients h ! q"
  by (simp add: onClient_def)

lemma SendTo_other:
  "map_of (hbConns h) u \<noteq> Some q \<Longrightarrow> hbClients (SendTo pick u b h) ! q = hbClients h ! q"
  by (auto simp: SendTo_def sendClient_def closeClient_def onClient_other Let_def split: option.split)

lemma SendTo_conns [simp]: "hbConns (SendTo pick u b h) = hbConns h"
  "length (hbClients (SendTo pick u b h)) = length (hbClients h)"
  using quieter_SendTo [of h pick u b] by (simp_all add: quieter_def)

text \<open>Both players are told, each on their own connection.\<close>

lemma NotifyMatch_delivers:
  assumes "hub_ok h" "a \<noteq> b" "u \<in> {a, b}" "map_of (hbConns h) u = Some q"
    and "\<not> wcQuit (hbClients h ! q)" "length (wcSend (hbClients h ! q)) < 256"
  shows "wcSend (hbClients (NotifyMatch pick pick' a b room h) ! q) = wcSend (hbClients h ! q) @ [MatchFound room]"
proof -
  note ok = hub_okD(3) [OF assms(1)]
  have q: "q < length (hbClients h)" "map_of (hbConns h) v \<noteq> Some q" if "v \<noteq> u" for v
    using ok [OF assms(4)] ok [of v q] that by auto
  show ?thesis
  proof (cases "u = a")
    case True
    have "hbClients (NotifyMatch pick pick' a b room h) ! q = hbClients (SendTo pick a (MatchFound room) h) ! q"
      unfolding NotifyMatch_def using q [of b] True assms(2) by (intro SendTo_other) simp
    then show ?thesis using SendTo_delivers [of h a q pick] q(1) [of b] assms True by simp
  next
    case False
    then have u: "u = b" using assms(3) by simp
    have "hbClients (SendTo pick a (MatchFound room) h) ! q = hbClients h ! q"
      using q(2) [of a] False by (intro SendTo_other) simp
    then show ?thesis
      unfolding NotifyMatch_def using SendTo_delivers [of "SendTo pick a (MatchFound room) h" b q pick'] q(1) [of a] assms u
      by simp
  qed
qed

lemma pair_starts:
  assumes cat: "wf_catalog ct" "4 \<le> Len ct" and pair: "pairA p \<noteq> []" "pairB p \<noteq> []" "pairA p \<noteq> pairB p"
  shows "ValidateDeck (Some ct) \<lparr>dOwner = u, dCards = fst (matchDecks env ct p)\<rparr> = None"
    and "ValidateDeck (Some ct) \<lparr>dOwner = u, dCards = snd (matchDecks env ct p)\<rparr> = None"
    and "\<exists>st. NewState sw room (Some ct) \<lparr>iID = pairA p, iCards = fst (matchDecks env ct p)\<rparr> \<lparr>iID = pairB p, iCards = snd (matchDecks env ct p)\<rparr> seed = Inr st"
proof -
  have owner: "ValidateDeck (Some ct) \<lparr>dOwner = u, dCards = d\<rparr> = ValidateDeck (Some ct) \<lparr>dOwner = v, dCards = d\<rparr>" for u v d
    by (simp add: ValidateDeck_def Let_def)
  have valid: "ValidateDeck (Some ct) \<lparr>dOwner = u, dCards = fst (matchDecks env ct p)\<rparr> = None"
      "ValidateDeck (Some ct) \<lparr>dOwner = u, dCards = snd (matchDecks env ct p)\<rparr> = None" for u
    unfolding matchDecks_def fst_conv snd_conv by (rule trans [OF owner loadDeckOrDefault_valid [OF cat]])+
  then show "ValidateDeck (Some ct) \<lparr>dOwner = u, dCards = fst (matchDecks env ct p)\<rparr> = None"
    "ValidateDeck (Some ct) \<lparr>dOwner = u, dCards = snd (matchDecks env ct p)\<rparr> = None" by auto
  have "HandStart < length (fst (matchDecks env ct p))" "HandStart < length (snd (matchDecks env ct p))"
    using valid valid_deck_length [of ct "\<lparr>dOwner = [], dCards = fst (matchDecks env ct p)\<rparr>"] valid_deck_length [of ct "\<lparr>dOwner = [], dCards = snd (matchDecks env ct p)\<rparr>"]
    by (simp_all add: HandStart_def)
  with pair show "\<exists>st. NewState sw room (Some ct) \<lparr>iID = pairA p, iCards = fst (matchDecks env ct p)\<rparr> \<lparr>iID = pairB p, iCards = snd (matchDecks env ct p)\<rparr> seed = Inr st"
    by (auto simp: NewState_Inr)
qed

lemma Create_slot:
  "GetRoom (fst (Create now st i a b out f m)) i = Some (length (hSlots m))"
  "slSys (hSlots (fst (Create now st i a b out f m)) ! length (hSlots m)) = initSystem now (createdRoom st i a b out f)"
  by (simp_all add: Create_def GetRoom_def Let_def update_conv)

lemma created_players [simp]: "rPlayers (createdRoom st i a b out f) = [a, b]"
  by (simp add: createdRoom_def NewRoom_def)

section \<open>Properties\<close>

text \<open>
  C7. A pair the matchmaker finds always gets its room: with a card table of four cards or
  more, whatever deck either player has saved, whether it is still valid, and whether the
  database answers, \<open>OnMatch\<close> opens a game with two valid decks, in a new room that is in
  the table under the id of the pair and has the two players in the order of the game; and
  each player who has an open connection with room in its buffer is sent that id.
\<close>
theorem matched_pair_gets_room:
  assumes cat: "wf_catalog ct" "4 \<le> Len ct"
    and pair: "p \<in> set (fst (snd (matchOnce zdb newMatcher t stamp r)))" "pairA p \<noteq> []" "pairB p \<noteq> []"
    and hub: "hub_ok (svHub s)"
  shows "let s' = OnMatch env ct seed now p s; q = length (hSlots (svRooms s)) in
    \<exists>st. NewState (maSwaps env) (pairRoom p) (Some ct) \<lparr>iID = pairA p, iCards = fst (matchDecks env ct p)\<rparr>
        \<lparr>iID = pairB p, iCards = snd (matchDecks env ct p)\<rparr> seed = Inr st \<and>
      (\<forall>d \<in> set (InitDecks st). ValidateDeck (Some ct) \<lparr>dOwner = o', dCards = d\<rparr> = None) \<and>
      GetRoom (svRooms s') (pairRoom p) = Some q \<and>
      slSys (hSlots (svRooms s') ! q) =
        initSystem now (createdRoom st (pairRoom p) (pairA p) (pairB p) (maOut env) True) \<and>
      (\<forall>u c. u \<in> {pairA p, pairB p} \<and> map_of (hbConns (svHub s)) u = Some c \<and>
         \<not> wcQuit (hbClients (svHub s) ! c) \<and> length (wcSend (hbClients (svHub s) ! c)) < 256 \<longrightarrow>
         wcSend (hbClients (svHub s') ! c) = wcSend (hbClients (svHub s) ! c) @ [MatchFound (pairRoom p)])"
proof -
  let ?ps = "fst (snd (matchOnce zdb newMatcher t stamp r))"
  from pair(1) obtain k where "k < length ?ps" "?ps ! k = p" by (auto simp: in_set_conv_nth)
  then have ne: "pairA p \<noteq> pairB p" using matchOnce_pairs [of zdb newMatcher t stamp r] by (auto simp: Let_def)
  let ?da = "fst (matchDecks env ct p)" and ?db = "snd (matchDecks env ct p)"
  note starts = pair_starts [OF cat pair(2,3) ne]
  have valid: "ValidateDeck (Some ct) \<lparr>dOwner = u, dCards = ?da\<rparr> = None"
      "ValidateDeck (Some ct) \<lparr>dOwner = u, dCards = ?db\<rparr> = None" for u
    by (rule starts)+
  obtain st where st: "NewState (maSwaps env) (pairRoom p) (Some ct) \<lparr>iID = pairA p, iCards = ?da\<rparr>
      \<lparr>iID = pairB p, iCards = ?db\<rparr> seed = Inr st"
    using starts(3) by blast
  have s': "OnMatch env ct seed now p s = s\<lparr>svRooms := fst (Create now st (pairRoom p) (pairA p) (pairB p) (maOut env) True (svRooms s)),
      svHub := NotifyMatch (fst (maPicks env)) (snd (maPicks env)) (pairA p) (pairB p) (pairRoom p) (svHub s)\<rparr>"
    by (simp add: OnMatch_def case_prod_unfold st)
  have told: "\<forall>u c. u \<in> {pairA p, pairB p} \<and> map_of (hbConns (svHub s)) u = Some c \<and>
      \<not> wcQuit (hbClients (svHub s) ! c) \<and> length (wcSend (hbClients (svHub s) ! c)) < 256 \<longrightarrow>
      wcSend (hbClients (svHub (OnMatch env ct seed now p s)) ! c) =
        wcSend (hbClients (svHub s) ! c) @ [MatchFound (pairRoom p)]"
  proof (intro allI impI, elim conjE)
    fix u c
    assume "u \<in> {pairA p, pairB p}" "map_of (hbConns (svHub s)) u = Some c"
      "\<not> wcQuit (hbClients (svHub s) ! c)" "length (wcSend (hbClients (svHub s) ! c)) < 256"
    from NotifyMatch_delivers [OF hub ne this] show "wcSend (hbClients (svHub (OnMatch env ct seed now p s)) ! c) =
        wcSend (hbClients (svHub s) ! c) @ [MatchFound (pairRoom p)]" by (simp add: s')
  qed
  have "\<forall>d \<in> set (InitDecks st). ValidateDeck (Some ct) \<lparr>dOwner = o', dCards = d\<rparr> = None"
    using valid by (simp add: NewState_decks [OF st])
  moreover have "GetRoom (svRooms (OnMatch env ct seed now p s)) (pairRoom p) = Some (length (hSlots (svRooms s)))"
    "slSys (hSlots (svRooms (OnMatch env ct seed now p s)) ! length (hSlots (svRooms s))) =
      initSystem now (createdRoom st (pairRoom p) (pairA p) (pairB p) (maOut env) True)"
    by (simp_all add: s' Create_slot)
  ultimately show ?thesis unfolding Let_def using st told by blast
qed

definition sample_match_env :: MatchEnv where
  "sample_match_env =
     \<lparr>maSQL = sample_sql, maUnmarshal = (\<lambda>_. Inl ''not json''), maFaults = (None, Some ''timeout''), maDB = sample_db,
      maSwaps = sample_swaps, maOut = None, maPicks = (True, True)\<rparr>"

lemma sample_catalog_len: "4 \<le> Len sample_catalog"
  using loadCards_Inr [OF load_sample] by (simp add: Len_def yaml_cards_def emptyCatalog_def)

theorem matched_pair_gets_room_witness:
  "GetRoom (svRooms (OnMatch sample_match_env sample_catalog 5 0
       \<lparr>pairA = ''alice'', pairB = ''bob'', pairRoom = roomIdOf ''alice'' ''bob'' 7\<rparr> sample_server))
     (roomIdOf ''alice'' ''bob'' 7) = Some 0"
proof -
  let ?p = "\<lparr>pairA = ''alice'', pairB = ''bob'', pairRoom = roomIdOf ''alice'' ''bob'' 7\<rparr>"
  have "newMatcher = sample_matcher" by (simp add: newMatcher_def sample_matcher_def)
  then have "?p \<in> set (fst (snd (matchOnce sample_zdb newMatcher 1000 (\<lambda>_. 7) sample_queue)))"
    by (simp add: sample_match)
  then have mem: "?p \<in> set (fst (snd (matchOnce sample_zdb newMatcher 1000 (\<lambda>_. 7) sample_queue)))" .
  have names: "pairA ?p \<noteq> []" "pairB ?p \<noteq> []" by simp_all
  have none: "length (hSlots (svRooms sample_server)) = 0"
    by (simp add: sample_server_def openConn_def NewManager_def Let_def)
  show ?thesis
    using matched_pair_gets_room [OF sample_catalog_wf sample_catalog_len mem names served_ok [OF sample_served],
        where env = sample_match_env and seed = 5 and now = 0]
    unfolding Let_def none by auto
qed

text \<open>
  C27. A deck that was saved is the deck that is played: after a request that was answered with
  200, and with the same card table, the next game of that player is dealt from exactly the
  cards of the request, and the decks of all other users are as before. The table of
  users has its two keys; JSON reads back what it wrote.
\<close>
theorem saved_deck_is_played:
  assumes "seDB env = sqlUsers sq marshal readFault writeFault" 
    and "\<And>cards. seDeckReq env (rqBody r) = Some cards \<Longrightarrow> unmarshal (marshal cards) = Inr cards"
    and "keyed sq (siUsers s)"
    and "snd (PlayerFromToken (seLook env now) (rqAuth r) (siTokens s)) = Inr u"
    and "Savedecks env ct now text r s = (s', 200, b)"
  shows "\<exists>cards. seDeckReq env (rqBody r) = Some cards \<and>
    loadDeckOrDefault sq unmarshal None (siUsers s') ct u = cards \<and>
    (\<forall>v. FindUserByName sq None v (siUsers s) \<noteq> FindUserByName sq None u (siUsers s) \<longrightarrow>
       loadDeckOrDefault sq unmarshal fault (siUsers s') ct v = loadDeckOrDefault sq unmarshal fault (siUsers s) ct v)"
proof -
  obtain t where tok: "PlayerFromToken (seLook env now) (rqAuth r) (siTokens s) = (t, Inr u)"
    using assms(4) by (cases "PlayerFromToken (seLook env now) (rqAuth r) (siTokens s)") simp
  from assms(5) tok obtain cards uid pass where sv: "seDeckReq env (rqBody r) = Some cards"
    "ValidateDeck (Some ct) \<lparr>dOwner = u, dCards = cards\<rparr> = None"
    "FindUserByName sq readFault u (siUsers s) = Row (uid, pass)" "writeFault = None"
    "siUsers s' = (siUsers s)\<lparr>dbDecks := AList.update uid (marshal cards) (dbDecks (siUsers s))\<rparr>"
    by (auto simp: Savedecks_def assms(1) sqlUsers_def UpsertDeck_def Let_def
        split: if_splits option.splits DBResult.splits prod.splits)
  from sv(3) obtain x where x: "find (\<lambda>w. sqSame sq (urName w) u) (dbUsers (siUsers s)) = Some x" "urId x = uid"
    by (auto simp: FindUserByName_def split: option.splits)
  have "keyed sq (siUsers s')" using assms(3) sv(5) by (simp add: keyed_def)
  note load = LoadDeck_keyed [OF this, unfolded sv(5)] LoadDeck_keyed [OF assms(3)]
  have "loadDeckOrDefault sq unmarshal None (siUsers s') ct u = cards"
    using sv x assms(2) by (simp add: loadDeckOrDefault_def load update_conv)
  moreover have "LoadDeck sq unmarshal fault v (siUsers s') = LoadDeck sq unmarshal fault v (siUsers s)"
    if v: "FindUserByName sq None v (siUsers s) \<noteq> FindUserByName sq None u (siUsers s)" for v
  proof -
    have "urId y \<noteq> uid" if y: "find (\<lambda>w. sqSame sq (urName w) v) (dbUsers (siUsers s)) = Some y" for y
    proof
      assume "urId y = uid"
      moreover have "x \<in> set (dbUsers (siUsers s))" "y \<in> set (dbUsers (siUsers s))"
        using x(1) y by (auto simp: find_Some_iff)
      ultimately have "x = y" using assms(3) x(2) by (auto simp: keyed_def distinct_map inj_on_def)
      with v x y show False by (simp add: FindUserByName_def)
    qed
    then show ?thesis using sv(5) by (auto simp: load update_conv split: option.split)
  qed
  ultimately show ?thesis using sv(1) by (auto simp: loadDeckOrDefault_def)
qed

text \<open>Bob saves the deck he plays in the sample game.\<close>

definition deck_env :: "(DB, unit) SiteEnv" where
  "deck_env =
     \<lparr>seDB = sqlUsers sample_sql (\<lambda>_. ''json'') None None, seBcrypt = sample_bcrypt, seIssue = (\<lambda>_ _ _ s. (s, Inl (StoreErr []))),
      seLook = bob_look, seLoginReq = (\<lambda>_. None), seDeckReq = (\<lambda>_. Some (iCards sample_b)), seSplit = (\<lambda>_. None)\<rparr>"

definition deck_site :: "(DB, unit) Site" where
  "deck_site = \<lparr>siUsers = sample_db, siTokens = (), siLimiter = None, siCompared = []\<rparr>"

definition deck_request :: Request where
  "deck_request = \<lparr>rqMethod = ''PUT'', rqRemote = [], rqAuth = ''Bearer x'', rqBody = ''json''\<rparr>"

lemma sample_deck_valid: "ValidateDeck (Some sample_catalog) \<lparr>dOwner = u, dCards = iCards sample_b\<rparr> = None"
proof -
  have "IDs sample_catalog = map cID yaml_cards"
    using loadCards_Inr [OF load_sample] by (simp add: IDs_def emptyCatalog_def)
  then have "Has sample_catalog i \<longleftrightarrow> i \<in> set (map cID yaml_cards)" for i
    using catalog.has_ids [OF sample_catalog_wf] by simp
  then show ?thesis by (simp add: ValidateDeck_def checkCopies_start sample_b_def yaml_cards_def Let_def)
qed

theorem saved_deck_is_played_witness:
  "\<exists>s' b. Savedecks deck_env sample_catalog 0 (\<lambda>_. []) deck_request deck_site = (s', 200, b) \<and>
     loadDeckOrDefault sample_sql (\<lambda>_. Inr (iCards sample_b)) None (siUsers s') sample_catalog ''bob'' = iCards sample_b"
proof -
  have "\<exists>s' b. Savedecks deck_env sample_catalog 0 (\<lambda>_. []) deck_request deck_site = (s', 200, b)"
    using sample_deck_valid
    by (simp add: Savedecks_def deck_env_def deck_request_def deck_site_def PlayerFromToken_def bob_look_def sqlUsers_def
        FindUserByName_def sample_db_def sample_sql_def UpsertDeck_def Let_def)
  then obtain s' b where sv: "Savedecks deck_env sample_catalog 0 (\<lambda>_. []) deck_request deck_site = (s', 200, b)" by blast
  have env: "seDB deck_env = sqlUsers sample_sql (\<lambda>_. ''json'') None None" "seDeckReq deck_env = (\<lambda>_. Some (iCards sample_b))"
    by (simp_all add: deck_env_def)
  have "keyed sample_sql (siUsers deck_site)" by (simp add: keyed_def deck_site_def sample_db_def sample_sql_def)
  moreover have "snd (PlayerFromToken (seLook deck_env 0) (rqAuth deck_request) (siTokens deck_site)) = Inr ''bob''"
    using bob_logged_in by (simp add: deck_env_def deck_request_def)
  ultimately show ?thesis
    using saved_deck_is_played [OF env(1), of deck_request "\<lambda>_. Inr (iCards sample_b)", OF _ _ _ sv] sv env(2) by auto
qed

end
