(* ===== verification/Server_Run.thy ===== *)
theory Server_Run
  imports Server_Match
begin

text \<open>
  The life of the server process, \<open>run\<close> in \<open>server/main.go\<close> with \<open>Run\<close> of \<open>internal/match/match.go\<close>:
  starting up, serving, and the shutdown in which the rooms write their reports before the
  database is closed. The goroutines (the main one, the matchmaker, one for each room) are a
  step relation; what happens on connections is any change of the hub and any command in the
  inbox of a room.
\<close>

section \<open>Starting up\<close>

text \<open>An error of MySQL is \<open>log.Fatalf\<close> in \<open>openMysql\<close>, the others are returned by \<open>run\<close>.\<close>

datatype RunErr = MysqlFatal string | RedisDown string string | BadTable LoadErr | NoCardFile string

text \<open>
  \<open>reOpen\<close> is \<open>sql.Open\<close>, \<open>reDBPing\<close> and \<open>rePing\<close> are the two pings; \<open>reAgain\<close> is the second
  read of the card file, which may find another file than the first.
\<close>

record RunEnv =
  reGetenv :: "string \<Rightarrow> string"
  reOpen :: "string \<Rightarrow> string option"
  reDBPing :: "string \<Rightarrow> string option"
  rePing :: "string \<Rightarrow> string option"
  reReadFile :: "string \<Rightarrow> string + string"
  reAgain :: "string \<Rightarrow> string + string"
  reUnmarshal :: "string \<Rightarrow> string + Card list"
  reSum256 :: "string \<Rightarrow> string"
  reParseFloat :: "string \<Rightarrow> real option"

record Started =
  sdCat :: Catalog
  sdCardsHash :: string
  sdOrigins :: "string list"
  sdLimiter :: "IPLimiter option"
  sdMatcher :: Matcher

definition mysqlDSN :: string where
  "mysqlDSN = ''root:pet@tcp(127.0.0.1:3307)/pet?parseTime=true&charset=utf8mb4''"

definition redisAddr :: string where "redisAddr = ''127.0.0.1:6379''"
definition cardPath :: string where "cardPath = ''configs/cards.yaml''"

definition storeOpen :: "RunEnv \<Rightarrow> string \<Rightarrow> string option" where
  "storeOpen x dsn = (case reOpen x dsn of Some e \<Rightarrow> Some e | None \<Rightarrow> reDBPing x dsn)"

definition openMysql :: "RunEnv \<Rightarrow> RunErr option" where
  "openMysql x = map_option MysqlFatal (storeOpen x (envOr (reGetenv x) ''PET_MYSQL_DSN'' mysqlDSN))"

definition openRedis :: "RunEnv \<Rightarrow> RunErr option" where
  "openRedis x =
     (let addr = envOr (reGetenv x) ''PET_REDIS_ADDR'' redisAddr in map_option (RedisDown addr) (rePing x addr))"

definition startRun :: "RunEnv \<Rightarrow> RunErr + Started" where
  "startRun x =
     (case openMysql x of
        Some e \<Rightarrow> Inl e
      | None \<Rightarrow>
          (case openRedis x of
             Some e \<Rightarrow> Inl e
           | None \<Rightarrow>
               (case Load (reReadFile x) (reUnmarshal x) cardPath of
                  Inl e \<Rightarrow> Inl (BadTable e)
                | Inr c \<Rightarrow>
                    (case reAgain x cardPath of
                       Inl e \<Rightarrow> Inl (NoCardFile e)
                     | Inr raw \<Rightarrow>
                         Inr \<lparr>sdCat = c, sdCardsHash = reSum256 x raw,
                              sdOrigins = ParseOrigins (reGetenv x ''PET_ALLOWED_ORIGINS''),
                              sdLimiter = newLoginLimiter (reParseFloat x) (envOr (reGetenv x) ''PET_LOGIN_RATE'' ''1''),
                              sdMatcher = newMatcher\<rparr>))))"

text \<open>
  The server starts exactly when MySQL and Redis answer, the table loads and the file can be
  read again; the catalog it then uses is well formed.
\<close>

lemma startRun_Inr:
  "startRun x = Inr d \<Longrightarrow>
     openMysql x = None \<and> openRedis x = None \<and> Load (reReadFile x) (reUnmarshal x) cardPath = Inr (sdCat d) \<and>
     (\<exists>raw. reAgain x cardPath = Inr raw \<and> sdCardsHash d = reSum256 x raw) \<and> wf_catalog (sdCat d)"
  by (auto simp: startRun_def Load_Inr dest: loadCards_wf split: option.splits sum.splits)

section \<open>Serving and shutting down\<close>

text \<open>Where the main goroutine is, and where the matchmaker is in its loop.\<close>

datatype Phase = Serving | Draining | Joining | Returned
datatype MMState = MMWait | MMRound "Pair list" | MMMatch Pair "Pair list" | MMGone

text \<open>
  \<open>pcSaves\<close> lists the calls of \<open>saveReport\<close>: the report, whether the database was open, and the
  error of the driver, if any. \<open>pcJoined\<close> is the number of rooms there were when \<open>rooms.Wait\<close>
  returned.
\<close>

record 'r Process =
  pcPhase :: Phase
  pcStopped :: bool
  pcMM :: MMState
  pcServer :: "'r Server"
  pcDB :: DB
  pcOpen :: bool
  pcSaves :: "(Report \<times> bool \<times> string option) list"
  pcJoined :: nat

text \<open>What does not change while the process runs.\<close>

record Setup =
  suEnv :: Env
  suJson :: Json
  suSQL :: SQL
  suStarted :: Started
  suMatch :: MatchEnv

definition newProcess :: "'r \<Rightarrow> DB \<Rightarrow> 'r Process" where
  "newProcess q db =
     \<lparr>pcPhase = Serving, pcStopped = False, pcMM = MMWait,
      pcServer = \<lparr>svHub = newHub, svRooms = NewManager, svQueue = q\<rparr>, pcDB = db, pcOpen = True, pcSaves = [], pcJoined = 0\<rparr>"

definition dbClosed :: string where "dbClosed = ''sql: database is closed''"

fun saveTo :: "Setup \<Rightarrow> Report \<times> bool \<times> string option \<Rightarrow> DB \<Rightarrow> DB" where
  "saveTo u (rep, isOpen, fault) db =
     saveReport (suJson u)
       (\<lambda>d r. fst (SaveBattleReport (suSQL u) (if isOpen then fault else Some dbClosed) r d))
       (sdCardsHash (suStarted u)) rep db"

text \<open>
  The room at \<open>p\<close> makes a step to \<open>S\<close>; if it ends, \<open>finish\<close> calls \<open>saveReport\<close> within the step.
\<close>

definition roomEvent :: "Setup \<Rightarrow> string option \<Rightarrow> nat \<Rightarrow> System \<Rightarrow> 'r Process \<Rightarrow> 'r Process" where
  "roomEvent u fault p S P =
     (let m = svRooms (pcServer P);
          old = rReports (lRoom (sLoop (slSys (hSlots m ! p))));
          saves = map (\<lambda>r. (r, pcOpen P, fault)) (drop (length old) (rReports (lRoom (sLoop S))))
      in P\<lparr>pcServer := (pcServer P)\<lparr>svRooms := m\<lparr>hSlots := onSlot p (\<lambda>_. S) (hSlots m)\<rparr>\<rparr>,
           pcDB := fold (saveTo u) saves (pcDB P), pcSaves := pcSaves P @ saves\<rparr>)"

text \<open>The contexts of the rooms are children of the one \<open>stop\<close> cancels.\<close>

definition stopRooms :: "Manager \<Rightarrow> Manager" where
  "stopRooms m = m\<lparr>hSlots := map (\<lambda>x. x\<lparr>slSys := CloseRoom (slSys x)\<rparr>) (hSlots m)\<rparr>"

definition matchEnv :: "Setup \<Rightarrow> 'r Process \<Rightarrow> string option \<times> string option \<Rightarrow> (nat \<Rightarrow> bool) option \<Rightarrow> bool \<times> bool \<Rightarrow> MatchEnv" where
  "matchEnv u P faults out picks =
     (suMatch u)\<lparr>maDB := pcDB P, maFaults := (if pcOpen P then faults else (Some dbClosed, Some dbClosed)),
                maOut := out, maPicks := picks\<rparr>"

definition matched :: "Setup \<Rightarrow> MatchEnv \<Rightarrow> int \<Rightarrow> int \<Rightarrow> Pair \<Rightarrow> 'r Process \<Rightarrow> 'r Process" where
  "matched u env seed now x P =
     (let s = OnMatch env (sdCat (suStarted u)) seed now x (pcServer P)
      in P\<lparr>pcServer := (if pcStopped P then s\<lparr>svRooms := stopRooms (svRooms s)\<rparr> else s)\<rparr>)"

text \<open>
  \<open>signal\<close>: \<open>stop\<close> is called, by a signal or because the listener failed. \<open>tick\<close>: when both are
  ready the select may still take the tick, but then Redis answers with the error of the
  context and there are no pairs; for the same reason a round ends after the pair it is at.
  Ids of pairs are taken to be new: they hold the two names and the time in nanoseconds.
\<close>

inductive runs :: "Setup \<Rightarrow> 'r Process \<Rightarrow> 'r Process \<Rightarrow> bool" for u where
  signal: "runs u P (P\<lparr>pcStopped := True, pcServer := (pcServer P)\<lparr>svRooms := stopRooms (svRooms (pcServer P))\<rparr>\<rparr>)"
| traffic: "runs u P (P\<lparr>pcServer := (pcServer P)\<lparr>svHub := h, svQueue := q\<rparr>\<rparr>)"
| event: "p < length (hSlots (svRooms (pcServer P))) \<Longrightarrow>
    step (suEnv u) e (slSys (hSlots (svRooms (pcServer P)) ! p)) = Some S \<Longrightarrow>
    runs u P (roomEvent u fault p S P)"
| leave: "p < length (hSlots (svRooms (pcServer P))) \<Longrightarrow>
    \<not> sRunning (slSys (hSlots (svRooms (pcServer P)) ! p)) \<Longrightarrow> \<not> slDone (hSlots (svRooms (pcServer P)) ! p) \<Longrightarrow>
    runs u P (P\<lparr>pcServer := (pcServer P)\<lparr>svRooms := leaveRoom p (svRooms (pcServer P))\<rparr>\<rparr>)"
| tick: "pcMM P = MMWait \<Longrightarrow> (q, ps, e) = matchOnce zdb (sdMatcher (suStarted u)) now stamp (svQueue (pcServer P)) \<Longrightarrow>
    (pcStopped P \<longrightarrow> ps = []) \<Longrightarrow>
    runs u P (P\<lparr>pcMM := MMRound ps, pcServer := (pcServer P)\<lparr>svQueue := q\<rparr>\<rparr>)"
| pair: "pcMM P = MMRound (x # ps) \<Longrightarrow> \<not> pcStopped P \<Longrightarrow> runs u P (P\<lparr>pcMM := MMMatch x ps\<rparr>)"
| onMatch: "pcMM P = MMMatch x ps \<Longrightarrow> pairRoom x \<notin> slId ` set (hSlots (svRooms (pcServer P))) \<Longrightarrow>
    runs u P ((matched u (matchEnv u P faults out picks) seed now x P)\<lparr>pcMM := MMRound ps\<rparr>)"
| roundEnd: "pcMM P = MMRound ps \<Longrightarrow> ps = [] \<or> pcStopped P \<Longrightarrow> runs u P (P\<lparr>pcMM := MMWait\<rparr>)"
| mmDone: "pcMM P = MMWait \<Longrightarrow> pcStopped P \<Longrightarrow> runs u P (P\<lparr>pcMM := MMGone\<rparr>)"
| drain: "pcPhase P = Serving \<Longrightarrow> pcStopped P \<Longrightarrow> runs u P (P\<lparr>pcPhase := Draining\<rparr>)"
| shut: "pcPhase P = Draining \<Longrightarrow> runs u P (P\<lparr>pcPhase := Joining\<rparr>)"
| returns: "pcPhase P = Joining \<Longrightarrow> waitReturns (svRooms (pcServer P)) \<Longrightarrow>
    runs u P (P\<lparr>pcPhase := Returned, pcOpen := False, pcJoined := length (hSlots (svRooms (pcServer P)))\<rparr>)"

section \<open>Rooms and their reports\<close>

abbreviation slots :: "'r Process \<Rightarrow> Slot list" where
  "slots P \<equiv> hSlots (svRooms (pcServer P))"

abbreviation reportsOf :: "Slot \<Rightarrow> Report list" where
  "reportsOf x \<equiv> rReports (lRoom (sLoop (slSys x)))"

text \<open>Every room was made for a game between two players, and has only run since.\<close>

definition room_ok :: "Setup \<Rightarrow> Slot \<Rightarrow> bool" where
  "room_ok u x \<longleftrightarrow>
     (\<exists>st a b da db seed out now.
        NewState (maSwaps (suMatch u)) (slId x) (Some (sdCat (suStarted u))) \<lparr>iID = a, iCards = da\<rparr> \<lparr>iID = b, iCards = db\<rparr> seed = Inr st \<and>
        reach (suEnv u) (initSystem now (createdRoom st (slId x) a b out True)) (slSys x))"

definition lib_ok :: "Setup \<Rightarrow> bool" where
  "lib_ok u \<longleftrightarrow> shuffle_ok (maSwaps (suMatch u)) \<and> wf_catalog (sdCat (suStarted u)) \<and> decoder_ok (suEnv u)"

lemma room_ok_step: "room_ok u x \<Longrightarrow> step (suEnv u) e (slSys x) = Some S \<Longrightarrow> room_ok u (x\<lparr>slSys := S\<rparr>)"
  unfolding room_ok_def by (fastforce intro: reach.step)

lemma room_ok_same: "slId y = slId x \<Longrightarrow> slSys y = slSys x \<Longrightarrow> room_ok u y = room_ok u x"
  by (simp add: room_ok_def)

lemma room_ok_close: "room_ok u x \<Longrightarrow> room_ok u (x\<lparr>slSys := CloseRoom (slSys x)\<rparr>)"
  by (rule room_ok_step [of u x Cancel]) (simp_all add: CloseRoom_def)

lemma room_ok_new:
  assumes "NewState (maSwaps (suMatch u)) i (Some (sdCat (suStarted u))) \<lparr>iID = a, iCards = da\<rparr> \<lparr>iID = b, iCards = db\<rparr> seed = Inr st"
  shows "room_ok u \<lparr>slId = i, slSys = initSystem now (createdRoom st i a b out True), slDone = False\<rparr>"
  unfolding room_ok_def using assms reach.init by fastforce

text \<open>A running room has made no report; a closed one has made one, if its session had started.\<close>

lemma room_reports:
  assumes "room_ok u x" "lib_ok u"
  shows "sRunning (slSys x) \<Longrightarrow> reportsOf x = []"
    and "\<not> sRunning (slSys x) \<Longrightarrow> stStarted (lSess (sLoop (slSys x))) \<Longrightarrow> \<exists>rep. reportsOf x = [rep]"
    and "rep \<in> set (reportsOf x) \<Longrightarrow> repRoomID rep = slId x"
proof -
  let ?r = "lRoom (sLoop (slSys x))"
  from assms(1) obtain st a b da db seed out now where
    new: "NewState (maSwaps (suMatch u)) (slId x) (Some (sdCat (suStarted u))) \<lparr>iID = a, iCards = da\<rparr> \<lparr>iID = b, iCards = db\<rparr> seed = Inr st"
    and run: "reach (suEnv u) (initSystem now (createdRoom st (slId x) a b out True)) (slSys x)"
    unfolding room_ok_def by blast
  have lib: "shuffle_ok (maSwaps (suMatch u))" "wf_catalog (sdCat (suStarted u))" "decoder_ok (suEnv u)"
    using assms(2) by (simp_all add: lib_ok_def)
  have ok: "sys_ok (suEnv u) st (slSys x)" by (rule hosts_reach [OF created_hosts [OF new lib] run])
  have base: "rOnFinish ?r" "rId ?r = slId x"
    using reach_setup [OF run lib(3)]
    by (simp_all add: same_setup_def initSystem_def initLoop_def createdRoom_def NewRoom_def)
  show a: "sRunning (slSys x) \<Longrightarrow> reportsOf x = []" using ok by (simp add: sys_ok_def safe_def)
  have closed: "\<not> sRunning (slSys x) \<Longrightarrow> report_part (sLoop (slSys x))" using ok by (simp add: sys_ok_def closed_ok_def)
  show "\<not> sRunning (slSys x) \<Longrightarrow> stStarted (lSess (sLoop (slSys x))) \<Longrightarrow> \<exists>rep. reportsOf x = [rep]"
    using closed base(1) by (auto simp: report_part_def)
  show "rep \<in> set (reportsOf x) \<Longrightarrow> repRoomID rep = slId x"
    using a closed base by (cases "sRunning (slSys x)") (auto simp: report_part_def report_fits_def split: if_splits)
qed

lemma Send_reports: "Send c r = (r', x) \<Longrightarrow> rReports r' = rReports r"
  by (auto simp: Send_def split: if_splits)

text \<open>A room that has ended makes no report any more.\<close>

lemma stopped_reports:
  assumes "step env e S = Some T" "\<not> sRunning S" shows "rReports (lRoom (sLoop T)) = rReports (lRoom (sLoop S))"
  using assms by (cases e) (auto simp: Let_def dest: Send_reports split: prod.splits list.splits option.splits if_splits)

lemma step_reports:
  assumes "room_ok u x" "lib_ok u" "step (suEnv u) e (slSys x) = Some S"
  shows "reportsOf x = [] \<or> rReports (lRoom (sLoop S)) = reportsOf x"
  using room_reports(1) [OF assms(1,2)] stopped_reports [OF assms(3)] by blast

section \<open>What is saved\<close>

text \<open>\<open>ids\<close> and \<open>rs\<close> are the ids of the rooms and the reports each has made.\<close>

definition saves_ok :: "string list \<Rightarrow> Report list list \<Rightarrow> (Report \<times> 'a) list \<Rightarrow> bool" where
  "saves_ok ids rs saves \<longleftrightarrow>
     length rs = length ids \<and> distinct ids \<and>
     (\<forall>k < length ids. map fst (filter (\<lambda>x. repRoomID (fst x) = ids ! k) saves) = rs ! k) \<and>
     (\<forall>x \<in> set saves. repRoomID (fst x) \<in> set ids)"

lemma saves_ok_new:
  assumes "saves_ok ids rs saves" "i \<notin> set ids" shows "saves_ok (ids @ [i]) (rs @ [[]]) saves"
proof -
  have "filter (\<lambda>x. repRoomID (fst x) = i) saves = []"
    using assms by (auto simp: saves_ok_def filter_empty_conv)
  with assms show ?thesis by (auto simp: saves_ok_def nth_append less_Suc_eq)
qed

lemma saves_ok_event:
  assumes ok: "saves_ok ids rs saves" and p: "p < length ids"
    and new: "\<forall>r \<in> set reps. repRoomID r = ids ! p" and saves: "map fst xs = reps"
  shows "saves_ok ids (rs[p := rs ! p @ reps]) (saves @ xs)"
proof -
  have ids: "repRoomID (fst x) = ids ! p" if "x \<in> set xs" for x using that new saves by auto
  have "map fst (filter (\<lambda>x. repRoomID (fst x) = ids ! k) xs) = (if k = p then reps else [])" if "k < length ids" for k
  proof (cases "k = p")
    case True
    then have "filter (\<lambda>x. repRoomID (fst x) = ids ! k) xs = xs" using ids by (auto simp: filter_id_conv)
    with True saves show ?thesis by simp
  next
    case False
    then have "filter (\<lambda>x. repRoomID (fst x) = ids ! k) xs = []"
      using ids ok that p by (auto simp: filter_empty_conv saves_ok_def nth_eq_iff_index_eq)
    with False show ?thesis by simp
  qed
  with ok p ids show ?thesis by (auto simp: saves_ok_def nth_list_update)
qed

section \<open>The invariant of the process\<close>

text \<open>What the invariant sees of the slots.\<close>

definition roomIds :: "'r Process \<Rightarrow> string list" where "roomIds P = map slId (slots P)"
definition roomDone :: "'r Process \<Rightarrow> bool list" where "roomDone P = map slDone (slots P)"
definition roomReports :: "'r Process \<Rightarrow> Report list list" where "roomReports P = map reportsOf (slots P)"

definition hall_ok :: "Setup \<Rightarrow> 'r Process \<Rightarrow> bool" where
  "hall_ok u P \<longleftrightarrow>
     table_ok (svRooms (pcServer P)) \<and> (\<forall>x \<in> set (slots P). room_ok u x) \<and>
     (pcStopped P \<longrightarrow> (\<forall>x \<in> set (slots P). rCancelled (lRoom (sLoop (slSys x)))))"

text \<open>
  Until \<open>run\<close> returns the database is open. At that moment every room has ended; at most the
  pair the matchmaker was at can still get a room afterwards.
\<close>

definition wasOpen :: "Report \<times> bool \<times> string option \<Rightarrow> bool" where "wasOpen x = fst (snd x)"

definition phase_ok :: "'r Process \<Rightarrow> bool" where
  "phase_ok P \<longleftrightarrow>
     (pcPhase P \<noteq> Serving \<longrightarrow> pcStopped P) \<and>
     (if pcPhase P \<noteq> Returned then pcOpen P \<and> (\<forall>x \<in> set (pcSaves P). wasOpen x)
      else pcJoined P \<le> length (roomIds P) \<and> (\<forall>k < pcJoined P. roomDone P ! k) \<and>
        (\<forall>x \<in> set (pcSaves P). wasOpen x \<or> repRoomID (fst x) \<notin> set (take (pcJoined P) (roomIds P))) \<and>
        length (roomIds P) + (case pcMM P of MMMatch _ _ \<Rightarrow> 1 | _ \<Rightarrow> 0) \<le> pcJoined P + 1)"

definition proc_ok :: "Setup \<Rightarrow> DB \<Rightarrow> 'r Process \<Rightarrow> bool" where
  "proc_ok u db P \<longleftrightarrow>
     hall_ok u P \<and> saves_ok (roomIds P) (roomReports P) (pcSaves P) \<and> phase_ok P \<and>
     pcDB P = fold (saveTo u) (pcSaves P) db"

lemma newProcess_ok: "proc_ok u db (newProcess q db)"
  by (simp add: proc_ok_def hall_ok_def phase_ok_def newProcess_def NewManager_def table_ok_def live_def saves_ok_def
      roomIds_def roomReports_def)

text \<open>A step that changes at most the inside of the slots.\<close>

definition same_rooms :: "'r Process \<Rightarrow> 'r Process \<Rightarrow> bool" where
  "same_rooms P Q \<longleftrightarrow>
     roomIds Q = roomIds P \<and> roomReports Q = roomReports P \<and> length (roomDone Q) = length (roomDone P) \<and>
     (\<forall>k < length (roomIds P). roomDone P ! k \<longrightarrow> roomDone Q ! k) \<and>
     pcSaves Q = pcSaves P \<and> pcDB Q = pcDB P \<and> pcPhase Q = pcPhase P \<and> pcJoined Q = pcJoined P \<and> pcOpen Q = pcOpen P \<and>
     (pcStopped P \<longrightarrow> pcStopped Q) \<and>
     (case pcMM Q of MMMatch _ _ \<Rightarrow> (case pcMM P of MMMatch _ _ \<Rightarrow> True | _ \<Rightarrow> \<not> pcStopped P) | _ \<Rightarrow> True)"

lemma same_rooms_ok:
  assumes "proc_ok u db P" "same_rooms P Q" "hall_ok u Q" shows "proc_ok u db Q"
proof -
  have "phase_ok Q"
    using assms(1,2) unfolding proc_ok_def phase_ok_def same_rooms_def
    by (auto split: MMState.splits if_splits)
  then show ?thesis using assms by (simp add: proc_ok_def same_rooms_def)
qed

lemma CloseRoom_simps [simp]: "rReports (lRoom (sLoop (CloseRoom S))) = rReports (lRoom (sLoop S))"
  "sRunning (CloseRoom S) = sRunning S" "rCancelled (lRoom (sLoop (CloseRoom S)))"
  by (simp_all add: CloseRoom_def)

lemma stopRooms_slots:
  "map slId (hSlots (stopRooms m)) = map slId (hSlots m)" "map slDone (hSlots (stopRooms m)) = map slDone (hSlots m)"
  "map reportsOf (hSlots (stopRooms m)) = map reportsOf (hSlots m)" "length (hSlots (stopRooms m)) = length (hSlots m)"
  "k < length (hSlots m) \<Longrightarrow> hSlots (stopRooms m) ! k = (hSlots m ! k)\<lparr>slSys := CloseRoom (slSys (hSlots m ! k))\<rparr>"
  by (simp_all add: stopRooms_def comp_def)

lemma stopRooms_table: "table_ok m \<Longrightarrow> table_ok (stopRooms m)"
proof -
  assume m: "table_ok m"
  have "live (stopRooms m) p \<and> slId (hSlots (stopRooms m) ! p) = i \<longleftrightarrow> live m p \<and> slId (hSlots m ! p) = i" for p i
    by (auto simp: live_def stopRooms_slots)
  moreover have "length (filter (\<lambda>s. \<not> slDone s) (hSlots (stopRooms m))) = length (filter (\<lambda>s. \<not> slDone s) (hSlots m))"
    by (simp add: stopRooms_def filter_map comp_def)
  moreover have "hRooms (stopRooms m) = hRooms m" "hWait (stopRooms m) = hWait m" by (simp_all add: stopRooms_def)
  moreover have "\<forall>p < length (hSlots (stopRooms m)). slDone (hSlots (stopRooms m) ! p) \<longrightarrow> \<not> sRunning (slSys (hSlots (stopRooms m) ! p))"
    using m by (simp add: table_ok_def stopRooms_slots)
  ultimately show ?thesis using m by (simp add: table_ok_def stopRooms_slots)
qed

lemma stopRooms_hall:
  assumes "hall_ok u P"
  shows "hall_ok u (P\<lparr>pcStopped := True, pcServer := (pcServer P)\<lparr>svRooms := stopRooms (svRooms (pcServer P))\<rparr>\<rparr>)"
  using assms stopRooms_table by (auto simp: hall_ok_def stopRooms_def room_ok_close)

lemma signal_ok:
  assumes "proc_ok u db P"
  shows "proc_ok u db (P\<lparr>pcStopped := True, pcServer := (pcServer P)\<lparr>svRooms := stopRooms (svRooms (pcServer P))\<rparr>\<rparr>)"
proof (rule same_rooms_ok [OF assms _ stopRooms_hall])
  show "hall_ok u P" using assms by (simp add: proc_ok_def)
qed (simp add: same_rooms_def roomIds_def roomReports_def roomDone_def stopRooms_slots split: MMState.split)

section \<open>Every step keeps it\<close>

lemma step_cancelled:
  assumes "step env e S = Some T" "decoder_ok env" "rCancelled (lRoom (sLoop S))"
  shows "rCancelled (lRoom (sLoop T))"
  using reach_setup [OF reach.step [OF reach.init assms(1)] assms(2)] assms(3) by (simp add: same_setup_def)

lemma event_keeps:
  assumes P: "proc_ok u db P" and lib: "lib_ok u" and p: "p < length (slots P)"
    and st: "step (suEnv u) e (slSys (slots P ! p)) = Some S"
  shows "proc_ok u db (roomEvent u fault p S P)"
proof -
  let ?Q = "roomEvent u fault p S P" and ?x = "slots P ! p"
  let ?new = "drop (length (reportsOf ?x)) (rReports (lRoom (sLoop S)))"
  let ?saves = "map (\<lambda>r. (r, pcOpen P, fault)) ?new"
  have hall: "hall_ok u P" and x: "room_ok u ?x" using P p by (simp_all add: proc_ok_def hall_ok_def)
  have slots: "slots ?Q = (slots P)[p := ?x\<lparr>slSys := S\<rparr>]" by (simp add: roomEvent_def Let_def onSlot_def)
  have S: "room_ok u (?x\<lparr>slSys := S\<rparr>)" using room_ok_step [OF x st] .
  have grows: "rReports (lRoom (sLoop S)) = reportsOf ?x @ ?new" using step_reports [OF x lib st] by auto
  have own: "\<forall>r \<in> set ?new. repRoomID r = slId ?x"
    using room_reports(3) [OF S lib] by (auto dest: in_set_dropD)
  have ids: "roomIds ?Q = roomIds P" "roomDone ?Q = roomDone P"
    using p by (simp_all add: roomIds_def roomDone_def slots map_update)
  have reps: "roomReports ?Q = (roomReports P)[p := roomReports P ! p @ ?new]"
    using p grows by (simp add: roomReports_def slots map_update)
  have saves: "pcSaves ?Q = pcSaves P @ ?saves" and rest: "pcPhase ?Q = pcPhase P" "pcJoined ?Q = pcJoined P"
    "pcOpen ?Q = pcOpen P" "pcStopped ?Q = pcStopped P" "pcMM ?Q = pcMM P"
    by (simp_all add: roomEvent_def Let_def)
  have "table_ok (svRooms (pcServer ?Q))"
    using event_ok [OF _ p st] hall by (simp add: roomEvent_def Let_def hall_ok_def)
  moreover have "rCancelled (lRoom (sLoop (slSys y)))" if "pcStopped P" "y \<in> set (slots ?Q)" for y
    using that hall p step_cancelled [OF st] lib set_update_subset_insert [of "slots P" p "?x\<lparr>slSys := S\<rparr>"]
    by (auto simp: slots hall_ok_def lib_ok_def)
  moreover have "room_ok u y" if "y \<in> set (slots ?Q)" for y
    using that hall S set_update_subset_insert [of "slots P" p "?x\<lparr>slSys := S\<rparr>"] by (auto simp: slots hall_ok_def)
  ultimately have "hall_ok u ?Q" by (simp add: hall_ok_def rest)
  moreover have "saves_ok (roomIds ?Q) (roomReports ?Q) (pcSaves ?Q)"
    unfolding ids reps saves
    by (rule saves_ok_event) (use P p own in \<open>auto simp: proc_ok_def roomIds_def comp_def\<close>)
  note two = \<open>hall_ok u ?Q\<close> this
  have "?new = []" if "pcPhase P = Returned" "p < pcJoined P"
  proof -
    have "roomDone P ! p" using P that by (simp add: proc_ok_def phase_ok_def)
    then have "slDone ?x" using p by (simp add: roomDone_def)
    then have "\<not> sRunning (slSys ?x)" using hall p by (simp add: hall_ok_def table_okD(6))
    then show ?thesis using stopped_reports [OF st] by simp
  qed
  moreover have "slId ?x \<notin> set (take (pcJoined P) (roomIds P))" if "\<not> p < pcJoined P"
    using P p that nth_eq_iff_index_eq [of "roomIds P" _ p]
    by (auto simp: proc_ok_def saves_ok_def roomIds_def in_set_conv_nth)
  moreover have "\<forall>x \<in> set ?saves. wasOpen x = pcOpen P \<and> repRoomID (fst x) = slId ?x"
    using own by (auto simp: wasOpen_def)
  moreover obtain sv where sv: "sv = ?saves" by simp
  ultimately have "phase_ok ?Q"
    using P unfolding proc_ok_def phase_ok_def ids saves rest sv [symmetric]
    by (cases "p < pcJoined P"; cases "pcPhase P = Returned") (simp_all add: ball_Un sv)
  moreover have "pcDB ?Q = fold (saveTo u) (pcSaves ?Q) db" using P by (simp add: proc_ok_def roomEvent_def Let_def)
  ultimately show ?thesis using two by (simp add: proc_ok_def)
qed

lemma leave_keeps:
  assumes P: "proc_ok u db P" and p: "p < length (slots P)"
    and ended: "\<not> sRunning (slSys (slots P ! p))" "\<not> slDone (slots P ! p)"
  shows "proc_ok u db (P\<lparr>pcServer := (pcServer P)\<lparr>svRooms := leaveRoom p (svRooms (pcServer P))\<rparr>\<rparr>)"
    (is "proc_ok u db ?Q")
proof (rule same_rooms_ok [OF P])
  let ?x = "slots P ! p"
  have hall: "hall_ok u P" using P by (simp add: proc_ok_def)
  then have t: "table_ok (svRooms (pcServer P))" by (simp add: hall_ok_def)
  have live: "live (svRooms (pcServer P)) p" using p ended by (simp add: live_def)
  have slots: "hSlots (leaveRoom p (svRooms (pcServer P))) = (slots P)[p := ?x\<lparr>slSys := CloseRoom (slSys ?x), slDone := True\<rparr>]"
    by (simp add: leaveRoom_eq [OF t live])
  have x: "room_ok u (?x\<lparr>slSys := CloseRoom (slSys ?x), slDone := True\<rparr>)"
    using hall p room_ok_close [of u ?x] by (simp add: hall_ok_def room_ok_def)
  show "same_rooms P ?Q"
    using p list_update_nth [of reportsOf "slots P" p] list_update_nth [of slId "slots P" p]
    by (auto simp: same_rooms_def roomIds_def roomReports_def roomDone_def slots map_update nth_list_update
        simp del: list_update_nth split: MMState.split)
  show "hall_ok u ?Q"
    using leave_ok [OF t live ended(1)] hall x
      set_update_subset_insert [of "slots P" p "?x\<lparr>slSys := CloseRoom (slSys ?x), slDone := True\<rparr>"]
    by (auto simp: hall_ok_def slots)
qed

text \<open>A match adds at most one room, with no report yet.\<close>

lemma OnMatch_rooms:
  assumes "env = matchEnv u P faults out picks"
  shows "svRooms (OnMatch env (sdCat (suStarted u)) seed now x s) = svRooms s \<or>
    (\<exists>y. room_ok u y \<and> slId y = pairRoom x \<and> \<not> slDone y \<and> reportsOf y = [] \<and>
       hSlots (svRooms (OnMatch env (sdCat (suStarted u)) seed now x s)) = hSlots (svRooms s) @ [y] \<and>
       (table_ok (svRooms s) \<and> pairRoom x \<notin> slId ` set (hSlots (svRooms s)) \<longrightarrow>
          table_ok (svRooms (OnMatch env (sdCat (suStarted u)) seed now x s))))"
proof -
  obtain da db where d: "matchDecks env (sdCat (suStarted u)) x = (da, db)" by (cases "matchDecks env (sdCat (suStarted u)) x")
  show ?thesis
  proof (cases "NewState (maSwaps env) (pairRoom x) (Some (sdCat (suStarted u))) \<lparr>iID = pairA x, iCards = da\<rparr>
      \<lparr>iID = pairB x, iCards = db\<rparr> seed")
    case (Inl e)
    with d show ?thesis by (simp add: OnMatch_def)
  next
    case (Inr st)
    have sw: "maSwaps env = maSwaps (suMatch u)" using assms by (simp add: matchEnv_def)
    let ?y = "\<lparr>slId = pairRoom x, slSys = initSystem now (createdRoom st (pairRoom x) (pairA x) (pairB x) (maOut env) True),
        slDone = False\<rparr>"
    have "room_ok u ?y" using Inr unfolding sw by (rule room_ok_new)
    moreover have "reportsOf ?y = []" by (simp add: initSystem_def initLoop_def createdRoom_def NewRoom_def)
    ultimately show ?thesis
      using d Inr Create_ok by (auto simp: OnMatch_def Create_def Let_def intro!: exI [of _ ?y])
  qed
qed

lemma match_keeps:
  assumes P: "proc_ok u db P" and mm: "pcMM P = MMMatch x ps" and new: "pairRoom x \<notin> slId ` set (slots P)"
  shows "proc_ok u db ((matched u (matchEnv u P faults out picks) seed now x P)\<lparr>pcMM := MMRound ps\<rparr>)"
proof -
  let ?Q = "(matched u (matchEnv u P faults out picks) seed now x P)\<lparr>pcMM := MMRound ps\<rparr>"
  let ?s = "OnMatch (matchEnv u P faults out picks) (sdCat (suStarted u)) seed now x (pcServer P)"
  let ?M = "P\<lparr>pcServer := ?s, pcMM := MMRound ps, pcStopped := False\<rparr>"
  have hall: "hall_ok u P" using P by (simp add: proc_ok_def)
  note rooms = OnMatch_rooms [OF refl, of u P faults out picks seed now x "pcServer P"]
  have M: "hall_ok u ?M" using rooms hall new by (auto simp: hall_ok_def)
  have Q: "?Q = (if pcStopped P then ?M\<lparr>pcStopped := True, pcServer := ?s\<lparr>svRooms := stopRooms (svRooms ?s)\<rparr>\<rparr> else ?M)"
    by (simp add: matched_def Let_def)
  have "hall_ok u ?Q" unfolding Q using M stopRooms_hall [OF M] by simp
  moreover have views: "roomIds ?Q = roomIds ?M" "roomDone ?Q = roomDone ?M" "roomReports ?Q = roomReports ?M"
    unfolding Q by (simp_all add: roomIds_def roomDone_def roomReports_def stopRooms_slots)
  have grow: "roomIds ?M = roomIds P \<and> roomReports ?M = roomReports P \<and> roomDone ?M = roomDone P \<or>
      roomIds ?M = roomIds P @ [pairRoom x] \<and> roomReports ?M = roomReports P @ [[]] \<and> roomDone ?M = roomDone P @ [False]"
    using rooms by (auto simp: roomIds_def roomReports_def roomDone_def)
  have "saves_ok (roomIds P) (roomReports P) (pcSaves P)" using P by (simp add: proc_ok_def)
  from this saves_ok_new [OF this, of "pairRoom x"] have "saves_ok (roomIds ?Q) (roomReports ?Q) (pcSaves P)"
    using grow new unfolding views by (auto simp: roomIds_def)
  moreover have rest: "pcSaves ?Q = pcSaves P" "pcDB ?Q = pcDB P" "pcPhase ?Q = pcPhase P" "pcJoined ?Q = pcJoined P"
    "pcOpen ?Q = pcOpen P" "pcStopped ?Q = pcStopped P" "pcMM ?Q = MMRound ps"
    by (simp_all add: matched_def Let_def)
  have "length (roomDone P) = length (roomIds P)" by (simp add: roomDone_def roomIds_def)
  then have "phase_ok ?Q"
    using grow P mm unfolding proc_ok_def phase_ok_def rest views
    by (elim disjE; cases "pcPhase P = Returned") (simp_all add: nth_append)
  ultimately show ?thesis using P by (simp add: proc_ok_def rest)
qed

lemma waitReturns_done:
  assumes "table_ok m" "waitReturns m" "k < length (hSlots m)" shows "slDone (hSlots m ! k)"
proof -
  have "filter (\<lambda>s. \<not> slDone s) (hSlots m) = []" using assms(1,2) by (simp add: table_okD(5) waitReturns_def)
  then show ?thesis using assms(3) by (simp add: filter_empty_conv)
qed

lemma runs_ok: "runs u P Q \<Longrightarrow> lib_ok u \<Longrightarrow> proc_ok u db P \<Longrightarrow> proc_ok u db Q"
proof (induction rule: runs.cases)
  case (signal P)
  then show ?case by (simp add: signal_ok)
next
  case (event p P e S fault)
  then show ?case by (simp add: event_keeps)
next
  case (leave p P)
  then show ?case by (simp add: leave_keeps)
next
  case (onMatch P x ps faults out picks seed now)
  then show ?case by (simp add: match_keeps)
next
  case (returns P)
  then show ?case
    by (auto simp: proc_ok_def phase_ok_def hall_ok_def roomIds_def roomReports_def roomDone_def waitReturns_done split: MMState.split)
qed (auto simp: proc_ok_def phase_ok_def hall_ok_def roomIds_def roomReports_def roomDone_def split: MMState.splits if_splits)

lemma rooms_kept: "(runs u)\<^sup>*\<^sup>* (newProcess q db) P \<Longrightarrow> lib_ok u \<Longrightarrow> proc_ok u db P"
  by (induction rule: rtranclp_induct) (simp_all add: newProcess_ok runs_ok)

section \<open>The row of a saved report\<close>

lemma saveTo_rows:
  "dbReports (saveTo u x d) = dbReports d \<or>
     (\<exists>row. dbReports (saveTo u x d) = dbReports d @ [row] \<and> brRoomID row = repRoomID (fst x))"
proof -
  obtain rep o' fault where x: "x = (rep, o', fault)" by (cases x)
  have "brRoomID br = repRoomID rep" if "toBattleReport J h rep = Inr br" for J h br
    using that by (auto simp: toBattleReport_def Let_def split: sum.splits)
  moreover have "brRoomID row = brRoomID br" if "storedRow sq br = Some row" for sq br row
    using that by (auto simp: storedRow_def split: option.splits)
  ultimately show ?thesis
    by (fastforce simp: x saveReport_def SaveBattleReport_def split: sum.split option.split)
qed

lemma GetReport_others:
  assumes "\<forall>x \<in> set saves. \<not> sqSame sq (repRoomID (fst x)) i"
  shows "GetReport sq None i (fold (saveTo u) saves d) = GetReport sq None i d"
  using assms
proof (induction saves arbitrary: d)
  case (Cons x saves)
  have "GetReport sq None i (saveTo u x d) = GetReport sq None i d"
    using saveTo_rows [of u x d] Cons.prems by (auto simp: GetReport_def find_append split: option.split)
  with Cons show ?case by simp
qed simp

lemma GetReport_kept:
  assumes "GetReport sq None i d = Inr (Some row)"
  shows "GetReport sq None i (fold (saveTo u) saves d) = Inr (Some row)"
  using assms
proof (induction saves arbitrary: d)
  case (Cons x saves)
  have "GetReport sq None i (saveTo u x d) = Inr (Some row)"
    using saveTo_rows [of u x d] Cons.prems by (auto simp: GetReport_def find_append)
  with Cons.IH show ?case by simp
qed simp

text \<open>The only report of a room with its id, saved without an error, is found.\<close>

lemma GetReport_after_saves:
  assumes only: "filter (\<lambda>y. repRoomID (fst y) = i) saves = [(rep, True, None)]"
    and others: "\<forall>x \<in> set saves. repRoomID (fst x) \<noteq> i \<longrightarrow> \<not> sqSame (suSQL u) (repRoomID (fst x)) i"
    and new: "\<forall>x \<in> set (dbReports db). \<not> sqSame (suSQL u) (brRoomID x) i"
    and row: "toBattleReport (suJson u) (sdCardsHash (suStarted u)) rep = Inr br" "storedRow (suSQL u) br = Some row"
      "brRoomID br = i" "brRoomID row = i" and sq: "sql_ok (suSQL u)"
  shows "GetReport (suSQL u) None i (fold (saveTo u) saves db) = Inr (Some row)"
proof -
  obtain xs ys where saves: "saves = xs @ (rep, True, None) # ys" "\<forall>x \<in> set xs. repRoomID (fst x) \<noteq> i"
    using only by (auto simp: filter_eq_Cons_iff)
  let ?d = "fold (saveTo u) xs db"
  have "GetReport (suSQL u) None i ?d = GetReport (suSQL u) None i db"
    using saves others by (intro GetReport_others) simp
  also have "\<dots> = Inr None" using new by (simp add: GetReport_def find_None_iff)
  finally have fresh: "\<forall>x \<in> set (dbReports ?d). \<not> sqSame (suSQL u) (brRoomID x) (brRoomID br)"
    using row(3) by (simp add: GetReport_def find_None_iff)
  have "GetReport (suSQL u) None (brRoomID br) (fst (SaveBattleReport (suSQL u) None br ?d)) = Inr (Some row)"
    by (rule GetReport_saved [OF sq row(2) _ fresh]) (simp add: row)
  then have "GetReport (suSQL u) None i (saveTo u (rep, True, None) ?d) = Inr (Some row)"
    using row by (simp add: saveReport_def)
  then show ?thesis using GetReport_kept by (simp add: saves)
qed

text \<open>The row of a report a room made is rebuilt by \<open>Build\<close>.\<close>

lemma room_row_rebuilds:
  assumes x: "room_ok u x" and lib: "lib_ok u" and rep: "rep \<in> set (reportsOf x)"
    and json: "json_ok (viaColumn (suSQL u) (suJson u)) (suEnv u) rep"
  obtains br row res where "toBattleReport (suJson u) (sdCardsHash (suStarted u)) rep = Inr br"
    "storedRow (suSQL u) br = Some row" "brRoomID br = slId x" "brRoomID row = slId x"
    "Build (suEnv u) (suJson u) (maSwaps (suMatch u)) (Some (sdCat (suStarted u))) (sdCardsHash (suStarted u)) row = Inr res"
proof -
  from x obtain st a b da db seed out now where
    new: "NewState (maSwaps (suMatch u)) (slId x) (Some (sdCat (suStarted u))) \<lparr>iID = a, iCards = da\<rparr> \<lparr>iID = b, iCards = db\<rparr> seed = Inr st"
    and run: "reach (suEnv u) (initSystem now (createdRoom st (slId x) a b out True)) (slSys x)"
    unfolding room_ok_def by blast
  have lib': "shuffle_ok (maSwaps (suMatch u))" "wf_catalog (sdCat (suStarted u))" "decoder_ok (suEnv u)"
    using lib by (simp_all add: lib_ok_def)
  from room_report_rebuilds [OF new lib' run rep json, of "sdCardsHash (suStarted u)"] obtain br res where
    br: "toBattleReport (suJson u) (sdCardsHash (suStarted u)) rep = Inr br"
      "Build (suEnv u) (viaColumn (suSQL u) (suJson u)) (maSwaps (suMatch u)) (Some (sdCat (suStarted u))) (sdCardsHash (suStarted u)) br = Inr res"
      "brRoomID br = slId x" "brStartedAt br \<noteq> None"
    by auto
  from stored_row [OF br(2,4)] br that show thesis by metis
qed

section \<open>The shutdown ends\<close>

text \<open>What is left to do before \<open>Wait\<close> returns: two steps for a running room, one for an ended one.\<close>

definition roomWork :: "Slot \<Rightarrow> nat" where
  "roomWork x = (if slDone x then 0 else if sRunning (slSys x) then 2 else 1)"

definition work :: "'r Process \<Rightarrow> nat" where
  "work P = sum_list (map roomWork (slots P))"

lemma work_0: "work P = 0 \<longleftrightarrow> (\<forall>x \<in> set (slots P). slDone x)"
proof -
  have "sum_list (map roomWork xs) = 0 \<longleftrightarrow> (\<forall>x \<in> set xs. slDone x)" for xs
    by (induction xs) (auto simp: roomWork_def)
  then show ?thesis by (simp add: work_def)
qed

lemma work_update:
  "p < length xs \<Longrightarrow> roomWork (xs ! p) = Suc (roomWork y) \<Longrightarrow>
     Suc (sum_list (map roomWork (xs[p := y]))) = sum_list (map roomWork xs)"
proof (induction xs arbitrary: p)
  case (Cons z xs)
  then show ?case by (cases p) auto
qed simp

lemma SeeDone_ends:
  assumes "sRunning S" "rCancelled (lRoom (sLoop S))"
  obtains T where "step env SeeDone S = Some T" "\<not> sRunning T"
  using assms by (simp add: settle_def)

lemma work_step:
  assumes P: "hall_ok u P" "pcStopped P" and left: "0 < work P"
  obtains Q where "runs u P Q" "Suc (work Q) = work P" "pcPhase Q = pcPhase P" "pcStopped Q" "length (slots Q) = length (slots P)"
proof -
  obtain p where p: "p < length (slots P)" "\<not> slDone (slots P ! p)"
    using left work_0 [of P] by (auto simp: in_set_conv_nth)
  let ?x = "slots P ! p"
  show thesis
  proof (cases "sRunning (slSys ?x)")
    case True
    have "rCancelled (lRoom (sLoop (slSys ?x)))" using P p by (simp add: hall_ok_def)
    from SeeDone_ends [OF True this] obtain T where T: "step (suEnv u) SeeDone (slSys ?x) = Some T" "\<not> sRunning T" .
    let ?Q = "roomEvent u None p T P"
    have "slots ?Q = (slots P)[p := ?x\<lparr>slSys := T\<rparr>]" by (simp add: roomEvent_def Let_def onSlot_def)
    then have "Suc (work ?Q) = work P" unfolding work_def
      by (simp only:) (rule work_update [OF p(1)], use p(2) True T(2) in \<open>simp add: roomWork_def\<close>)
    with runs.event [OF p(1) T(1), of None] P(2) show thesis
      by (intro that [of ?Q]) (simp_all add: roomEvent_def Let_def)
  next
    case False
    let ?Q = "P\<lparr>pcServer := (pcServer P)\<lparr>svRooms := leaveRoom p (svRooms (pcServer P))\<rparr>\<rparr>"
    have t: "table_ok (svRooms (pcServer P))" "live (svRooms (pcServer P)) p" using P p by (simp_all add: hall_ok_def live_def)
    have slots: "slots ?Q = (slots P)[p := ?x\<lparr>slSys := CloseRoom (slSys ?x), slDone := True\<rparr>]"
      by (simp add: leaveRoom_eq [OF t])
    then have "Suc (work ?Q) = work P" unfolding work_def
      by (simp only:) (rule work_update [OF p(1)], use p(2) False in \<open>simp add: roomWork_def\<close>)
    with runs.leave [OF p(1) False p(2)] P(2) slots show thesis by (intro that [of ?Q]) simp_all
  qed
qed

lemma work_ends:
  assumes "lib_ok u" "proc_ok u db P" "pcStopped P"
  shows "\<exists>Q. (runs u ^^ work P) P Q \<and> work Q = 0 \<and> proc_ok u db Q \<and> pcPhase Q = pcPhase P \<and> pcStopped Q \<and>
    length (slots Q) = length (slots P)"
  using assms(2,3)
proof (induction "work P" arbitrary: P)
  case 0
  then show ?case by (intro exI [of _ P]) auto
next
  case (Suc n)
  have "hall_ok u P" using Suc.prems(1) by (simp add: proc_ok_def)
  from work_step [OF this Suc.prems(2)] Suc.hyps(2) obtain Q where
    Q: "runs u P Q" "work Q = n" "pcPhase Q = pcPhase P" "pcStopped Q" "length (slots Q) = length (slots P)"
    by (metis Suc_inject zero_less_Suc)
  from Suc.hyps(1) [of Q] Q runs_ok [OF Q(1) assms(1) Suc.prems(1)] obtain R where
    R: "(runs u ^^ n) Q R" "work R = 0" "proc_ok u db R" "pcPhase R = pcPhase Q" "pcStopped R" "length (slots R) = length (slots Q)"
    by auto
  have "(runs u ^^ Suc n) P R" using Q(1) R(1) by (rule relpowp_Suc_I2)
  with Q R Suc.hyps(2) show ?case by (intro exI [of _ R]) auto
qed

lemma work_le: "work P \<le> 2 * length (slots P)"
proof -
  have "sum_list (map roomWork xs) \<le> 2 * length xs" for xs by (induction xs) (auto simp: roomWork_def)
  then show ?thesis by (simp add: work_def)
qed

lemma work_0_waits: "table_ok (svRooms (pcServer P)) \<Longrightarrow> work P = 0 \<Longrightarrow> waitReturns (svRooms (pcServer P))"
  by (simp add: work_0 waitReturns_def table_okD(5) filter_empty_conv)

lemma shutdown_ends:
  assumes "lib_ok u" "proc_ok u db P" "pcStopped P" "pcPhase P \<noteq> Returned"
  shows "\<exists>Q n. (runs u ^^ n) P Q \<and> n \<le> 2 * length (slots P) + 3 \<and> pcPhase Q = Returned \<and>
    pcJoined Q = length (slots P)"
proof -
  from work_ends [OF assms(1-3)] obtain R where R: "(runs u ^^ work P) P R" "work R = 0" "proc_ok u db R"
    "pcPhase R = pcPhase P" "pcStopped R" "length (slots R) = length (slots P)" by blast
  have "waitReturns (svRooms (pcServer R))"
    using R(2,3) by (intro work_0_waits) (simp_all add: proc_ok_def hall_ok_def)
  define W where "W = R\<lparr>pcPhase := Joining\<rparr>"
  let ?Q = "W\<lparr>pcPhase := Returned, pcOpen := False, pcJoined := length (slots W)\<rparr>"
  have ret: "runs u W ?Q" by (rule runs.returns) (simp_all add: W_def \<open>waitReturns _\<close>)
  have mid: "\<exists>k \<le> 2. (runs u ^^ k) R W"
  proof (cases "pcPhase P")
    case Serving
    then have "runs u R (R\<lparr>pcPhase := Draining\<rparr>)" using R(4,5) by (intro runs.drain) simp_all
    moreover have "runs u (R\<lparr>pcPhase := Draining\<rparr>) W" using runs.shut [of "R\<lparr>pcPhase := Draining\<rparr>"] by (simp add: W_def)
    ultimately show ?thesis by (intro exI [of _ 2]) (auto simp: numeral_2_eq_2)
  next
    case Draining
    then have "runs u R W" using R(4) runs.shut [of R] by (simp add: W_def)
    then show ?thesis by (intro exI [of _ 1]) auto
  next
    case Joining
    then have "W = R" using R(4) by (simp add: W_def)
    then show ?thesis by (intro exI [of _ 0]) auto
  next
    case Returned
    with assms(4) show ?thesis by simp
  qed
  then obtain k where k: "k \<le> 2" "(runs u ^^ k) R W" by blast
  have "(runs u ^^ (work P + k)) P W" using R(1) k(2) unfolding relpowp_add by blast
  then have "(runs u ^^ Suc (work P + k)) P ?Q" using ret by (rule relpowp_Suc_I)
  moreover have "Suc (work P + k) \<le> 2 * length (slots P) + 3" using work_le [of P] k(1) by simp
  ultimately show ?thesis using R(6) by (intro exI [of _ ?Q] exI [of _ "Suc (work P + k)"]) (simp add: W_def)
qed

section \<open>Properties\<close>

text \<open>
  C8. A shutdown loses no game. When \<open>run\<close> returns, every room there was when \<open>rooms.Wait\<close>
  returned has ended, and if its session had started, its one report was handed to
  \<open>saveReport\<close> once, while the database was open. If the driver reported no error, the
  report reads back and no other room id is equal in the database, the database holds the
  row under the id of the room, and \<open>Build\<close> accepts it. At most one room can come later, of
  the pair the matchmaker was at, for which nobody waits.
\<close>
theorem shutdown_loses_no_game:
  assumes "lib_ok u" and "(runs u)\<^sup>*\<^sup>* (newProcess q db) P" and "pcPhase P = Returned" and "k < pcJoined P"
  shows "let x = slots P ! k in
    pcJoined P \<le> length (slots P) \<and> length (slots P) \<le> pcJoined P + 1 \<and> slDone x \<and> \<not> sRunning (slSys x) \<and>
    (stStarted (lSess (sLoop (slSys x))) \<longrightarrow>
      (\<exists>rep fault. rReports (lRoom (sLoop (slSys x))) = [rep] \<and>
         filter (\<lambda>y. repRoomID (fst y) = slId x) (pcSaves P) = [(rep, True, fault)] \<and>
         (fault = None \<and> sql_ok (suSQL u) \<and> json_ok (viaColumn (suSQL u) (suJson u)) (suEnv u) rep \<and>
          (\<forall>r \<in> set (dbReports db). \<not> sqSame (suSQL u) (brRoomID r) (slId x)) \<and>
          (\<forall>y \<in> set (slots P). slId y \<noteq> slId x \<longrightarrow> \<not> sqSame (suSQL u) (slId y) (slId x)) \<longrightarrow>
          (\<exists>row res. GetReport (suSQL u) None (slId x) (pcDB P) = Inr (Some row) \<and>
             Build (suEnv u) (suJson u) (maSwaps (suMatch u)) (Some (sdCat (suStarted u)))
               (sdCardsHash (suStarted u)) row = Inr res))))"
proof -
  let ?x = "slots P ! k"
  note ok = rooms_kept [OF assms(2,1)]
  have ph: "pcJoined P \<le> length (slots P)" "length (slots P) \<le> pcJoined P + 1" "roomDone P ! k"
    "\<forall>y \<in> set (pcSaves P). wasOpen y \<or> repRoomID (fst y) \<notin> set (take (pcJoined P) (roomIds P))"
    using ok assms(3,4) by (simp_all add: proc_ok_def phase_ok_def roomIds_def)
  have k: "k < length (slots P)" using ph(1) assms(4) by simp
  have ended: "slDone ?x" "\<not> sRunning (slSys ?x)" and x: "room_ok u ?x"
    using ok k ph(3) by (simp_all add: roomDone_def proc_ok_def hall_ok_def table_okD(6))
  have saves: "saves_ok (roomIds P) (roomReports P) (pcSaves P)" using ok by (simp add: proc_ok_def)
  moreover have "\<exists>rep fault. reportsOf ?x = [rep] \<and>
         filter (\<lambda>y. repRoomID (fst y) = slId ?x) (pcSaves P) = [(rep, True, fault)] \<and>
         (fault = None \<and> sql_ok (suSQL u) \<and> json_ok (viaColumn (suSQL u) (suJson u)) (suEnv u) rep \<and>
          (\<forall>r \<in> set (dbReports db). \<not> sqSame (suSQL u) (brRoomID r) (slId ?x)) \<and>
          (\<forall>y \<in> set (slots P). slId y \<noteq> slId ?x \<longrightarrow> \<not> sqSame (suSQL u) (slId y) (slId ?x)) \<longrightarrow>
          (\<exists>row res. GetReport (suSQL u) None (slId ?x) (pcDB P) = Inr (Some row) \<and>
             Build (suEnv u) (suJson u) (maSwaps (suMatch u)) (Some (sdCat (suStarted u)))
               (sdCardsHash (suStarted u)) row = Inr res))"
    if started: "stStarted (lSess (sLoop (slSys ?x)))"
  proof -
    obtain rep where rep: "reportsOf ?x = [rep]" using room_reports(2) [OF x assms(1) ended(2) started] by blast
    have "map fst (filter (\<lambda>y. repRoomID (fst y) = slId ?x) (pcSaves P)) = [rep]"
      using saves k rep by (simp add: saves_ok_def roomIds_def roomReports_def)
    then obtain w fault where only: "filter (\<lambda>y. repRoomID (fst y) = slId ?x) (pcSaves P) = [(rep, w, fault)]"
      by (auto simp: map_eq_Cons_conv)
    have "(rep, w, fault) \<in> set (filter (\<lambda>y. repRoomID (fst y) = slId ?x) (pcSaves P))" unfolding only by simp
    then have mem: "(rep, w, fault) \<in> set (pcSaves P) \<and> repRoomID rep = slId ?x" by simp
    have "slId ?x \<in> set (take (pcJoined P) (roomIds P))"
      using k assms(4) by (auto simp: roomIds_def in_set_conv_nth intro!: exI [of _ k])
    with ph(4) mem have "w" by (force simp: wasOpen_def)
    have "\<exists>row res. GetReport (suSQL u) None (slId ?x) (pcDB P) = Inr (Some row) \<and>
             Build (suEnv u) (suJson u) (maSwaps (suMatch u)) (Some (sdCat (suStarted u)))
               (sdCardsHash (suStarted u)) row = Inr res"
      if f: "fault = None" and sql: "sql_ok (suSQL u)" and json: "json_ok (viaColumn (suSQL u) (suJson u)) (suEnv u) rep"
        and fresh: "\<forall>r \<in> set (dbReports db). \<not> sqSame (suSQL u) (brRoomID r) (slId ?x)"
        and apart: "\<forall>y \<in> set (slots P). slId y \<noteq> slId ?x \<longrightarrow> \<not> sqSame (suSQL u) (slId y) (slId ?x)"
    proof -
      obtain br row res where r: "toBattleReport (suJson u) (sdCardsHash (suStarted u)) rep = Inr br"
        "storedRow (suSQL u) br = Some row" "brRoomID br = slId ?x" "brRoomID row = slId ?x"
        "Build (suEnv u) (suJson u) (maSwaps (suMatch u)) (Some (sdCat (suStarted u))) (sdCardsHash (suStarted u)) row = Inr res"
        using room_row_rebuilds [OF x assms(1) _ json] rep by auto
      have "\<forall>y \<in> set (pcSaves P). repRoomID (fst y) \<noteq> slId ?x \<longrightarrow> \<not> sqSame (suSQL u) (repRoomID (fst y)) (slId ?x)"
        using saves apart by (fastforce simp: saves_ok_def roomIds_def)
      from GetReport_after_saves [OF only [unfolded f, simplified \<open>w\<close>] this fresh r(1-4) sql] r(5) ok
      show ?thesis by (auto simp: proc_ok_def)
    qed
    moreover have "filter (\<lambda>y. repRoomID (fst y) = slId ?x) (pcSaves P) = [(rep, True, fault)]"
      using only \<open>w\<close> by simp
    ultimately show ?thesis using rep by blast
  qed
  ultimately show ?thesis using ph(1,2) ended unfolding Let_def by blast
qed

text \<open>A pair is matched, both players join, and the server is stopped.\<close>

definition sample_setup :: Setup where
  "sample_setup =
     \<lparr>suEnv = sample_env, suJson = sample_json, suSQL = sample_sql,
      suStarted = \<lparr>sdCat = sample_catalog, sdCardsHash = ''cards'', sdOrigins = [], sdLimiter = None, sdMatcher = newMatcher\<rparr>,
      suMatch = sample_match_env\<rparr>"

lemma sample_lib: "lib_ok sample_setup"
  by (simp add: lib_ok_def sample_setup_def sample_match_env_def sample_swaps_ok sample_catalog_wf sample_decoder)

definition join_cmd :: "string \<Rightarrow> Cmd" where "join_cmd p = cmd p ''join'' []"

lemma both_join:
  assumes "\<not> Over st"
  shows "\<exists>S. run env [Arrive (join_cmd ''alice''), TakeCmd, Arrive (join_cmd ''bob''), TakeCmd]
     (initSystem now (createdRoom st i ''alice'' ''bob'' (Some (\<lambda>_. False)) True)) = Some S \<and>
     stStarted (lSess (sLoop S)) \<and> sRunning S"
  by (simp add: assms join_cmd_def createdRoom_def NewRoom_def initSystem_def initLoop_def
      newSession_def Send_def cmd_def settle_def onCmd_def handle_def handleJoin_def
      stHas_def andThen_def onRoom_def status_def broadcast_def emit_def cancelGrace_def countTrue_def
      pushState_def sendView_def checkTurn_def resetTurn_def turnLimitOf_def defaultTurn_def Let_def)

lemma room_runs:
  "run (suEnv u) es (slSys (slots P ! p)) = Some T \<Longrightarrow> p < length (slots P) \<Longrightarrow>
     \<exists>Q. (runs u)\<^sup>*\<^sup>* P Q \<and> slots Q = (slots P)[p := (slots P ! p)\<lparr>slSys := T\<rparr>] \<and> pcPhase Q = pcPhase P"
proof (induction es arbitrary: P)
  case Nil
  then have "(slots P)[p := (slots P ! p)\<lparr>slSys := T\<rparr>] = slots P" by (intro list_update_same_conv [THEN iffD2]) auto
  then show ?case by (intro exI [of _ P]) simp
next
  case (Cons e es)
  from Cons.prems(1) obtain S where S: "step (suEnv u) e (slSys (slots P ! p)) = Some S" "run (suEnv u) es S = Some T"
    by (auto split: option.splits)
  let ?P = "roomEvent u None p S P"
  have slots: "slots ?P = (slots P)[p := (slots P ! p)\<lparr>slSys := S\<rparr>]" "pcPhase ?P = pcPhase P"
    by (simp_all add: roomEvent_def Let_def onSlot_def)
  from Cons.IH [of ?P] S(2) Cons.prems(2) slots obtain Q where
    "(runs u)\<^sup>*\<^sup>* ?P Q" "slots Q = (slots P)[p := (slots P ! p)\<lparr>slSys := T\<rparr>]" "pcPhase Q = pcPhase P"
    by auto
  with runs.event [OF Cons.prems(2) S(1), of None] show ?case by (meson converse_rtranclp_into_rtranclp)
qed

lemma one_room_shutdown:
  assumes P: "proc_ok u db P" and lib: "lib_ok u" and x: "slots P = [x]" "\<not> slDone x" "sRunning (slSys x)" "stStarted (lSess (sLoop (slSys x)))"
    and ph: "pcPhase P = Serving"
  shows "\<exists>Q y. (runs u)\<^sup>*\<^sup>* P Q \<and> pcPhase Q = Returned \<and> pcJoined Q = 1 \<and> slots Q = [y] \<and>
    stStarted (lSess (sLoop (slSys y)))"
proof -
  let ?P1 = "P\<lparr>pcStopped := True, pcServer := (pcServer P)\<lparr>svRooms := stopRooms (svRooms (pcServer P))\<rparr>\<rparr>"
  have 1: "runs u P ?P1" by (rule runs.signal)
  obtain T where T: "step (suEnv u) SeeDone (CloseRoom (slSys x)) = Some T" "\<not> sRunning T" "stStarted (lSess (sLoop T))"
    using x(3,4) by (simp add: settle_def exitRun_def CloseRoom_def Let_def)
  let ?P2 = "roomEvent u None 0 T ?P1"
  have p1: "slots ?P1 = [x\<lparr>slSys := CloseRoom (slSys x)\<rparr>]" using x(1) by (simp add: stopRooms_def)
  have 2: "runs u ?P1 ?P2" by (rule runs.event [of _ _ _ SeeDone], use p1 in simp) (use p1 T(1) in \<open>simp del: step.simps\<close>)
  have p2: "slots ?P2 = [x\<lparr>slSys := T\<rparr>]" using p1 by (simp add: roomEvent_def Let_def onSlot_def stopRooms_def x(1))
  let ?P3 = "?P2\<lparr>pcServer := (pcServer ?P2)\<lparr>svRooms := leaveRoom 0 (svRooms (pcServer ?P2))\<rparr>\<rparr>"
  have 3: "runs u ?P2 ?P3" by (rule runs.leave) (use p2 T(2) x(2) in simp_all)
  have ok: "proc_ok u db ?P2" using runs_ok [OF 2 lib runs_ok [OF 1 lib P]] .
  then have t: "table_ok (svRooms (pcServer ?P2))" "live (svRooms (pcServer ?P2)) 0"
    using p2 x(2) by (simp_all add: proc_ok_def hall_ok_def live_def)
  have p3: "slots ?P3 = [x\<lparr>slSys := CloseRoom T, slDone := True\<rparr>]"
    using p2 by (simp add: leaveRoom_eq [OF t])
  have ok3: "proc_ok u db ?P3" by (rule runs_ok [OF 3 lib ok])
  let ?P4 = "?P3\<lparr>pcPhase := Draining\<rparr>"
  let ?P5 = "?P4\<lparr>pcPhase := Joining\<rparr>"
  let ?P6 = "?P5\<lparr>pcPhase := Returned, pcOpen := False, pcJoined := length (slots ?P5)\<rparr>"
  have "pcPhase ?P3 = Serving" "pcStopped ?P3" using ph by (simp_all add: roomEvent_def Let_def)
  then have 4: "runs u ?P3 ?P4" by (intro runs.drain)
  have 5: "runs u ?P4 ?P5" by (rule runs.shut) simp
  have "waitReturns (svRooms (pcServer ?P3))"
    using ok3 p3 by (intro work_0_waits) (simp_all add: proc_ok_def hall_ok_def work_0)
  then have 6: "runs u ?P5 ?P6" by (intro runs.returns) simp_all
  have "(runs u)\<^sup>*\<^sup>* P ?P6" using 1 2 3 4 5 6 by (meson converse_rtranclp_into_rtranclp rtranclp.rtrancl_refl)
  then show ?thesis using p3 T(3) by (intro exI [of _ ?P6] exI [of _ "x\<lparr>slSys := CloseRoom T, slDone := True\<rparr>"]) (simp add: CloseRoom_def)
qed

lemma sample_started:
  "\<exists>P x. (runs sample_setup)\<^sup>*\<^sup>* (newProcess sample_queue sample_db) P \<and> slots P = [x] \<and> \<not> slDone x \<and>
     sRunning (slSys x) \<and> stStarted (lSess (sLoop (slSys x))) \<and> pcPhase P = Serving"
proof -
  let ?u = sample_setup and ?p = "\<lparr>pairA = ''alice'', pairB = ''bob'', pairRoom = roomIdOf ''alice'' ''bob'' 7\<rparr>"
  let ?P0 = "newProcess sample_queue sample_db"
  have "newMatcher = sample_matcher" by (simp add: newMatcher_def sample_matcher_def)
  then obtain q e where m: "(q, [?p], e) = matchOnce sample_zdb (sdMatcher (suStarted ?u)) 1000 (\<lambda>_. 7) (svQueue (pcServer ?P0))"
    using sample_match [of "\<lambda>_. 7"] by (metis (no_types, lifting) Process.select_convs(4) Server.select_convs(3)
        Setup.select_convs(4) Started.select_convs(5) newProcess_def prod.collapse sample_setup_def)
  let ?P1 = "?P0\<lparr>pcMM := MMRound [?p], pcServer := (pcServer ?P0)\<lparr>svQueue := q\<rparr>\<rparr>"
  have 1: "runs ?u ?P0 ?P1" by (rule runs.tick [OF _ m]) (simp_all add: newProcess_def)
  let ?P2 = "?P1\<lparr>pcMM := MMMatch ?p []\<rparr>"
  have 2: "runs ?u ?P1 ?P2" by (rule runs.pair) (simp_all add: newProcess_def)
  let ?env = "matchEnv ?u ?P2 (None, None) (Some (\<lambda>_. False)) (True, True)"
  let ?P3 = "(matched ?u ?env 5 0 ?p ?P2)\<lparr>pcMM := MMRound []\<rparr>"
  have 3: "runs ?u ?P2 ?P3" by (rule runs.onMatch) (simp_all add: newProcess_def NewManager_def)
  have "\<exists>st. NewState (maSwaps ?env) (pairRoom ?p) (Some sample_catalog) \<lparr>iID = pairA ?p, iCards = fst (matchDecks ?env sample_catalog ?p)\<rparr>
      \<lparr>iID = pairB ?p, iCards = snd (matchDecks ?env sample_catalog ?p)\<rparr> 5 = Inr st"
    by (rule pair_starts(3) [OF sample_catalog_wf sample_catalog_len]) simp_all
  then obtain st where st: "NewState (maSwaps ?env) (pairRoom ?p) (Some sample_catalog) \<lparr>iID = pairA ?p, iCards = fst (matchDecks ?env sample_catalog ?p)\<rparr>
      \<lparr>iID = pairB ?p, iCards = snd (matchDecks ?env sample_catalog ?p)\<rparr> 5 = Inr st" ..
  let ?room = "initSystem 0 (createdRoom st (pairRoom ?p) ''alice'' ''bob'' (Some (\<lambda>_. False)) True)"
  have p3: "slots ?P3 = [\<lparr>slId = pairRoom ?p, slSys = ?room, slDone = False\<rparr>]" "pcPhase ?P3 = Serving"
    using st by (simp_all add: matched_def OnMatch_def case_prod_unfold newProcess_def NewManager_def Create_def
        sample_setup_def matchEnv_def Let_def)
  have "\<not> Over st"
    using NewState_players(5) [OF st] sample_lib by (simp add: lib_ok_def matchEnv_def)
  from both_join [OF this] obtain S where
    S: "run (suEnv ?u) [Arrive (join_cmd ''alice''), TakeCmd, Arrive (join_cmd ''bob''), TakeCmd] ?room = Some S"
      "stStarted (lSess (sLoop S))" "sRunning S" by blast
  have "slSys (slots ?P3 ! 0) = ?room" "0 < length (slots ?P3)" unfolding p3 by simp_all
  from room_runs [of ?u _ ?P3 0, unfolded this(1), OF S(1) this(2)] obtain Q where Q: "(runs ?u)\<^sup>*\<^sup>* ?P3 Q"
      "slots Q = [\<lparr>slId = pairRoom ?p, slSys = S, slDone = False\<rparr>]" "pcPhase Q = Serving"
    unfolding p3 by auto
  have "(runs ?u)\<^sup>*\<^sup>* ?P0 Q" using 1 2 3 Q(1) by (meson converse_rtranclp_into_rtranclp)
  then show ?thesis using Q(2,3) S(2,3) by auto
qed

theorem shutdown_loses_no_game_witness:
  "\<exists>P rep fault. (runs sample_setup)\<^sup>*\<^sup>* (newProcess sample_queue sample_db) P \<and> pcPhase P = Returned \<and>
     rReports (lRoom (sLoop (slSys (slots P ! 0)))) = [rep] \<and> (rep, True, fault) \<in> set (pcSaves P)"
proof -
  obtain P x where P: "(runs sample_setup)\<^sup>*\<^sup>* (newProcess sample_queue sample_db) P" "slots P = [x]" "\<not> slDone x"
    "sRunning (slSys x)" "stStarted (lSess (sLoop (slSys x)))" "pcPhase P = Serving"
    using sample_started by blast
  from one_room_shutdown [OF rooms_kept [OF P(1) sample_lib] sample_lib P(2-6)] obtain Q y where
    Q: "(runs sample_setup)\<^sup>*\<^sup>* P Q" "pcPhase Q = Returned" "pcJoined Q = 1" "slots Q = [y]" "stStarted (lSess (sLoop (slSys y)))"
    by blast
  have run: "(runs sample_setup)\<^sup>*\<^sup>* (newProcess sample_queue sample_db) Q" using P(1) Q(1) by simp
  have "0 < pcJoined Q" using Q(3) by simp
  from shutdown_loses_no_game [OF sample_lib run Q(2) this] Q(4,5) obtain rep fault where
    r: "rReports (lRoom (sLoop (slSys (slots Q ! 0)))) = [rep]"
      "filter (\<lambda>z. repRoomID (fst z) = slId y) (pcSaves Q) = [(rep, True, fault)]"
    by (auto simp: Let_def)
  have "(rep, True, fault) \<in> set (filter (\<lambda>z. repRoomID (fst z) = slId y) (pcSaves Q))" unfolding r(2) by simp
  then have "(rep, True, fault) \<in> set (pcSaves Q)" by simp
  with run Q(2) r(1) show ?thesis by blast
qed

text \<open>
  C9. A shutdown ends. Once \<open>stop\<close> was called, and whatever the rooms, the matchmaker and the
  connections are doing, \<open>run\<close> can always return: it takes at most two steps for each room,
  none of which waits for a player or a timer, and three of the main goroutine.
\<close>
theorem shutdown_completes:
  assumes "lib_ok u" and "(runs u)\<^sup>*\<^sup>* (newProcess q db) P" and "pcStopped P" and "pcPhase P \<noteq> Returned"
  shows "\<exists>Q n. (runs u ^^ n) P Q \<and> n \<le> 2 * length (slots P) + 3 \<and> pcPhase Q = Returned \<and>
    pcJoined Q = length (slots P)"
  using shutdown_ends [OF assms(1) rooms_kept [OF assms(2,1)] assms(3,4)] .

theorem shutdown_completes_witness:
  "\<exists>P Q n. length (slots P) = 1 \<and> (runs sample_setup)\<^sup>*\<^sup>* (newProcess sample_queue sample_db) P \<and> pcStopped P \<and>
     (runs sample_setup ^^ n) P Q \<and> n \<le> 5 \<and> pcPhase Q = Returned"
proof -
  obtain P x where P: "(runs sample_setup)\<^sup>*\<^sup>* (newProcess sample_queue sample_db) P" "slots P = [x]" "pcPhase P = Serving"
    using sample_started by blast
  let ?P = "P\<lparr>pcStopped := True, pcServer := (pcServer P)\<lparr>svRooms := stopRooms (svRooms (pcServer P))\<rparr>\<rparr>"
  have run: "(runs sample_setup)\<^sup>*\<^sup>* (newProcess sample_queue sample_db) ?P"
    using P(1) runs.signal by (rule rtranclp.rtrancl_into_rtrancl)
  have P': "pcStopped ?P" "pcPhase ?P \<noteq> Returned" "length (slots ?P) = 1" using P(2,3) by (simp_all add: stopRooms_def)
  from shutdown_completes [OF sample_lib run P'(1,2)] obtain Q n where
    "(runs sample_setup ^^ n) ?P Q" "n \<le> 5" "pcPhase Q = Returned" unfolding P'(3) by auto
  with run P' show ?thesis by (intro exI [of _ ?P] exI [of _ Q] exI [of _ n]) blast
qed

end
