(* ===== verification/Metrics_Page.thy ===== *)
theory Metrics_Page
  imports Connections Accounts
begin

text \<open>
  The page \<open>/metrics\<close> (\<open>internal/auth/metrics.go\<close>, the counters of \<open>internal/room/metrics.go\<close>)
  and its reader in the load test (\<open>scripts/bot/loadtest.go\<close>): the text of the page, how it is
  parsed, and the growth of the counters the load test reports. Strings are ASCII here;
  a scanner's limit of 64 KB for one line is not modelled.
\<close>

section \<open>The page\<close>

text \<open>The counters of the rooms are kept for each room and added up.\<close>

definition InboxDropped :: "Manager \<Rightarrow> nat" where
  "InboxDropped m = sum_list (map (\<lambda>x. sDropped (slSys x)) (hSlots m))"

definition RoomPanics :: "Manager \<Rightarrow> nat" where
  "RoomPanics m = sum_list (map (\<lambda>x. sPanics (slSys x)) (hSlots m))"

definition newline :: char where "newline = CHR 0x0A"

definition metricLine :: "string \<Rightarrow> nat \<Rightarrow> string" where
  "metricLine name v = name @ '' '' @ show_int (int v) @ [newline]"

definition Metrics :: "'r Server \<Rightarrow> string" where
  "Metrics s =
     metricLine ''pet_rooms_active'' (RoomCount (svRooms s)) @
     metricLine ''pet_ws_conns'' (length (hbConns (svHub s))) @
     metricLine ''pet_inbox_dropped_total'' (InboxDropped (svRooms s)) @
     metricLine ''pet_room_panics_total'' (RoomPanics (svRooms s)) @
     metricLine ''pet_send_dropped_total'' (hbSendDropped (svHub s)) @
     metricLine ''pet_slow_kicked_total'' (hbSlowKicked (svHub s)) @
     metricLine ''pet_rate_limited_total'' (hbRateLimited (svHub s))"

section \<open>Its reader\<close>

text \<open>\<open>bufio.Scanner\<close>: lines without their end, a carriage return included.\<close>

definition dropCR :: "string \<Rightarrow> string" where
  "dropCR l = (if l \<noteq> [] \<and> last l = CHR 0x0D then butlast l else l)"

definition scanLines :: "string \<Rightarrow> string list" where
  "scanLines s =
     (let ls = splitOn newline s in map dropCR (if last ls = [] then butlast ls else ls))"

text \<open>\<open>strings.Fields\<close>.\<close>

function splitFields :: "string \<Rightarrow> string list" where
  "splitFields [] = []"
| "splitFields (c # s) =
     (if isSpace c then splitFields s
      else (c # takeWhile (\<lambda>x. \<not> isSpace x) s) # splitFields (dropWhile (\<lambda>x. \<not> isSpace x) s))"
  by pat_completeness auto

termination
  by (relation "measure length") (auto simp: length_dropWhile_le le_imp_less_Suc)

text \<open>\<open>strconv.ParseInt(s, 10, 64)\<close>.\<close>

definition isDigit :: "char \<Rightarrow> bool" where
  "isDigit c \<longleftrightarrow> 48 \<le> (of_char c :: nat) \<and> (of_char c :: nat) \<le> 57"

definition parseDigits :: "string \<Rightarrow> int option" where
  "parseDigits s = (if s = [] \<or> \<not> list_all isDigit s then None else Some (int (read_nat s)))"

definition ParseInt64 :: "string \<Rightarrow> int option" where
  "ParseInt64 s =
     (let neg = (s \<noteq> [] \<and> hd s = CHR ''-'');
          digits = (if s \<noteq> [] \<and> (hd s = CHR ''-'' \<or> hd s = CHR ''+'') then tl s else s)
      in case parseDigits digits of
           None \<Rightarrow> None
         | Some n \<Rightarrow>
             (let v = (if neg then - n else n) in if - (2 ^ 63) \<le> v \<and> v < 2 ^ 63 then Some v else None))"

definition parseLine :: "string \<Rightarrow> (string \<rightharpoonup> int) \<Rightarrow> (string \<rightharpoonup> int)" where
  "parseLine l out =
     (case splitFields l of
        [k, v] \<Rightarrow> (case ParseInt64 v of None \<Rightarrow> out | Some n \<Rightarrow> out(k \<mapsto> n))
      | _ \<Rightarrow> out)"

definition parseMetrics :: "string \<Rightarrow> (string \<rightharpoonup> int)" where
  "parseMetrics body = fold parseLine (scanLines body) Map.empty"

text \<open>\<open>fetchMetrics\<close> on the body of the response.\<close>

definition fetchMetrics :: "string \<Rightarrow> (string \<rightharpoonup> int)" where
  "fetchMetrics body = parseMetrics (concat (map (\<lambda>l. l @ [newline]) (scanLines body)))"

definition hasSuffix :: "string \<Rightarrow> string \<Rightarrow> bool" where
  "hasSuffix s t \<longleftrightarrow> length t \<le> length s \<and> drop (length s - length t) s = t"

text \<open>A key that is missing in the first reading counts as zero.\<close>

definition serverDelta :: "(string \<rightharpoonup> int) \<Rightarrow> (string \<rightharpoonup> int) \<Rightarrow> (string \<rightharpoonup> int)" where
  "serverDelta base final k =
     (case final k of
        None \<Rightarrow> None
      | Some v \<Rightarrow>
          if hasSuffix k ''_total'' then Some (v - (case base k of None \<Rightarrow> 0 | Some b \<Rightarrow> b)) else None)"

section \<open>Lemmas\<close>

lemma splitOn_append: "x \<notin> set w \<Longrightarrow> splitOn x (w @ x # s) = w # splitOn x s"
  by (induction w) auto

lemma splitOn_nonempty [simp]: "splitOn x s \<noteq> []"
  by (cases s) (auto split: list.split)

lemma splitOn_lines:
  "\<forall>w \<in> set ws. x \<notin> set w \<Longrightarrow> splitOn x (concat (map (\<lambda>w. w @ [x]) ws)) = ws @ [[]]"
  by (induction ws) (simp_all add: splitOn_append)

lemma scanLines_lines:
  assumes "\<forall>w \<in> set ws. newline \<notin> set w \<and> CHR 0x0D \<notin> set w"
  shows "scanLines (concat (map (\<lambda>w. w @ [newline]) ws)) = ws"
proof -
  have "dropCR w = w" if "w \<in> set ws" for w
    using assms that by (metis dropCR_def last_in_set)
  then show ?thesis
    using splitOn_lines [of ws newline] assms by (simp add: scanLines_def map_idI)
qed

lemma digit_facts:
  assumes "isDigit c"
  shows "\<not> isSpace c" "c \<noteq> CHR ''-''" "c \<noteq> CHR ''+''" "c \<noteq> newline" "c \<noteq> CHR 0x0D"
  using assms by (auto simp: isDigit_def isSpace_def newline_def)

lemma show_nat_digits: "list_all isDigit (show_nat n)"
proof (induction n rule: show_nat.induct)
  case (1 n)
  have "isDigit (digit k)" if "k < 10" for k using that by (simp add: isDigit_def)
  with 1 show ?case by (subst show_nat.simps) simp
qed

lemma ParseInt64_show: "n < 2 ^ 63 \<Longrightarrow> ParseInt64 (show_int (int n)) = Some (int n)"
proof -
  assume n: "n < 2 ^ 63"
  have "isDigit (hd (show_nat n))" using show_nat_digits [of n] by (cases "show_nat n") simp_all
  from digit_facts(2,3) [OF this] n show_nat_digits [of n] show ?thesis
    by (simp add: ParseInt64_def parseDigits_def show_int_def)
qed

lemma fields_two:
  assumes "list_all (\<lambda>c. \<not> isSpace c) k" "k \<noteq> []" "list_all (\<lambda>c. \<not> isSpace c) v" "v \<noteq> []"
  shows "splitFields (k @ '' '' @ v) = [k, v]"
proof -
  have sp: "isSpace CHR '' ''" by (simp add: isSpace_def)
  obtain a k' where k: "k = a # k'" using assms(2) by (cases k) auto
  obtain b v' where v: "v = b # v'" using assms(4) by (cases v) auto
  have w: "takeWhile (\<lambda>x. \<not> isSpace x) v' = v'" "dropWhile (\<lambda>x. \<not> isSpace x) v' = []"
    using assms(3) by (auto simp: v list_all_iff)
  have one: "splitFields v = [v]" using assms(3) by (simp add: v w)
  have t: "takeWhile (\<lambda>x. \<not> isSpace x) (k' @ CHR '' '' # v) = k'"
      "dropWhile (\<lambda>x. \<not> isSpace x) (k' @ CHR '' '' # v) = CHR '' '' # v"
    using assms(1) sp k by (auto simp: list_all_iff takeWhile_append2 dropWhile_append2)
  have "splitFields (k @ '' '' @ v) = k # splitFields (CHR '' '' # v)"
    using assms(1) t by (simp add: k)
  then show ?thesis using sp one by simp
qed

definition cleanName :: "string \<Rightarrow> bool" where
  "cleanName k \<longleftrightarrow> k \<noteq> [] \<and> list_all (\<lambda>c. \<not> isSpace c) k"

lemma cleanName_ends: "cleanName k \<Longrightarrow> newline \<notin> set k \<and> CHR 0x0D \<notin> set k"
  by (auto simp: cleanName_def list_all_iff isSpace_def newline_def)

text \<open>A page of clean names and counters that fit reads back as it is.\<close>

definition page :: "(string \<times> nat) list \<Rightarrow> string" where
  "page kvs = concat (map (\<lambda>(k, v). metricLine k v) kvs)"

lemma scanLines_page:
  assumes "\<forall>x \<in> set kvs. cleanName (fst x)"
  shows "scanLines (page kvs) = map (\<lambda>(k, v). k @ '' '' @ show_int (int v)) kvs"
proof -
  have d: "newline \<notin> set (show_nat n) \<and> CHR 0x0D \<notin> set (show_nat n)" for n
    using show_nat_digits [of n] digit_facts(4,5) by (auto simp: list_all_iff)
  have "page kvs = concat (map (\<lambda>w. w @ [newline]) (map (\<lambda>(k, v). k @ '' '' @ show_int (int v)) kvs))"
    by (simp add: page_def metricLine_def comp_def case_prod_unfold)
  also have "scanLines \<dots> = map (\<lambda>(k, v). k @ '' '' @ show_int (int v)) kvs"
    using assms d cleanName_ends by (intro scanLines_lines) (auto simp: show_int_def newline_def)
  finally show ?thesis .
qed

lemma parseMetrics_page:
  assumes "\<forall>x \<in> set kvs. cleanName (fst x) \<and> snd x < 2 ^ 63"
  shows "parseMetrics (page kvs) = fold (\<lambda>(k, v) m. m(k \<mapsto> int v)) kvs Map.empty"
    and "fetchMetrics (page kvs) = fold (\<lambda>(k, v) m. m(k \<mapsto> int v)) kvs Map.empty"
proof -
  have clean: "\<forall>x \<in> set kvs. cleanName (fst x)" using assms by simp
  have line: "parseLine (k @ '' '' @ show_int (int v)) m = m(k \<mapsto> int v)" if "(k, v) \<in> set kvs" for k v m
  proof -
    have "list_all (\<lambda>c. \<not> isSpace c) (show_nat v)"
      using show_nat_digits [of v] digit_facts(1) by (simp add: list_all_iff)
    moreover have "cleanName k" "v < 2 ^ 63" using assms that by auto
    ultimately show ?thesis
      unfolding parseLine_def using fields_two [of k "show_nat v"] ParseInt64_show [of v]
      by (simp add: cleanName_def show_int_def)
  qed
  have "fold parseLine (map (\<lambda>(k, v). k @ '' '' @ show_int (int v)) xs) m = fold (\<lambda>(k, v) m. m(k \<mapsto> int v)) xs m"
    if "set xs \<subseteq> set kvs" for xs m
    using that by (induction xs arbitrary: m) (auto simp del: append.simps simp: line)
  then show p: "parseMetrics (page kvs) = fold (\<lambda>(k, v) m. m(k \<mapsto> int v)) kvs Map.empty"
    by (simp add: parseMetrics_def scanLines_page [OF clean])
  have "concat (map (\<lambda>l. l @ [newline]) (scanLines (page kvs))) = page kvs"
    unfolding scanLines_page [OF clean] by (simp add: page_def metricLine_def comp_def case_prod_unfold)
  with p show "fetchMetrics (page kvs) = fold (\<lambda>(k, v) m. m(k \<mapsto> int v)) kvs Map.empty"
    by (simp add: fetchMetrics_def)
qed

text \<open>The rows of the page.\<close>

definition metricRows :: "'r Server \<Rightarrow> (string \<times> nat) list" where
  "metricRows s =
     [(''pet_rooms_active'', RoomCount (svRooms s)), (''pet_ws_conns'', length (hbConns (svHub s))),
      (''pet_inbox_dropped_total'', InboxDropped (svRooms s)), (''pet_room_panics_total'', RoomPanics (svRooms s)),
      (''pet_send_dropped_total'', hbSendDropped (svHub s)), (''pet_slow_kicked_total'', hbSlowKicked (svHub s)),
      (''pet_rate_limited_total'', hbRateLimited (svHub s))]"

lemma Metrics_page: "Metrics s = page (metricRows s)"
  by (simp add: Metrics_def page_def metricRows_def)

lemma metricRows_clean: "x \<in> set (metricRows s) \<Longrightarrow> cleanName (fst x)"
  by (auto simp: metricRows_def cleanName_def isSpace_def)

lemma fetch_Metrics:
  assumes "\<forall>x \<in> set (metricRows s). snd x < 2 ^ 63"
  shows "fetchMetrics (Metrics s) = map_option int \<circ> map_of (metricRows s)"
proof -
  have "fetchMetrics (Metrics s) = fold (\<lambda>(k, v) m. m(k \<mapsto> int v)) (metricRows s) Map.empty"
    unfolding Metrics_page by (rule parseMetrics_page(2)) (use assms metricRows_clean in blast)
  also have "\<dots> = map_option int \<circ> map_of (metricRows s)"
    by (simp add: metricRows_def fun_eq_iff)
  finally show ?thesis .
qed

section \<open>Properties\<close>

text \<open>
  C33. What the load test reads from the page is what the server wrote: as long as the numbers
  fit 64 bits, fetching and parsing gives exactly the seven values under their names; and
  between two readings the load test reports the growth of each of the five counters and of
  nothing else, the rooms and connections, which are no counters, left out.
\<close>
theorem metrics_roundtrip:
  assumes "\<forall>x \<in> set (metricRows s). snd x < 2 ^ 63" and "\<forall>x \<in> set (metricRows t). snd x < 2 ^ 63"
  shows "fetchMetrics (Metrics s) = map_option int \<circ> map_of (metricRows s) \<and>
    serverDelta (fetchMetrics (Metrics s)) (fetchMetrics (Metrics t)) =
      [''pet_inbox_dropped_total'' \<mapsto> int (InboxDropped (svRooms t)) - int (InboxDropped (svRooms s)),
       ''pet_room_panics_total'' \<mapsto> int (RoomPanics (svRooms t)) - int (RoomPanics (svRooms s)),
       ''pet_send_dropped_total'' \<mapsto> int (hbSendDropped (svHub t)) - int (hbSendDropped (svHub s)),
       ''pet_slow_kicked_total'' \<mapsto> int (hbSlowKicked (svHub t)) - int (hbSlowKicked (svHub s)),
       ''pet_rate_limited_total'' \<mapsto> int (hbRateLimited (svHub t)) - int (hbRateLimited (svHub s))]"
  unfolding fetch_Metrics [OF assms(1)] fetch_Metrics [OF assms(2)]
  by (simp add: fun_eq_iff serverDelta_def metricRows_def hasSuffix_def)

theorem metrics_roundtrip_witness:
  "fetchMetrics (Metrics sample_server) ''pet_ws_conns'' = Some 1 \<and>
   serverDelta (fetchMetrics (Metrics sample_server)) (fetchMetrics (Metrics sample_server)) ''pet_ws_conns'' = None"
proof -
  have s: "hbConns (svHub sample_server) = [(''alice'', 1)]" "svRooms sample_server = NewManager"
    "hbSendDropped (svHub sample_server) = 0" "hbSlowKicked (svHub sample_server) = 0"
    "hbRateLimited (svHub sample_server) = 0"
    by (simp_all add: sample_server_def openConn_def newHub_def addConn_def reply_def sendClient_def onClient_def
        newClient_def closeClient_def Let_def)
  then have "\<forall>x \<in> set (metricRows sample_server). snd x < 2 ^ 63"
    by (simp add: metricRows_def NewManager_def RoomCount_def InboxDropped_def RoomPanics_def)
  note m = metrics_roundtrip [OF this this]
  have "fetchMetrics (Metrics sample_server) ''pet_ws_conns'' = Some 1"
    unfolding conjunct1 [OF m] by (simp add: metricRows_def s)
  moreover have "serverDelta (fetchMetrics (Metrics sample_server)) (fetchMetrics (Metrics sample_server)) ''pet_ws_conns'' = None"
    unfolding conjunct2 [OF m] by simp
  ultimately show ?thesis ..
qed

end
