(* ===== verification/Batch_Check.thy ===== *)
theory Batch_Check
  imports Storage "HOL-Library.List_Lexorder" "HOL-Library.Char_ord"
begin

text \<open>
  \<open>scripts/replay/main.go\<close>: the tool that rebuilds one stored report or all of them. The
  goroutines of \<open>verifyAll\<close> are a step relation: the workers take room ids from a channel and
  hand their outcomes to the main loop, in any order. What is printed is a list of lines;
  the text of a line is left to \<open>fmt\<close>.
\<close>

section \<open>One report\<close>

datatype CheckErr = ReadErr string | NotFound | Unbuilt BuildErr

record outcome =
  ocRoom :: string
  ocKind :: string
  ocErr :: "CheckErr option"

text \<open>\<open>bytes.Contains\<close>.\<close>

definition contains :: "string \<Rightarrow> string \<Rightarrow> bool" where
  "contains s t = list_ex (\<lambda>k. take (length t) (drop k s) = t) [0..<Suc (length s)]"

definition hasChecksums :: "BattleReport \<Rightarrow> bool" where
  "hasChecksums r = contains (brActionsJSON r) [CHR 0x22, CHR ''h'', CHR 0x22, CHR '':'']"

text \<open>\<open>get\<close> is \<open>GetReport\<close> on the database, \<open>build\<close> is \<open>Build\<close> with the card table.\<close>

definition checkReport ::
  "(string \<Rightarrow> string + BattleReport option) \<Rightarrow> (BattleReport \<Rightarrow> BuildErr + Result) \<Rightarrow> string \<Rightarrow> outcome" where
  "checkReport get build i =
     (case get i of
        Inl e \<Rightarrow> \<lparr>ocRoom = i, ocKind = ''error'', ocErr = Some (ReadErr e)\<rparr>
      | Inr None \<Rightarrow> \<lparr>ocRoom = i, ocKind = ''error'', ocErr = Some NotFound\<rparr>
      | Inr (Some r) \<Rightarrow>
          (case build r of
             Inr _ \<Rightarrow> \<lparr>ocRoom = i, ocKind = (if hasChecksums r then ''ok'' else ''ok_legacy''), ocErr = None\<rparr>
           | Inl (CardsChanged a b) \<Rightarrow> \<lparr>ocRoom = i, ocKind = ''cards_changed'', ocErr = Some (Unbuilt (CardsChanged a b))\<rparr>
           | Inl (Mismatch w) \<Rightarrow> \<lparr>ocRoom = i, ocKind = ''mismatch'', ocErr = Some (Unbuilt (Mismatch w))\<rparr>
           | Inl e \<Rightarrow> \<lparr>ocRoom = i, ocKind = ''error'', ocErr = Some (Unbuilt e)\<rparr>))"

datatype OneLine = Headline BattleReport | BuildFailed BuildErr | FrameLine Frame | Passed nat bool | NoSuchRoom string

text \<open>\<open>one\<close>: the exit code and the lines; \<open>None\<close> is \<open>log.Fatal\<close>.\<close>

definition oneReport ::
  "(string \<Rightarrow> string + BattleReport option) \<Rightarrow> (BattleReport \<Rightarrow> BuildErr + Result) \<Rightarrow> string \<Rightarrow> (nat \<times> OneLine list) option" where
  "oneReport get build i =
     (case get i of
        Inr None \<Rightarrow> Some (1, [NoSuchRoom i])
      | Inl _ \<Rightarrow> None
      | Inr (Some r) \<Rightarrow>
          (case build r of
             Inl e \<Rightarrow> Some (1, [Headline r, BuildFailed e])
           | Inr res \<Rightarrow>
               Some (0, Headline r # map FrameLine (resFrames res) @ [Passed (length (resFrames res)) (hasChecksums r)])))"

text \<open>Exactly one of \<open>-room\<close> and \<open>-all\<close>; anything else is the usage and exit code 2.\<close>

definition usageError :: "string \<Rightarrow> bool \<Rightarrow> bool" where
  "usageError roomID all' \<longleftrightarrow> (roomID = []) = (\<not> all')"

section \<open>The summary of all reports\<close>

datatype Line = Total nat | Count string nat | Bad outcome | More nat

definition countKind :: "string \<Rightarrow> outcome list \<Rightarrow> nat" where
  "countKind k os = length (filter (\<lambda>x. ocKind x = k) os)"

definition badOutcomes :: "outcome list \<Rightarrow> outcome list" where
  "badOutcomes os = sort_key ocRoom (filter (\<lambda>x. ocKind x \<noteq> ''ok'' \<and> ocKind x \<noteq> ''ok_legacy'') os)"

text \<open>The loop over \<open>bad\<close> at index \<open>k\<close>; \<open>n\<close> is its length.\<close>

fun badLines :: "nat \<Rightarrow> nat \<Rightarrow> outcome list \<Rightarrow> Line list" where
  "badLines n k [] = []"
| "badLines n k (x # xs) =
     (if ocKind x = ''cards_changed'' then badLines n (Suc k) xs
      else if k \<ge> 20 then [More (n - k)]
      else Bad x # badLines n (Suc k) xs)"

definition summaryLines :: "nat \<Rightarrow> outcome list \<Rightarrow> Line list" where
  "summaryLines n os =
     [Total n, Count ''ok'' (countKind ''ok'' os), Count ''ok_legacy'' (countKind ''ok_legacy'' os),
      Count ''cards_changed'' (countKind ''cards_changed'' os), Count ''mismatch'' (countKind ''mismatch'' os),
      Count ''error'' (countKind ''error'' os)] @ badLines (length (badOutcomes os)) 0 (badOutcomes os)"

definition exitCode :: "outcome list \<Rightarrow> nat" where
  "exitCode os = (if countKind ''mismatch'' os + countKind ''error'' os > 0 then 1 else 0)"

section \<open>The workers\<close>

text \<open>
  \<open>plTodo\<close> is what the feeder has not sent yet, \<open>plBusy\<close> the id each worker holds, \<open>plOut\<close> what
  the main loop has received. Both channels are unbuffered: a send is one step of both sides.
\<close>

record Pool =
  plTodo :: "string list"
  plBusy :: "string option list"
  plOut :: "outcome list"

definition newPool :: "int \<Rightarrow> string list \<Rightarrow> Pool" where
  "newPool workers ids = \<lparr>plTodo = ids, plBusy = replicate (nat (max workers 1)) None, plOut = []\<rparr>"

inductive poolStep :: "(string \<Rightarrow> outcome) \<Rightarrow> Pool \<Rightarrow> Pool \<Rightarrow> bool" for check where
  feed: "w < length (plBusy p) \<Longrightarrow> plBusy p ! w = None \<Longrightarrow> plTodo p = i # ids \<Longrightarrow>
    poolStep check p (p\<lparr>plTodo := ids, plBusy := (plBusy p)[w := Some i]\<rparr>)"
| deliver: "w < length (plBusy p) \<Longrightarrow> plBusy p ! w = Some i \<Longrightarrow>
    poolStep check p (p\<lparr>plBusy := (plBusy p)[w := None], plOut := plOut p @ [check i]\<rparr>)"

inductive_cases poolStepE: "poolStep check p q"

text \<open>The feeder has closed \<open>jobs\<close>, every worker has returned and \<open>out\<close> is closed.\<close>

definition poolClosed :: "Pool \<Rightarrow> bool" where
  "poolClosed p \<longleftrightarrow> plTodo p = [] \<and> list_all (\<lambda>x. x = None) (plBusy p)"

section \<open>Lemmas\<close>

definition holding :: "string option list \<Rightarrow> string multiset" where
  "holding bs = mset (List.map_filter id bs)"

lemma holding_simps [simp]: "holding [] = {#}" "holding (None # bs) = holding bs"
  "holding (Some i # bs) = add_mset i (holding bs)" "holding (replicate n None) = {#}"
  by (simp_all add: holding_def map_filter_simps) (induction n; simp add: map_filter_simps)

lemma holding_feed:
  "w < length bs \<Longrightarrow> bs ! w = None \<Longrightarrow> holding (bs[w := Some i]) = add_mset i (holding bs)"
proof (induction bs arbitrary: w)
  case (Cons b bs)
  then show ?case by (cases w; cases b) auto
qed simp

lemma holding_deliver:
  "w < length bs \<Longrightarrow> bs ! w = Some i \<Longrightarrow> add_mset i (holding (bs[w := None])) = holding bs"
proof (induction bs arbitrary: w)
  case (Cons b bs)
  then show ?case by (cases w; cases b) (auto simp: add_mset_commute)
qed simp

text \<open>No id is lost or checked twice: what is waiting, held and done is always the whole list.\<close>

definition poolAll :: "(string \<Rightarrow> outcome) \<Rightarrow> Pool \<Rightarrow> outcome multiset" where
  "poolAll check p = image_mset check (mset (plTodo p) + holding (plBusy p)) + mset (plOut p)"

lemma poolStep_all: "poolStep check p q \<Longrightarrow> poolAll check q = poolAll check p \<and> length (plBusy q) = length (plBusy p)"
proof (erule poolStepE)
  fix w i
  assume "w < length (plBusy p)" "plBusy p ! w = Some i"
    and q: "q = p\<lparr>plBusy := (plBusy p)[w := None], plOut := plOut p @ [check i]\<rparr>"
  from holding_deliver [OF this(1,2)] show ?thesis
    by (simp add: q poolAll_def flip: \<open>add_mset i _ = _\<close>)
qed (simp add: poolAll_def holding_feed)

lemma poolSteps_all:
  "(poolStep check)\<^sup>*\<^sup>* p q \<Longrightarrow> poolAll check q = poolAll check p \<and> length (plBusy q) = length (plBusy p)"
  by (induction rule: rtranclp_induct) (auto dest: poolStep_all)

text \<open>Each step moves one id on.\<close>

definition poolWork :: "Pool \<Rightarrow> nat" where
  "poolWork p = 2 * length (plTodo p) + size (holding (plBusy p))"

lemma poolStep_work: "poolStep check p q \<Longrightarrow> Suc (poolWork q) = poolWork p"
proof (erule poolStepE)
  fix w i
  assume "w < length (plBusy p)" "plBusy p ! w = Some i"
    and q: "q = p\<lparr>plBusy := (plBusy p)[w := None], plOut := plOut p @ [check i]\<rparr>"
  from arg_cong [OF holding_deliver [OF this(1,2)], of size] show ?thesis by (simp add: q poolWork_def)
qed (simp add: poolWork_def holding_feed)

lemma holding_empty: "list_all (\<lambda>x. x = None) bs \<Longrightarrow> holding bs = {#}"
  by (induction bs) auto

text \<open>A pool that is not closed can take a step.\<close>

lemma pool_progress:
  assumes "0 < length (plBusy p)" "\<not> poolClosed p"
  shows "\<exists>q. poolStep check p q"
proof (cases "list_all (\<lambda>x. x = None) (plBusy p)")
  case True
  with assms obtain i ids where "plTodo p = i # ids" by (auto simp: poolClosed_def neq_Nil_conv)
  moreover have "plBusy p ! 0 = None" using True assms(1) by (auto simp: list_all_length)
  ultimately show ?thesis using poolStep.feed [OF assms(1)] by blast
next
  case False
  then obtain w i where "w < length (plBusy p)" "plBusy p ! w = Some i" by (auto simp: list_all_length)
  then show ?thesis using poolStep.deliver by blast
qed

lemma poolSteps_work: "(poolStep check ^^ k) p q \<Longrightarrow> k + poolWork q = poolWork p"
proof (induction k arbitrary: q)
  case (Suc k)
  from Suc.prems obtain r where r: "(poolStep check ^^ k) p r" "poolStep check r q" by auto
  from Suc.IH [OF r(1)] poolStep_work [OF r(2)] show ?case by simp
qed simp

text \<open>What is printed depends on the outcomes and not on their order.\<close>

lemma countKind_mset: "mset os = mset os' \<Longrightarrow> countKind k os = countKind k os'"
  unfolding countKind_def by (metis mset_filter size_mset)

lemma badOutcomes_mset:
  assumes "mset os = mset os'" "inj_on ocRoom (set os)"
  shows "badOutcomes os = badOutcomes os'"
proof -
  let ?P = "\<lambda>x. ocKind x \<noteq> ''ok'' \<and> ocKind x \<noteq> ''ok_legacy''"
  have "mset (filter ?P os) = mset (sort_key ocRoom (filter ?P os'))" using assms(1) by simp
  moreover have "inj_on ocRoom (set (filter ?P os))" using assms(2) by (rule inj_on_subset) auto
  ultimately show ?thesis unfolding badOutcomes_def by (rule sort_key_inj_key_eq) simp
qed

lemma ocRoom_check [simp]: "ocRoom (checkReport get build i) = i"
  by (simp add: checkReport_def split: sum.split option.split BuildErr.split)

lemma exitCode_0: "exitCode os = 0 \<longleftrightarrow> (\<forall>x \<in> set os. ocKind x \<noteq> ''mismatch'' \<and> ocKind x \<noteq> ''error'')"
  by (auto simp: exitCode_def countKind_def filter_empty_conv)

lemma check_kind:
  "ocKind (checkReport get build i) \<noteq> ''mismatch'' \<and> ocKind (checkReport get build i) \<noteq> ''error'' \<longleftrightarrow>
     (\<exists>r. get i = Inr (Some r) \<and> ((\<exists>res. build r = Inr res) \<or> (\<exists>a b. build r = Inl (CardsChanged a b))))"
  by (auto simp: checkReport_def split: sum.splits option.splits BuildErr.splits if_splits)

section \<open>Properties\<close>

text \<open>
  C30. However many workers there are and in whatever order they are served, the batch check
  ends: a run has at most two steps for each report and never blocks before every report
  was checked. Its summary, the listing of the bad reports included, and its exit code
  are then those of checking the reports one after the other; and the exit code is 0
  exactly when every report can be read and is either rebuilt or of another card table.
\<close>
theorem batch_any_schedule:
  assumes "distinct ids" and "(poolStep (checkReport get build) ^^ k) (newPool workers ids) p"
  defines "os \<equiv> map (checkReport get build) ids"
  shows "k \<le> 2 * length ids \<and> (poolClosed p \<or> (\<exists>q. poolStep (checkReport get build) p q)) \<and>
    (poolClosed p \<longrightarrow>
       summaryLines (length ids) (plOut p) = summaryLines (length ids) os \<and> exitCode (plOut p) = exitCode os) \<and>
    (exitCode os = 0 \<longleftrightarrow>
       (\<forall>i \<in> set ids. \<exists>r. get i = Inr (Some r) \<and>
          ((\<exists>res. build r = Inr res) \<or> (\<exists>a b. build r = Inl (CardsChanged a b)))))"
proof -
  let ?check = "checkReport get build"
  have "(poolStep ?check)\<^sup>*\<^sup>* (newPool workers ids) p" using assms(2) by (rule relpowp_imp_rtranclp)
  from poolSteps_all [OF this] have all: "poolAll ?check p = mset os" "0 < length (plBusy p)"
    by (simp_all add: poolAll_def newPool_def os_def)
  have "k \<le> 2 * length ids" using poolSteps_work [OF assms(2)] by (simp add: poolWork_def newPool_def)
  moreover have "poolClosed p \<or> (\<exists>q. poolStep ?check p q)" using pool_progress [OF all(2)] by blast
  moreover have "summaryLines (length ids) (plOut p) = summaryLines (length ids) os \<and> exitCode (plOut p) = exitCode os"
    if "poolClosed p"
  proof -
    have same: "mset (plOut p) = mset os" using all(1) that holding_empty by (simp add: poolAll_def poolClosed_def)
    then have "set (plOut p) = ?check ` set ids" by (metis mset_eq_setD os_def set_map)
    then have "inj_on ocRoom (set (plOut p))" by (auto simp: inj_on_def)
    from badOutcomes_mset [OF same this] countKind_mset [OF same] show ?thesis
      by (simp add: summaryLines_def exitCode_def)
  qed
  moreover have "exitCode os = 0 \<longleftrightarrow>
      (\<forall>i \<in> set ids. \<exists>r. get i = Inr (Some r) \<and>
         ((\<exists>res. build r = Inr res) \<or> (\<exists>a b. build r = Inl (CardsChanged a b))))"
    by (simp add: exitCode_0 os_def check_kind)
  ultimately show ?thesis by blast
qed

text \<open>Two workers, two reports; the second one is delivered first.\<close>

definition sample_get :: "string \<Rightarrow> string + BattleReport option" where
  "sample_get i = Inr (if i = ''r2'' then None else Some tampered_row)"

definition sample_build :: "BattleReport \<Rightarrow> BuildErr + Result" where
  "sample_build r = Inl (CardsChanged [] [])"

lemma sample_pool_run:
  "(poolStep (checkReport sample_get sample_build) ^^ 4) (newPool 2 [''r1'', ''r2''])
     \<lparr>plTodo = [], plBusy = [None, None],
      plOut = [checkReport sample_get sample_build ''r2'', checkReport sample_get sample_build ''r1'']\<rparr>"
proof -
  let ?c = "checkReport sample_get sample_build"
  have "poolStep ?c (newPool 2 [''r1'', ''r2'']) \<lparr>plTodo = [''r2''], plBusy = [Some ''r1'', None], plOut = []\<rparr>"
    using poolStep.feed [of 0 "newPool 2 [''r1'', ''r2'']" "''r1''" "[''r2'']" ?c]
    by (simp add: newPool_def numeral_2_eq_2)
  moreover have "poolStep ?c \<lparr>plTodo = [''r2''], plBusy = [Some ''r1'', None], plOut = []\<rparr>
      \<lparr>plTodo = [], plBusy = [Some ''r1'', Some ''r2''], plOut = []\<rparr>"
    using poolStep.feed [of 1 "\<lparr>plTodo = [''r2''], plBusy = [Some ''r1'', None], plOut = []\<rparr>" "''r2''" "[]" ?c] by simp
  moreover have "poolStep ?c \<lparr>plTodo = [], plBusy = [Some ''r1'', Some ''r2''], plOut = []\<rparr>
      \<lparr>plTodo = [], plBusy = [Some ''r1'', None], plOut = [?c ''r2'']\<rparr>"
    using poolStep.deliver [of 1 "\<lparr>plTodo = [], plBusy = [Some ''r1'', Some ''r2''], plOut = []\<rparr>" "''r2''" ?c] by simp
  moreover have "poolStep ?c \<lparr>plTodo = [], plBusy = [Some ''r1'', None], plOut = [?c ''r2'']\<rparr>
      \<lparr>plTodo = [], plBusy = [None, None], plOut = [?c ''r2'', ?c ''r1'']\<rparr>"
    using poolStep.deliver [of 0 "\<lparr>plTodo = [], plBusy = [Some ''r1'', None], plOut = [?c ''r2'']\<rparr>" "''r1''" ?c] by simp
  ultimately show ?thesis by (auto simp: numeral_eq_Suc)
qed

theorem batch_any_schedule_witness:
  "exitCode [checkReport sample_get sample_build ''r2'', checkReport sample_get sample_build ''r1''] =
   exitCode (map (checkReport sample_get sample_build) [''r1'', ''r2''])"
proof -
  have "distinct [''r1'', ''r2'']" by simp
  from batch_any_schedule [OF this sample_pool_run] show ?thesis by (simp add: poolClosed_def)
qed

text \<open>
  The limit of twenty counts the rows that are skipped: behind twenty reports of another card
  table a report that does not rebuild is only counted, and the number of the rest is that
  of all bad reports.
\<close>

lemma hidden_mismatch:
  assumes "ocKind c = ''cards_changed''" "ocKind m = ''mismatch''"
  shows "badLines 21 0 (replicate 20 c @ [m]) = [More 1]"
proof -
  have "badLines n k (replicate j c @ xs) = badLines n (k + j) xs" for n k j xs
    using assms(1) by (induction j arbitrary: k) simp_all
  then show ?thesis using assms(2) by simp
qed

end
