(* ===== verification/Replay_Tool.thy ===== *)
theory Replay_Tool
  imports Batch_Check Replay_Props
begin

text \<open>
  \<open>scripts/replay/main.go\<close>, \<open>main\<close> and \<open>frameLine\<close>: one run of the replay tool from its flags to
  its exit code, over the two modes of \<open>Batch_Check\<close>, and what it prints of a frame. The widths
  and units of the printed columns are left to \<open>fmt\<close>.
\<close>

section \<open>The row of a frame\<close>

datatype Act = Opening | Plays string | Attacks string string | TimesOut | EndsTurn

definition frameAct :: "Frame \<Rightarrow> Act" where
  "frameAct f =
     (case fAction f of
        None \<Rightarrow> Opening
      | Some a \<Rightarrow>
          if aType a = ''play_card'' then Plays (aCardID a)
          else if aType a = ''attack'' then Attacks (aInstID a) (aTarget a)
          else if fAuto f then TimesOut
          else EndsTurn)"

record Side =
  sdID :: string
  sdHP :: int
  sdMana :: int
  sdMaxMana :: int
  sdHand :: nat
  sdDeck :: nat
  sdBoard :: "(string \<times> int \<times> int) list"

text \<open>\<open>len(p.Hand)\<close> is 0 for a hand that is not shown.\<close>

definition sideOf :: "PlayerView \<Rightarrow> Side" where
  "sideOf p =
     \<lparr>sdID = vID p, sdHP = vHP p, sdMana = vMana p, sdMaxMana = vMaxMana p,
      sdHand = (case vHand p of None \<Rightarrow> 0 | Some h \<Rightarrow> length h), sdDeck = vDeckCount p,
      sdBoard = map (\<lambda>m. (mCardID m, mAtk m, mHP m)) (vBoard p)\<rparr>"

record FrameRow =
  rwIndex :: int
  rwAtMs :: int
  rwPlayer :: "string option"
  rwAct :: Act
  rwSides :: "Side \<times> Side"

definition frameLine :: "Frame \<Rightarrow> FrameRow" where
  "frameLine f =
     \<lparr>rwIndex = fIndex f, rwAtMs = fAtMs f,
      rwPlayer = (if fPlayer f \<noteq> [] then Some (fPlayer f) else None), rwAct = frameAct f,
      rwSides = (sideOf (gPlayers (fState f) ! 0), sideOf (gPlayers (fState f) ! 1))\<rparr>"

section \<open>A run of the tool\<close>

text \<open>
  What a run reads: the card file, which is read by \<open>Load\<close> and once more for its hash, the
  driver, the rows; \<open>teOut\<close> are the outcomes in the order the workers deliver them.
\<close>

record ToolEnv =
  teReadFile :: "string \<Rightarrow> string + string"
  teUnmarshal :: "string \<Rightarrow> string + Card list"
  teAgain :: "string \<Rightarrow> string + string"
  teSum256 :: "string \<Rightarrow> string"
  teOpen :: "string \<Rightarrow> string option"
  teGet :: "string \<Rightarrow> string + BattleReport option"
  teIDs :: "string + string list"
  teBuild :: "Catalog \<Rightarrow> string \<Rightarrow> BattleReport \<Rightarrow> BuildErr + Result"
  teOut :: "(string \<Rightarrow> outcome) \<Rightarrow> string list \<Rightarrow> outcome list"

record ToolFlags =
  tfDsn :: string
  tfCards :: string
  tfRoom :: string
  tfAll :: bool

datatype Fatal = NoTable LoadErr | NoRaw string | NoDriver string | NoReport | NoIDs string

datatype Printed = Usage | Died Fatal | OneText "OneLine list" | AllText "Line list"

definition verifyAll :: "ToolEnv \<Rightarrow> (string \<Rightarrow> outcome) \<Rightarrow> nat \<times> Printed" where
  "verifyAll x chk =
     (case teIDs x of
        Inl e \<Rightarrow> (1, Died (NoIDs e))
      | Inr ids \<Rightarrow> let os = teOut x chk ids in (exitCode os, AllText (summaryLines (length ids) os)))"

text \<open>The exit code and what is printed; \<open>log.Fatal\<close> is exit code 1.\<close>

definition replayTool :: "ToolEnv \<Rightarrow> ToolFlags \<Rightarrow> nat \<times> Printed" where
  "replayTool x fl =
     (if usageError (tfRoom fl) (tfAll fl) then (2, Usage)
      else
        (case Load (teReadFile x) (teUnmarshal x) (tfCards fl) of
           Inl e \<Rightarrow> (1, Died (NoTable e))
         | Inr c \<Rightarrow>
             (case teAgain x (tfCards fl) of
                Inl e \<Rightarrow> (1, Died (NoRaw e))
              | Inr raw \<Rightarrow>
                  (case teOpen x (tfDsn fl) of
                     Some e \<Rightarrow> (1, Died (NoDriver e))
                   | None \<Rightarrow>
                       let build = teBuild x c (teSum256 x raw) in
                       if tfRoom fl \<noteq> [] then
                         (case oneReport (teGet x) build (tfRoom fl) of
                            None \<Rightarrow> (1, Died NoReport)
                          | Some (code, ls) \<Rightarrow> (code, OneText ls))
                       else verifyAll x (checkReport (teGet x) build)))))"

section \<open>Lemmas\<close>

text \<open>The state after a frame is shown in full: hands and decks are counted as they are.\<close>

lemma frameLine_state:
  assumes "fState f = godView s"
  shows "rwSides (frameLine f) = (sideOf (toView (player s 0) True), sideOf (toView (player s 1) True))"
    and "sdHand (sideOf (toView p True)) = length (pHand p)" "sdDeck (sideOf (toView p True)) = length (pDeck p)"
  using assms by (simp_all add: frameLine_def godView_def sideOf_def toView_def)

lemma frameAct_simps [simp]: "frameAct (startFrame s) = Opening" "frameAct (stepFrame lg steps k u) \<noteq> Opening"
  by (simp_all add: frameAct_def startFrame_def stepFrame_def)

text \<open>Only the first row of a rebuilt report is an opening, and its rows are numbered from 0.\<close>

lemma frames_rows:
  assumes "k < length (frames lg steps s)"
  shows "rwIndex (frameLine (frames lg steps s ! k)) = int k"
    and "rwAct (frameLine (frames lg steps s ! k)) = Opening \<longleftrightarrow> k = 0"
  using assms by (cases k; simp add: frameLine_def frames_def; simp add: startFrame_def stepFrame_def)+

lemma built_rows:
  assumes "Build env J sw oc h r = Inr res" and "k < length (resFrames res)"
  shows "rwIndex (frameLine (resFrames res ! k)) = int k"
    and "rwAct (frameLine (resFrames res ! k)) = Opening \<longleftrightarrow> k = 0"
proof -
  from Build_Inr [OF assms(1)] obtain lg steps s0 t
    where "brCardsHash r = h" "decodes env J sw oc r lg steps s0" "plays Apply s0 steps t" by blast
  from Build_played [OF this] assms(1)
  have "resFrames res = frames lg steps s0"
    by (auto simp: resultOf_def split: option.splits)
  with assms(2) show "rwIndex (frameLine (resFrames res ! k)) = int k"
    and "rwAct (frameLine (resFrames res ! k)) = Opening \<longleftrightarrow> k = 0" using frames_rows by simp_all
qed

text \<open>The two modes agree: \<open>-room\<close> exits with 0 on a report exactly when \<open>-all\<close> counts it as passed.\<close>

lemma one_passes:
  "(\<exists>ls. oneReport get build i = Some (0, ls)) \<longleftrightarrow> ocErr (checkReport get build i) = None"
  "ocErr (checkReport get build i) = None \<longleftrightarrow> ocKind (checkReport get build i) \<in> {''ok'', ''ok_legacy''}"
  by (auto simp: oneReport_def checkReport_def split: sum.splits option.splits BuildErr.splits)

lemma tool_usage: "fst (replayTool x fl) = 2 \<longleftrightarrow> (tfRoom fl = []) = (\<not> tfAll fl)"
  by (auto simp: replayTool_def usageError_def verifyAll_def oneReport_def exitCode_def Let_def
      split: sum.split option.split)

text \<open>
  The difference between the modes: a report made with another card table fails a run for its
  room and passes a run over all.
\<close>

lemma modes_differ:
  assumes "get i = Inr (Some r)" "build r = Inl (CardsChanged a b)"
  shows "oneReport get build i = Some (1, [Headline r, BuildFailed (CardsChanged a b)])"
    and "exitCode [checkReport get build i] = 0"
  using assms by (simp_all add: oneReport_def checkReport_def exitCode_def countKind_def)

text \<open>A run over all, whatever the schedule of its workers.\<close>

lemma tool_all:
  assumes "teIDs x = Inr ids" and "mset (teOut x (checkReport get build) ids) = mset (map (checkReport get build) ids)"
  shows "fst (verifyAll x (checkReport get build)) = 0 \<longleftrightarrow>
    (\<forall>i \<in> set ids. \<exists>r. get i = Inr (Some r) \<and>
       ((\<exists>res. build r = Inr res) \<or> (\<exists>a b. build r = Inl (CardsChanged a b))))"
proof -
  have "exitCode (teOut x (checkReport get build) ids) = exitCode (map (checkReport get build) ids)"
    using countKind_mset [OF assms(2)] by (simp add: exitCode_def)
  with assms(1) show ?thesis by (simp add: verifyAll_def Let_def exitCode_0 check_kind)
qed

end
