(* ===== verification/Wire.thy ===== *)
theory Wire
  imports Connections Accounts
begin

text \<open>
  The socket side of a connection in \<open>internal/auth/ws.go\<close>: who is let in (the first half of
  \<open>ServerWs\<close>) and what \<open>writeLoop\<close> puts on the wire. A write that fails ends the loop, as the
  code does; the socket itself is a list of frames. \<open>wiAccepted\<close> stands for the messages
  \<open>Send\<close> has answered with true.
\<close>

definition pongWait :: int where "pongWait = 60 * second"
definition pingPeriod :: int where "pingPeriod = pongWait * 9 div 10"

lemma ping_before_pong: "0 < pingPeriod \<and> pingPeriod < pongWait"
  by (simp add: pingPeriod_def pongWait_def second_def)

section \<open>Admission\<close>

text \<open>
  \<open>ServerWs\<close> up to the upgrade: the answer is a status with its text or the user. The status of
  a failed upgrade is chosen by the websocket library, here \<open>upgrade\<close>.
\<close>

definition admitWs ::
  "(string \<Rightarrow> string option) \<Rightarrow> string list \<Rightarrow> 's looker \<Rightarrow> (nat \<times> string) option \<Rightarrow> int \<Rightarrow> string \<Rightarrow> string \<Rightarrow> string \<Rightarrow>
     's \<Rightarrow> 's \<times> (nat \<times> string + string)" where
  "admitWs hostOf allowed look upgrade now host origin token s =
     (if \<not> checkOrigin hostOf allowed host origin then (s, Inl (403, ''origin not allowed''))
      else
        (case look now token s of
           (s', Inl e) \<Rightarrow> (s', Inl (tokenErr e))
         | (s', Inr username) \<Rightarrow>
             (case upgrade of Some err \<Rightarrow> (s', Inl err) | None \<Rightarrow> (s', Inr username))))"

section \<open>The writer\<close>

datatype WireFrame = TextFrame Outgoing | PingFrame | CloseFrame

record Wire =
  wiHub :: Hub
  wiFrames :: "WireFrame list"
  wiDone :: bool
  wiAccepted :: "Outgoing list"

definition wireClient :: "nat \<Rightarrow> Wire \<Rightarrow> WsClient" where
  "wireClient p W = hbClients (wiHub W) ! p"

text \<open>The message at the front of the buffer leaves it, onto the wire if the write succeeds.\<close>

definition writeNext :: "nat \<Rightarrow> bool \<Rightarrow> Wire \<Rightarrow> Wire" where
  "writeNext p ok W =
     (case wcSend (wireClient p W) of
        [] \<Rightarrow> W
      | m # ms \<Rightarrow>
          W\<lparr>wiHub := onClient p (\<lambda>c. c\<lparr>wcSend := ms\<rparr>) (wiHub W),
            wiFrames := (if ok then wiFrames W @ [TextFrame m] else wiFrames W), wiDone := \<not> ok\<rparr>)"

definition writePing :: "bool \<Rightarrow> Wire \<Rightarrow> Wire" where
  "writePing ok W = W\<lparr>wiFrames := (if ok then wiFrames W @ [PingFrame] else wiFrames W), wiDone := \<not> ok\<rparr>"

text \<open>The error of the last write is ignored: the frame may be missing.\<close>

definition writeClose :: "bool \<Rightarrow> Wire \<Rightarrow> Wire" where
  "writeClose ok W = W\<lparr>wiFrames := (if ok then wiFrames W @ [CloseFrame] else wiFrames W), wiDone := True\<rparr>"

definition acceptSend :: "nat \<Rightarrow> bool \<Rightarrow> Outgoing \<Rightarrow> Wire \<Rightarrow> Wire" where
  "acceptSend p pick b W =
     (case sendClient pick p b (wiHub W) of
        (h, ok) \<Rightarrow> W\<lparr>wiHub := h, wiAccepted := (if ok then wiAccepted W @ [b] else wiAccepted W)\<rparr>)"

text \<open>
  Client \<open>p\<close> from its creation: messages are sent to it, its writer takes a ready case of the
  select, and the hub changes in ways that leave its buffer alone (it may be told to quit).
\<close>

inductive wired :: "nat \<Rightarrow> Wire \<Rightarrow> bool" for p where
  new: "p < length (hbClients h) \<Longrightarrow> hbClients h ! p = newClient \<Longrightarrow>
    wired p \<lparr>wiHub = h, wiFrames = [], wiDone = False, wiAccepted = []\<rparr>"
| send: "wired p W \<Longrightarrow> wired p (acceptSend p pick b W)"
| elsewhere: "wired p W \<Longrightarrow> p < length (hbClients h) \<Longrightarrow> wcSend (hbClients h ! p) = wcSend (wireClient p W) \<Longrightarrow>
    (wcQuit (wireClient p W) \<longrightarrow> wcQuit (hbClients h ! p)) \<Longrightarrow> wired p (W\<lparr>wiHub := h\<rparr>)"
| writes: "wired p W \<Longrightarrow> \<not> wiDone W \<Longrightarrow> wcSend (wireClient p W) \<noteq> [] \<Longrightarrow> wired p (writeNext p ok W)"
| ping: "wired p W \<Longrightarrow> \<not> wiDone W \<Longrightarrow> wired p (writePing ok W)"
| closes: "wired p W \<Longrightarrow> \<not> wiDone W \<Longrightarrow> wcQuit (wireClient p W) \<Longrightarrow> wired p (writeClose ok W)"

text \<open>The messages among the frames.\<close>

fun texts :: "WireFrame list \<Rightarrow> Outgoing list" where
  "texts [] = []"
| "texts (TextFrame m # fs) = m # texts fs"
| "texts (PingFrame # fs) = texts fs"
| "texts (CloseFrame # fs) = texts fs"

lemma texts_append [simp]: "texts (fs @ gs) = texts fs @ texts gs"
  by (induction fs rule: texts.induct) simp_all

section \<open>The buffer\<close>

lemma sendClient_buffer:
  assumes "p < length (hbClients h)" and "sendClient pick p b h = (h', ok)"
  shows "p < length (hbClients h')"
    and "wcSend (hbClients h' ! p) = wcSend (hbClients h ! p) @ (if ok then [b] else [])"
    and "ok \<Longrightarrow> length (wcSend (hbClients h ! p)) < 256"
    and "wcQuit (hbClients h ! p) \<Longrightarrow> wcQuit (hbClients h' ! p)"
  using assms by (auto simp: sendClient_def onClient_def closeClient_def Let_def split: if_splits)

text \<open>
  At most one message is neither on the wire nor in the buffer, and only when its write failed.
\<close>

definition wire_ok :: "nat \<Rightarrow> Wire \<Rightarrow> bool" where
  "wire_ok p W \<longleftrightarrow>
     p < length (hbClients (wiHub W)) \<and> length (wcSend (wireClient p W)) \<le> 256 \<and>
     (\<exists>lost. wiAccepted W = texts (wiFrames W) @ lost @ wcSend (wireClient p W) \<and>
        length lost \<le> (if wiDone W then 1 else 0)) \<and>
     CloseFrame \<notin> set (butlast (wiFrames W)) \<and>
     (CloseFrame \<in> set (wiFrames W) \<longrightarrow> wiDone W \<and> wcQuit (wireClient p W))"

lemma wire_send: "wire_ok p W \<Longrightarrow> wire_ok p (acceptSend p pick b W)"
proof -
  assume W: "wire_ok p W"
  obtain h ok where s: "sendClient pick p b (wiHub W) = (h, ok)" by (cases "sendClient pick p b (wiHub W)")
  have "p < length (hbClients (wiHub W))" using W by (simp add: wire_ok_def)
  note b = sendClient_buffer [OF this s]
  have "length (wcSend (hbClients h ! p)) \<le> 256" using W b(2,3) by (auto simp: wire_ok_def wireClient_def)
  with W b show ?thesis by (auto simp: wire_ok_def acceptSend_def s wireClient_def)
qed

lemma wire_write:
  assumes "wire_ok p W" "\<not> wiDone W" "wcSend (wireClient p W) \<noteq> []"
  shows "wire_ok p (writeNext p ok W)"
proof -
  obtain m ms where m: "wcSend (hbClients (wiHub W) ! p) = m # ms"
    using assms(3) by (cases "wcSend (wireClient p W)") (simp_all add: wireClient_def)
  have "\<exists>lost. texts (wiFrames W) @ m # ms = (texts (wiFrames W) @ (if ok then [m] else [])) @ lost @ ms \<and>
      length lost \<le> (if ok then 0 else 1)"
    by (cases ok) (auto intro: exI [of _ "[m]"])
  with assms m show ?thesis by (auto simp: wire_ok_def writeNext_def wireClient_def onClient_def)
qed

lemma wired_ok: "wired p W \<Longrightarrow> wire_ok p W"
proof (induction rule: wired.induct)
  case (new h)
  then show ?case by (simp add: wire_ok_def wireClient_def newClient_def)
next
  case (elsewhere W h)
  then show ?case by (auto simp: wire_ok_def wireClient_def)
next
  case (ping W ok)
  then show ?case by (auto simp: wire_ok_def writePing_def wireClient_def)
next
  case (closes W ok)
  then show ?case by (auto simp: wire_ok_def writeClose_def wireClient_def dest: in_set_butlastD)
qed (simp_all add: wire_send wire_write)

section \<open>Properties\<close>

text \<open>
  C24. A connection delivers what it accepted in the order it accepted it: the messages on the
  wire, at most one whose write failed, and those waiting in the buffer are together exactly
  the messages for which \<open>Send\<close> answered true, none twice and none out of order. At most
  256 wait, a message is refused only if 256 do or the connection was told to quit, and the
  close frame is the last thing written, after which the writer is done.
\<close>
theorem messages_in_order:
  assumes "wired p W"
  shows "(\<exists>lost. wiAccepted W = texts (wiFrames W) @ lost @ wcSend (wireClient p W) \<and>
        length lost \<le> (if wiDone W then 1 else 0)) \<and>
    length (wcSend (wireClient p W)) \<le> 256 \<and>
    (\<not> snd (sendClient pick p b (wiHub W)) \<longrightarrow>
       length (wcSend (wireClient p W)) = 256 \<or> wcQuit (wireClient p W)) \<and>
    (CloseFrame \<in> set (wiFrames W) \<longrightarrow> last (wiFrames W) = CloseFrame \<and> wiDone W \<and> wcQuit (wireClient p W))"
proof -
  note ok = wired_ok [OF assms]
  have "last (wiFrames W) = CloseFrame" if "CloseFrame \<in> set (wiFrames W)"
    using that ok by (cases "wiFrames W" rule: rev_cases) (auto simp: wire_ok_def)
  moreover have "length (wcSend (wireClient p W)) = 256 \<or> wcQuit (wireClient p W)"
    if "\<not> snd (sendClient pick p b (wiHub W))"
    using that ok by (auto simp: sendClient_def wire_ok_def wireClient_def Let_def split: if_splits)
  ultimately show ?thesis using ok by (auto simp: wire_ok_def)
qed

text \<open>Two messages are sent, the first one is written.\<close>

definition sample_wire :: Wire where
  "sample_wire = writeNext 0 True (acceptSend 0 True StartFailed (acceptSend 0 True (MatchFound ''r1'')
     \<lparr>wiHub = newHub\<lparr>hbClients := [newClient]\<rparr>, wiFrames = [], wiDone = False, wiAccepted = []\<rparr>))"

lemma sample_wired: "wired 0 sample_wire"
  unfolding sample_wire_def
  by (intro wired.writes wired.send wired.new)
    (simp_all add: acceptSend_def sendClient_def onClient_def newClient_def newHub_def wireClient_def Let_def)

theorem messages_in_order_witness:
  "wiAccepted sample_wire = [MatchFound ''r1'', StartFailed] \<and> length (wcSend (wireClient 0 sample_wire)) \<le> 256 \<and>
   texts (wiFrames sample_wire) = [MatchFound ''r1'']"
proof -
  have "wiAccepted sample_wire = [MatchFound ''r1'', StartFailed]" "texts (wiFrames sample_wire) = [MatchFound ''r1'']"
    by (simp_all add: sample_wire_def writeNext_def acceptSend_def sendClient_def onClient_def newClient_def newHub_def
        wireClient_def Let_def)
  with messages_in_order [OF sample_wired] show ?thesis by simp
qed

end
