(* ===== verification/Bot_Client.thy ===== *)
theory Bot_Client
  imports Strategy Room_Model Connections Battle_Actions
begin

text \<open>
  \<open>scripts/bot/client.go\<close>: a bot that plays one game over its connection, message by message.
  The reads, the results of the writes, the clock and the random draws are arguments; the hooks
  of the load test are lists of the durations they are called with.
\<close>

section \<open>Messages\<close>

record inbound =
  iType :: string
  iPayload :: string
  iRoomID :: string
  iCode :: string
  iMsg :: string
  iWinner :: string
  iView :: View

datatype Outbound = SendJoin string | SendAction string Action

text \<open>
  What the bot decodes of a message: the fields by the names of their JSON tags, the others
  zero. An empty hand is omitted and arrives as nil; the field \<open>Winner\<close> hides that of the embedded
  view, which stays empty. \<open>say\<close> prints the message of an error.
\<close>

definition noView :: View where
  "noView = (let p = \<lparr>vID = [], vHP = 0, vMana = 0, vMaxMana = 0, vFatigue = 0, vBoard = [], vHand = None,
      vHandCount = 0, vDeckCount = 0\<rparr>
    in \<lparr>vSeq = 0, vMe = p, vOpp = p, vYourTurn = False, vRound = 0, vOver = False, vWinner = []\<rparr>)"

definition noMessage :: inbound where
  "noMessage = \<lparr>iType = [], iPayload = [], iRoomID = [], iCode = [], iMsg = [], iWinner = [], iView = noView\<rparr>"

definition wireView :: "View \<Rightarrow> View" where
  "wireView v =
     v\<lparr>vMe := (vMe v)\<lparr>vHand := (case vHand (vMe v) of Some (c # cs) \<Rightarrow> Some (c # cs) | _ \<Rightarrow> None)\<rparr>, vWinner := []\<rparr>"

fun decodeRoomMsg :: "(ErrText \<Rightarrow> string) \<Rightarrow> Payload \<Rightarrow> inbound" where
  "decodeRoomMsg say (PState s room) = noMessage\<lparr>iType := ''state'', iRoomID := room\<rparr>"
| "decodeRoomMsg say (PView v) = noMessage\<lparr>iType := ''game_state'', iView := wireView v, iWinner := vWinner v\<rparr>"
| "decodeRoomMsg say (PError code t) = noMessage\<lparr>iType := ''error'', iCode := code, iMsg := say t\<rparr>"
| "decodeRoomMsg say (PGameOver w) = noMessage\<lparr>iType := ''game_over'', iWinner := w\<rparr>"
| "decodeRoomMsg say (PCrashed room) = noMessage\<lparr>iType := ''error'', iPayload := ''room_crashed'', iRoomID := room\<rparr>"

fun decodeMsg :: "(ErrText \<Rightarrow> string) \<Rightarrow> Outgoing \<Rightarrow> inbound" where
  "decodeMsg say (Reply m) = noMessage\<lparr>iType := wmType m, iPayload := wmPayload m\<rparr>"
| "decodeMsg say (RoomMsg p) = decodeRoomMsg say p"
| "decodeMsg say (MatchFound room) = noMessage\<lparr>iType := ''match_found'', iRoomID := room\<rparr>"
| "decodeMsg say StartFailed = noMessage\<lparr>iType := ''error'', iCode := ''start_failed''\<rparr>"

section \<open>The state of one game\<close>

record botResult =
  orRoomID :: string
  orWinner :: string
  orActions :: nat
  orIllegal :: nat
  orLimited :: nat

record Bot =
  btRes :: botResult
  btLast :: Action
  btLastSeq :: "64 word"
  btSentAt :: "int option"
  btOut :: "Outbound list"
  btWaits :: "int list"
  btRTT :: "int list"

definition noAction :: Action where
  "noAction = \<lparr>aType = [], aCardID = [], aInstID = [], aTarget = []\<rparr>"

definition newBot :: Bot where
  "newBot = \<lparr>btRes = \<lparr>orRoomID = [], orWinner = [], orActions = 0, orIllegal = 0, orLimited = 0\<rparr>, btLast = noAction,
     btLastSeq = 0, btSentAt = None, btOut = [], btWaits = [], btRTT = []\<rparr>"

datatype BotEnd = Waiting | GameDone | WriteFailed | ReadFailed | ServerError string

text \<open>
  One read: the catalog, the draw of \<open>rng.Intn\<close>, when the game was enqueued, the time of the
  read and the time after the delay, and whether the write succeeds.
\<close>

record BotIn =
  biCat :: Catalog
  biIntn :: "nat \<Rightarrow> nat"
  biEnqueued :: int
  biNow :: int
  biLater :: int
  biWrites :: bool

text \<open>\<open>client.send\<close> and \<open>client.sendAction\<close>.\<close>

definition botSend :: "BotIn \<Rightarrow> Outbound \<Rightarrow> Bot \<Rightarrow> Bot \<times> BotEnd" where
  "botSend x m b = (if biWrites x then (b\<lparr>btOut := btOut b @ [m]\<rparr>, Waiting) else (b, WriteFailed))"

definition sendAction :: "BotIn \<Rightarrow> Action \<Rightarrow> Bot \<Rightarrow> Bot \<times> BotEnd" where
  "sendAction x a b = botSend x (SendAction (orRoomID (btRes b)) a) b"

definition onState :: "BotIn \<Rightarrow> View \<Rightarrow> Bot \<Rightarrow> Bot \<times> BotEnd" where
  "onState x v b =
     (let b1 = (case btSentAt b of
                  None \<Rightarrow> b
                | Some t \<Rightarrow>
                    if vSeq v > btLastSeq b then b\<lparr>btRTT := btRTT b @ [biNow x - t], btSentAt := None\<rparr> else b)
      in if vSeq v \<le> btLastSeq b \<or> vOver v \<or> \<not> vYourTurn v
         then (b1\<lparr>btLastSeq := max (btLastSeq b1) (vSeq v)\<rparr>, Waiting)
         else
           (let a = chooseAction v (biCat x) (biIntn x);
                res = btRes b1
            in sendAction x a (b1\<lparr>btLastSeq := vSeq v, btLast := a, btRes := res\<lparr>orActions := orActions res + 1\<rparr>,
                                 btSentAt := Some (biLater x)\<rparr>)))"

definition onError :: "BotIn \<Rightarrow> inbound \<Rightarrow> Bot \<Rightarrow> Bot \<times> BotEnd" where
  "onError x m b =
     (let res = btRes b in
      if iPayload m = ''rate_limited'' then
        sendAction x (btLast b) (b\<lparr>btRes := res\<lparr>orLimited := orLimited res + 1\<rparr>, btSentAt := Some (biLater x)\<rparr>)
      else if iCode m \<noteq> [] then
        sendAction x endTurnAction
          (b\<lparr>btRes := res\<lparr>orIllegal := orIllegal res + 1\<rparr>, btLast := endTurnAction, btSentAt := Some (biLater x)\<rparr>)
      else (b, ServerError (iPayload m)))"

definition onInbound :: "BotIn \<Rightarrow> inbound \<Rightarrow> Bot \<Rightarrow> Bot \<times> BotEnd" where
  "onInbound x m b =
     (if iType m = ''match_found'' then
        botSend x (SendJoin (iRoomID m))
          (b\<lparr>btRes := (btRes b)\<lparr>orRoomID := iRoomID m\<rparr>, btWaits := btWaits b @ [biNow x - biEnqueued x]\<rparr>)
      else if iType m = ''game_state'' then onState x (iView m) b
      else if iType m = ''error'' then onError x m b
      else if iType m = ''game_over'' then (b\<lparr>btRes := (btRes b)\<lparr>orWinner := iWinner m\<rparr>\<rparr>, GameDone)
      else (b, Waiting))"

text \<open>\<open>playOne\<close> over the results of its reads; \<open>None\<close> is a failed read, the deadline included.\<close>

fun playOne :: "(BotIn \<times> inbound option) list \<Rightarrow> Bot \<Rightarrow> Bot \<times> BotEnd" where
  "playOne [] b = (b, Waiting)"
| "playOne ((x, r) # rs) b =
     (case r of
        None \<Rightarrow> (b, ReadFailed)
      | Some m \<Rightarrow> (case onInbound x m b of (b', Waiting) \<Rightarrow> playOne rs b' | (b', e) \<Rightarrow> (b', e)))"

section \<open>Counting\<close>

definition actionsSent :: "Bot \<Rightarrow> nat" where
  "actionsSent b = length (filter (\<lambda>m. case m of SendAction _ _ \<Rightarrow> True | _ \<Rightarrow> False) (btOut b))"

text \<open>
  \<open>k\<close> is one when a write has failed. The actions the bot chose are bounded by the sequence
  number it has seen: it acts once for each new state at most.
\<close>

definition bot_ok :: "Bot \<Rightarrow> nat \<Rightarrow> bool" where
  "bot_ok b k \<longleftrightarrow>
     orActions (btRes b) + orIllegal (btRes b) + orLimited (btRes b) = actionsSent b + k \<and>
     orActions (btRes b) \<le> unat (btLastSeq b) \<and>
     length (btRTT b) + (case btSentAt b of None \<Rightarrow> 0 | Some _ \<Rightarrow> 1) \<le> actionsSent b + k"

lemma word_less_Suc: "(u :: 64 word) < v \<Longrightarrow> Suc (unat u) \<le> unat v"
  by (simp add: word_less_nat_alt)

definition failedWrites :: "BotEnd \<Rightarrow> nat" where
  "failedWrites e = (if e = WriteFailed then 1 else 0)"

lemma onState_ok:
  assumes "bot_ok b 0" "onState x v b = (b', e)"
  shows "\<exists>k \<le> failedWrites e. bot_ok b' k"
proof -
  have up: "unat (btLastSeq b) \<le> unat (max (btLastSeq b) (vSeq v))" by (simp add: max_def word_le_nat_alt)
  show ?thesis
  proof (cases "vSeq v \<le> btLastSeq b \<or> vOver v \<or> \<not> vYourTurn v")
    case True
    with assms up show ?thesis
      by (intro exI [of _ 0]) (auto simp: onState_def bot_ok_def actionsSent_def Let_def split: option.splits if_splits)
  next
    case False
    then have "Suc (unat (btLastSeq b)) \<le> unat (vSeq v)" by (intro word_less_Suc) (simp add: not_le)
    with False assms show ?thesis
      by (intro exI [of _ "failedWrites e"])
        (auto simp: onState_def sendAction_def botSend_def bot_ok_def actionsSent_def failedWrites_def Let_def
          split: option.splits if_splits)
  qed
qed

lemma onInbound_ok:
  assumes "bot_ok b 0" "onInbound x m b = (b', e)"
  shows "\<exists>k \<le> failedWrites e. bot_ok b' k"
proof (cases "iType m = ''game_state''")
  case True
  then have "onState x (iView m) b = (b', e)" using assms(2) by (simp add: onInbound_def)
  then show ?thesis by (rule onState_ok [OF assms(1)])
next
  case False
  show ?thesis
  proof (cases "iType m = ''error''")
    case True
    with assms show ?thesis
      by (intro exI [of _ "failedWrites e"])
        (auto simp: onInbound_def onError_def sendAction_def botSend_def bot_ok_def actionsSent_def failedWrites_def Let_def
          split: option.splits if_splits)
  next
    case not_error: False
    with False assms show ?thesis
      by (intro exI [of _ 0]) (auto simp: onInbound_def botSend_def bot_ok_def actionsSent_def split: if_splits)
  qed
qed

lemma playOne_ok:
  "bot_ok b 0 \<Longrightarrow> playOne rs b = (b', e) \<Longrightarrow> \<exists>k \<le> failedWrites e. bot_ok b' k"
proof (induction rs b rule: playOne.induct)
  case (1 b)
  then show ?case by (auto simp: failedWrites_def)
next
  case (2 x r rs b)
  show ?case
  proof (cases r)
    case None
    with 2 show ?thesis by (auto simp: failedWrites_def)
  next
    case (Some m)
    obtain c f where c: "onInbound x m b = (c, f)" by (cases "onInbound x m b")
    note ok = onInbound_ok [OF 2(2) c]
    show ?thesis
    proof (cases "f = Waiting")
      case True
      with ok have "bot_ok c 0" by (auto simp: failedWrites_def)
      with True c Some 2 show ?thesis by simp
    next
      case False
      then have "b' = c \<and> e = f" using c Some 2(3) by (cases f) simp_all
      with ok show ?thesis by simp
    qed
  qed
qed

section \<open>Playing by the rules\<close>

lemma chooseAction_wire: "chooseAction (wireView v) c intn = chooseAction v c intn"
  by (cases "vHand (vMe v)") (simp_all add: chooseAction_def candidates_def wireView_def split: list.split)

lemma wireView_simps [simp]:
  "vSeq (wireView v) = vSeq v" "vOver (wireView v) = vOver v" "vYourTurn (wireView v) = vYourTurn v"
  by (simp_all add: wireView_def)

lemma chooseAction_seq: "chooseAction (v\<lparr>vSeq := n\<rparr>) c intn = chooseAction v c intn"
  by (simp add: chooseAction_def candidates_def)

section \<open>Properties\<close>

text \<open>
  C35. The bot acts exactly when it should and by the rules: when it reads the view a room has
  sent it of a state of a game, it sends one action, in the room of its match, if the state is
  newer than all it has seen, the game is running and it is its turn, and the rules accept
  that action in that state; otherwise it sends nothing. Over a whole game, whatever it reads
  and whichever write fails, the actions it sent are those it counts as chosen, refused and
  limited, it has chosen at most one for each sequence number, and it measures at most one
  round trip for each action.
\<close>
theorem bot_plays_by_the_rules:
  assumes "wf_state s" and "biCat x = cat s" and "\<And>n. 0 < n \<Longrightarrow> biIntn x n < n" and "biWrites x"
    and "playOne rs newBot = (b, e)"
  shows "let y = onInbound x (decodeRoomMsg say (PView ((ViewFor s i)\<lparr>vSeq := n\<rparr>))) b in
    snd y = Waiting \<and>
    (if btLastSeq b < n \<and> \<not> Over s \<and> i = Turn s
     then \<exists>a. btOut (fst y) = btOut b @ [SendAction (orRoomID (btRes b)) a] \<and>
            snd (Apply s (pID (player s i)) a) = None
     else btOut (fst y) = btOut b) \<and>
    (\<exists>k \<le> failedWrites e.
       orActions (btRes b) + orIllegal (btRes b) + orLimited (btRes b) = actionsSent b + k \<and>
       orActions (btRes b) \<le> unat (btLastSeq b) \<and> length (btRTT b) \<le> actionsSent b + k)"
proof -
  have "bot_ok newBot 0" by (simp add: bot_ok_def newBot_def actionsSent_def)
  from playOne_ok [OF this assms(5)] have count: "\<exists>k \<le> failedWrites e.
      orActions (btRes b) + orIllegal (btRes b) + orLimited (btRes b) = actionsSent b + k \<and>
      orActions (btRes b) \<le> unat (btLastSeq b) \<and> length (btRTT b) \<le> actionsSent b + k"
    by (auto simp: bot_ok_def)
  let ?v = "(ViewFor s i)\<lparr>vSeq := n\<rparr>"
  have m: "onInbound x (decodeRoomMsg say (PView ?v)) b = onState x (wireView ?v) b"
    by (simp add: onInbound_def noMessage_def)
  have v: "vSeq ?v = n" "vOver ?v = Over s" "vYourTurn ?v = (i = Turn s)" by (simp_all add: ViewFor_def)
  have "snd (Apply s (pID (player s i)) (chooseAction ?v (cat s) (biIntn x))) = None" if "\<not> Over s" "i = Turn s"
    unfolding chooseAction_seq using assms(1) that assms(3) by (rule chooseAction_legal)
  with count show ?thesis
    unfolding m onState_def Let_def wireView_simps v chooseAction_wire assms(2)
    using assms(4) by (auto simp: sendAction_def botSend_def not_le not_less split: option.split)
qed

definition sample_bot_in :: BotIn where
  "sample_bot_in = \<lparr>biCat = cat sample_fight, biIntn = (\<lambda>n. n - 1), biEnqueued = 0, biNow = 1, biLater = 2, biWrites = True\<rparr>"

theorem bot_plays_by_the_rules_witness:
  "\<exists>a. btOut (fst (onInbound sample_bot_in (decodeRoomMsg (\<lambda>_. []) (PView ((ViewFor sample_fight (Turn sample_fight))\<lparr>vSeq := 1\<rparr>)))
       newBot)) = [SendAction [] a] \<and>
     snd (Apply sample_fight (pID (player sample_fight (Turn sample_fight))) a) = None"
proof -
  have x: "biCat sample_bot_in = cat sample_fight" "\<And>n. 0 < n \<Longrightarrow> biIntn sample_bot_in n < n" "biWrites sample_bot_in"
    by (simp_all add: sample_bot_in_def)
  have "playOne [] newBot = (newBot, Waiting)" by simp
  from bot_plays_by_the_rules [OF fight_wf x this, where say = "\<lambda>_. []" and i = "Turn sample_fight" and n = 1] fight_current(1)
  show ?thesis by (simp add: Let_def newBot_def)
qed

end
