(* ===== verification/Load_Test.thy ===== *)
theory Load_Test
  imports Bot_Client Metrics_Page
begin

text \<open>
  The load test and the bots: \<open>scripts/bot/loadtest.go\<close> and \<open>main.go\<close>. Durations are
  nanoseconds; \<open>float64\<close> is a real number. Every player is a goroutine of its own whose only
  effects on the others are additions to counters and lists of samples, so the players are
  gone through one after the other. What a player meets (the answers of the server, the time
  it takes) is an argument. Printing is not modelled; the flags are in \<open>Bot_Main\<close>.
\<close>

section \<open>Statistics\<close>

definition addSample :: "int \<Rightarrow> int list \<Rightarrow> int list" where
  "addSample d ds = ds @ [d]"

definition percentile :: "int list \<Rightarrow> real \<Rightarrow> int" where
  "percentile sorted' p =
     (if sorted' = [] then 0
      else
        (let k = \<lfloor>real (length sorted') * p / 100 + 999999 / 1000000\<rfloor> - 1;
             k = (if k < 0 then 0 else k);
             k = (if k \<ge> int (length sorted') then int (length sorted') - 1 else k)
         in sorted' ! nat k))"

record dist =
  dN :: nat
  dP50 :: int
  dP90 :: int
  dP99 :: int
  dMax :: int

definition distOf :: "int list \<Rightarrow> dist" where
  "distOf samples =
     (let ds = sort samples
      in \<lparr>dN = length ds, dP50 = percentile ds 50, dP90 = percentile ds 90, dP99 = percentile ds 99,
          dMax = (if ds \<noteq> [] then last ds else 0)\<rparr>)"

section \<open>Accounts for the players\<close>

text \<open>
  The statements of \<open>ensureUsers\<close>: the text of each and the names it inserts, all with the one
  hash. \<open>exec\<close> is the database.
\<close>

definition loadName :: "string \<Rightarrow> nat \<Rightarrow> string" where
  "loadName prefix j = prefix @ show_int (int j)"

definition insertQuery :: "nat \<Rightarrow> string" where
  "insertQuery k =
     ''INSERT IGNORE INTO users (username, password) VALUES '' @
     concat (map (\<lambda>j. (if j > 0 then '','' else []) @ ''(?,?)'') [0..<k])"

definition batchSize :: nat where "batchSize = 500"

function insertBatches :: "string \<Rightarrow> nat \<Rightarrow> nat \<Rightarrow> (string \<times> string list) list" where
  "insertBatches prefix n i =
     (if i < n
      then (let js = [i..<min (i + batchSize) n] in (insertQuery (length js), map (loadName prefix) js)) #
           insertBatches prefix n (i + batchSize)
      else [])"
  by pat_completeness auto

termination
  by (relation "measure (\<lambda>(_, n, i). n - i)") (auto simp: batchSize_def)

declare insertBatches.simps [simp del]

fun execAll :: "(string \<Rightarrow> string list \<Rightarrow> string \<Rightarrow> 'db \<Rightarrow> 'db \<times> string option) \<Rightarrow> string \<Rightarrow>
    (string \<times> string list) list \<Rightarrow> 'db \<Rightarrow> 'db \<times> string option" where
  "execAll exec hash [] db = (db, None)"
| "execAll exec hash ((q, names) # bs) db =
     (case exec q names hash db of
        (db', Some e) \<Rightarrow> (db', Some e)
      | (db', None) \<Rightarrow> execAll exec hash bs db')"

definition ensureUsers ::
  "string option \<Rightarrow> (string + string) \<Rightarrow> (string \<Rightarrow> string list \<Rightarrow> string \<Rightarrow> 'db \<Rightarrow> 'db \<times> string option) \<Rightarrow>
     string \<Rightarrow> nat \<Rightarrow> 'db \<Rightarrow> 'db \<times> string option" where
  "ensureUsers opened hashed exec prefix n db =
     (case opened of
        Some e \<Rightarrow> (db, Some e)
      | None \<Rightarrow>
          (case hashed of
             Inl e \<Rightarrow> (db, Some e)
           | Inr hash \<Rightarrow> execAll exec hash (insertBatches prefix n 0) db))"

section \<open>One player\<close>

text \<open>
  \<open>login\<close> and \<open>dial\<close> of \<open>main.go\<close>: the answer of the server and the token in it; the type of the
  first message of the connection.
\<close>

definition login :: "(string + string) \<Rightarrow> (string \<Rightarrow> string + string \<times> string) \<Rightarrow> string \<Rightarrow> string + string" where
  "login response decode user =
     (case response of
        Inl e \<Rightarrow> Inl e
      | Inr body \<Rightarrow>
          (case decode body of
             Inl e \<Rightarrow> Inl e
           | Inr (token, err) \<Rightarrow>
               if token = [] then Inl (''login '' @ user @ '': '' @ err) else Inr token))"

definition dial :: "string option \<Rightarrow> inbound option \<Rightarrow> bool" where
  "dial failed first =
     (failed = None \<and> (case first of None \<Rightarrow> False | Some m \<Rightarrow> iType m = ''welcome''))"

text \<open>
  One game of a player: whether the write of \<open>enqueue\<close> succeeds, the reads of \<open>playOne\<close> until it
  returns, and the time from \<open>match_found\<close> to its end. A deadline ends every list of reads.
\<close>

record GameIn =
  giEnqueued :: bool
  giReads :: "(BotIn \<times> inbound option) list"
  giLength :: int

record PlayerIn =
  piToken :: string
  piDialled :: bool
  piGame :: "nat \<Rightarrow> GameIn"

definition playGame :: "GameIn \<Rightarrow> Bot \<times> bool" where
  "playGame x = (case playOne (giReads x) newBot of (b, e) \<Rightarrow> (b, e = GameDone))"

record LoadCount =
  lcGames :: nat
  lcFailed :: nat
  lcActions :: nat
  lcIllegal :: nat
  lcLimited :: nat
  lcWait :: "int list"
  lcRTT :: "int list"
  lcLen :: "int list"

definition noCount :: LoadCount where
  "noCount = \<lparr>lcGames = 0, lcFailed = 0, lcActions = 0, lcIllegal = 0, lcLimited = 0, lcWait = [], lcRTT = [], lcLen = []\<rparr>"

text \<open>The games of a player from number \<open>g\<close> on, \<open>n\<close> of them.\<close>

fun loadGames :: "(nat \<Rightarrow> GameIn) \<Rightarrow> nat \<Rightarrow> nat \<Rightarrow> LoadCount \<Rightarrow> LoadCount" where
  "loadGames gm 0 g c = c"
| "loadGames gm (Suc n) g c =
     (if \<not> giEnqueued (gm g) then c\<lparr>lcFailed := lcFailed c + 1\<rparr>
      else
        (case playGame (gm g) of
           (b, ok) \<Rightarrow>
             (let c = c\<lparr>lcWait := lcWait c @ btWaits b, lcRTT := lcRTT c @ btRTT b\<rparr>; res = btRes b
              in if \<not> ok then c\<lparr>lcFailed := lcFailed c + 1\<rparr>
                 else
                   loadGames gm n (Suc g)
                     (c\<lparr>lcLen := addSample (giLength (gm g)) (lcLen c), lcGames := lcGames c + 1,
                       lcActions := lcActions c + orActions res, lcIllegal := lcIllegal c + orIllegal res,
                       lcLimited := lcLimited c + orLimited res\<rparr>))))"

definition loadPlayer :: "nat \<Rightarrow> PlayerIn \<Rightarrow> LoadCount \<Rightarrow> LoadCount" where
  "loadPlayer games p c =
     (if piToken p = [] \<or> \<not> piDialled p then c\<lparr>lcFailed := lcFailed c + games\<rparr>
      else loadGames (piGame p) games 0 c)"

section \<open>The run\<close>

text \<open>The poller: the values it reads every 200 ms, \<open>None\<close> for a failed request.\<close>

definition peak :: "string \<Rightarrow> (string \<rightharpoonup> int) option list \<Rightarrow> int" where
  "peak name polls =
     fold (\<lambda>m v. case m of
             None \<Rightarrow> v
           | Some m \<Rightarrow> (let x = (case m name of None \<Rightarrow> 0 | Some x \<Rightarrow> x) in if x > v then x else v)) polls 0"

record loadReport =
  lrLogin :: dist
  lrGames :: nat
  lrFailed :: nat
  lrActions :: nat
  lrIllegal :: nat
  lrRateLimited :: nat
  lrRTT :: dist
  lrMatchWait :: dist
  lrGameLen :: dist
  lrPeakRooms :: int
  lrPeakConns :: int
  lrServerDelta :: "string \<rightharpoonup> int"

text \<open>
  What \<open>runLoad\<close> reports of the times of the successful logins, the players, the polls and the
  two readings of the page.
\<close>

definition runLoad ::
  "nat \<Rightarrow> int list \<Rightarrow> PlayerIn list \<Rightarrow> (string \<rightharpoonup> int) option list \<Rightarrow> (string \<rightharpoonup> int) \<Rightarrow> (string \<rightharpoonup> int) \<Rightarrow> loadReport" where
  "runLoad games logins players polls base final =
     (let c = fold (loadPlayer games) players noCount
      in \<lparr>lrLogin = distOf logins, lrGames = lcGames c div 2, lrFailed = lcFailed c, lrActions = lcActions c,
          lrIllegal = lcIllegal c, lrRateLimited = lcLimited c, lrRTT = distOf (lcRTT c),
          lrMatchWait = distOf (lcWait c), lrGameLen = distOf (lcLen c),
          lrPeakRooms = peak ''pet_rooms_active'' polls, lrPeakConns = peak ''pet_ws_conns'' polls,
          lrServerDelta = serverDelta base final\<rparr>)"

text \<open>
  The exit code of \<open>main\<close> in the mode \<open>-load\<close> once \<open>runLoad\<close> has returned a report; the fatal errors
  before that are in \<open>botMain\<close> of \<open>Bot_Main\<close>.
\<close>

definition loadExit :: "loadReport \<Rightarrow> nat" where
  "loadExit rep = (if lrFailed rep > 0 then 1 else 0)"

section \<open>Bots without the load test\<close>

record BotCount =
  bcWins :: "string \<Rightarrow> nat"
  bcFails :: nat
  bcIllegal :: nat

fun botGames :: "(nat \<Rightarrow> GameIn) \<Rightarrow> nat \<Rightarrow> nat \<Rightarrow> BotCount \<Rightarrow> BotCount" where
  "botGames gm 0 g c = c"
| "botGames gm (Suc n) g c =
     (if \<not> giEnqueued (gm g) then c
      else
        (case playGame (gm g) of
           (b, ok) \<Rightarrow>
             if \<not> ok then c\<lparr>bcFails := bcFails c + 1\<rparr>
             else
               (let w = orWinner (btRes b)
                in botGames gm n (Suc g)
                     (c\<lparr>bcWins := (bcWins c)(w := bcWins c w + 1), bcIllegal := bcIllegal c + orIllegal (btRes b)\<rparr>))))"

definition botPlayer :: "nat \<Rightarrow> PlayerIn \<Rightarrow> BotCount \<Rightarrow> BotCount" where
  "botPlayer games p c =
     (if piToken p = [] \<or> \<not> piDialled p then c\<lparr>bcFails := bcFails c + games\<rparr>
      else botGames (piGame p) games 0 c)"

definition runBots :: "nat \<Rightarrow> PlayerIn list \<Rightarrow> BotCount" where
  "runBots games players = fold (botPlayer games) players \<lparr>bcWins = (\<lambda>_. 0), bcFails = 0, bcIllegal = 0\<rparr>"

definition botsExit :: "BotCount \<Rightarrow> nat" where
  "botsExit c = (if bcFails c > 0 then 1 else 0)"

section \<open>Percentiles\<close>

lemma ceil_percent: "\<lfloor>real n * real j / 100 + 999999 / 1000000\<rfloor> = int ((n * j + 99) div 100)"
proof -
  define q r where "q = (n * j) div 100" and "r = (n * j) mod 100"
  have m: "n * j = 100 * q + r" "r < 100" by (simp_all add: q_def r_def)
  have e: "real n * real j / 100 = real q + real r / 100"
    using arg_cong [OF m(1), of real] by (simp add: field_simps)
  show ?thesis
  proof (cases "r = 0")
    case True
    have "(n * j + 99) div 100 = q" using m True by simp
    moreover have "\<lfloor>real q + 999999 / 1000000\<rfloor> = int q" by (simp add: floor_eq_iff)
    ultimately show ?thesis using True by (simp add: e)
  next
    case False
    then have "(n * j + 99) div 100 = q + 1" using m by simp
    moreover have "\<lfloor>real q + real r / 100 + 999999 / 1000000\<rfloor> = int (q + 1)"
      using False m(2) by (simp add: floor_eq_iff)
    ultimately show ?thesis by (simp add: e)
  qed
qed

text \<open>The nearest rank.\<close>

lemma percentile_rank:
  assumes "ds \<noteq> []" "1 \<le> j" "j \<le> 100"
  shows "percentile ds (real j) = ds ! ((length ds * j + 99) div 100 - 1)"
    and "(length ds * j + 99) div 100 - 1 < length ds" and "1 \<le> (length ds * j + 99) div 100"
proof -
  let ?n = "length ds" and ?c = "(length ds * j + 99) div 100"
  have n: "1 \<le> ?n" using assms(1) by (cases ds) simp_all
  have "1 * 1 \<le> ?n * j" using n assms(2) by (rule mult_le_mono)
  then have "100 \<le> ?n * j + 99" by linarith
  from div_le_mono [OF this, of 100] show c1: "1 \<le> ?c" by simp
  have "?n * j \<le> ?n * 100" using assms(3) by simp
  then have "?n * j + 99 \<le> 99 + ?n * 100" by linarith
  from div_le_mono [OF this, of 100] have c2: "?c \<le> ?n" by simp
  with c1 n show "?c - 1 < ?n" by simp
  show "percentile ds (real j) = ds ! (?c - 1)"
    using assms(1) c1 c2 by (simp add: percentile_def ceil_percent nat_diff_distrib)
qed

lemma sorted_rank:
  fixes ds :: "int list"
  assumes "sorted ds" "k < length ds"
  shows "Suc k \<le> length (filter (\<lambda>x. x \<le> ds ! k) ds)"
    and "w < ds ! k \<Longrightarrow> length (filter (\<lambda>x. x \<le> w) ds) \<le> k"
proof -
  have eq: "length (filter P ds) = card {i. i < length ds \<and> P (ds ! i)}" for P by (rule length_filter_conv_card)
  have "{..k} \<subseteq> {i. i < length ds \<and> ds ! i \<le> ds ! k}" using assms by (auto intro: sorted_nth_mono)
  then have "card {..k} \<le> card {i. i < length ds \<and> ds ! i \<le> ds ! k}" by (intro card_mono) auto
  then show "Suc k \<le> length (filter (\<lambda>x. x \<le> ds ! k) ds)" by (simp add: eq)
  assume w: "w < ds ! k"
  have "{i. i < length ds \<and> ds ! i \<le> w} \<subseteq> {..<k}"
  proof
    fix i assume i: "i \<in> {i. i < length ds \<and> ds ! i \<le> w}"
    show "i \<in> {..<k}"
    proof (rule ccontr)
      assume "i \<notin> {..<k}"
      then have "ds ! k \<le> ds ! i" using i assms by (auto intro: sorted_nth_mono)
      with i w show False by simp
    qed
  qed
  from card_mono [OF _ this] show "length (filter (\<lambda>x. x \<le> w) ds) \<le> k" by (simp add: eq)
qed

text \<open>
  \<open>v\<close> is the \<open>j\<close>-th percentile of the samples: a sample that at least \<open>j\<close> per cent of them do not
  exceed, and the smallest such.
\<close>

definition nearestRank :: "nat \<Rightarrow> int list \<Rightarrow> int \<Rightarrow> bool" where
  "nearestRank j ds v \<longleftrightarrow>
     v \<in> set ds \<and> j * length ds \<le> 100 * length (filter (\<lambda>x. x \<le> v) ds) \<and>
     (\<forall>w < v. 100 * length (filter (\<lambda>x. x \<le> w) ds) < j * length ds)"

lemma length_filter_sort [simp]: "length (filter P (sort ds)) = length (filter P (ds :: int list))"
  by (metis mset_filter mset_sort size_mset)

lemma percentile_nearest:
  assumes "ds \<noteq> []" "1 \<le> j" "j \<le> 100"
  shows "nearestRank j ds (percentile (sort ds) (real j))"
proof -
  let ?s = "sort ds" and ?c = "(length ds * j + 99) div 100"
  have "?s \<noteq> []" using assms(1) by (metis set_empty set_sort)
  from percentile_rank [OF this assms(2,3)] have v: "percentile ?s (real j) = ?s ! (?c - 1)" "?c - 1 < length ?s" "1 \<le> ?c"
    by simp_all
  note r = sorted_rank [OF sorted_sort v(2)]
  have mem: "percentile ?s (real j) \<in> set ds" using nth_mem [OF v(2)] unfolding v(1) set_sort .
  have "Suc (?c - 1) = ?c" using v(3) by linarith
  with r(1) have "?c \<le> length (filter (\<lambda>x. x \<le> percentile ?s (real j)) ds)" by (simp add: v(1))
  moreover have "j * length ds \<le> 100 * ?c" by (simp add: mult.commute)
  ultimately have le: "j * length ds \<le> 100 * length (filter (\<lambda>x. x \<le> percentile ?s (real j)) ds)" by linarith
  have "100 * length (filter (\<lambda>x. x \<le> w) ds) < j * length ds" if "w < percentile ?s (real j)" for w
  proof -
    have "length (filter (\<lambda>x. x \<le> w) ds) \<le> ?c - 1" using r(2) [of w] that by (simp add: v(1))
    moreover have "100 * ?c \<le> j * length ds + 99" by (simp add: mult.commute)
    ultimately show ?thesis using v(3) by linarith
  qed
  with mem le show ?thesis by (simp add: nearestRank_def)
qed

text \<open>The statistics do not depend on the order in which the goroutines add their samples.\<close>

lemma distOf_mset: "mset ds = mset ds' \<Longrightarrow> distOf ds = distOf ds'"
  by (metis distOf_def sorted_list_of_multiset_mset)

lemma distOf_max: "ds \<noteq> [] \<Longrightarrow> dMax (distOf ds) = Max (set ds)"
proof -
  assume ne: "ds \<noteq> []"
  then have s: "sort ds \<noteq> []" by (metis set_empty set_sort)
  have "x \<le> last xs" if "sorted xs" "x \<in> set xs" for x and xs :: "int list"
    using that by (induction xs) (auto simp: last_in_set)
  then have "Max (set (sort ds)) = last (sort ds)"
    using s sorted_sort [of ds] by (intro Max_eqI) (auto simp del: set_sort)
  with s show ?thesis by (simp add: distOf_def Let_def)
qed

section \<open>The accounts\<close>

text \<open>Every player is inserted once, in batches of at most 500, none of them empty.\<close>

lemma insertBatches_names:
  "i \<le> n \<Longrightarrow> concat (map snd (insertBatches prefix n i)) = map (loadName prefix) [i..<n] \<and>
     (\<forall>(q, names) \<in> set (insertBatches prefix n i). q = insertQuery (length names) \<and> 0 < length names \<and> length names \<le> batchSize)"
proof (induction prefix n i rule: insertBatches.induct)
  case (1 prefix n i)
  show ?case
  proof (cases "i < n")
    case False
    with 1(2) show ?thesis by (simp add: insertBatches.simps)
  next
    case True
    let ?m = "min (i + batchSize) n"
    have rec: "insertBatches prefix n i = (insertQuery (?m - i), map (loadName prefix) [i..<?m]) # insertBatches prefix n (i + batchSize)"
      using True by (subst insertBatches.simps) (simp add: Let_def)
    have b: "0 < ?m - i" "?m - i \<le> batchSize" using True by (auto simp: batchSize_def)
    show ?thesis
    proof (cases "i + batchSize \<le> n")
      case le: True
      then have m: "?m = i + batchSize" by simp
      have "map (loadName prefix) [i..<n] = map (loadName prefix) [i..<?m] @ map (loadName prefix) [i + batchSize..<n]"
        unfolding m using le by (metis le_add1 map_append upt_add_eq_append le_Suc_ex)
      with 1(1) [OF True le] b show ?thesis unfolding rec by auto
    next
      case nle: False
      then have "insertBatches prefix n (i + batchSize) = []" "?m = n" using nle by (simp_all add: insertBatches.simps min_def)
      with b show ?thesis unfolding rec by auto
    qed
  qed
qed

section \<open>Counting\<close>

definition addCount :: "LoadCount \<Rightarrow> LoadCount \<Rightarrow> LoadCount" where
  "addCount c d =
     \<lparr>lcGames = lcGames c + lcGames d, lcFailed = lcFailed c + lcFailed d, lcActions = lcActions c + lcActions d,
      lcIllegal = lcIllegal c + lcIllegal d, lcLimited = lcLimited c + lcLimited d, lcWait = lcWait c @ lcWait d,
      lcRTT = lcRTT c @ lcRTT d, lcLen = lcLen c @ lcLen d\<rparr>"

lemma addCount_noCount [simp]: "addCount c noCount = c" "addCount noCount c = c"
  by (simp_all add: addCount_def noCount_def)

text \<open>A player adds the same whatever the others have counted.\<close>

lemma loadGames_adds: "loadGames gm n g c = addCount c (loadGames gm n g noCount)"
proof (induction n arbitrary: g c)
  case (Suc n)
  obtain b ok where p: "playGame (gm g) = (b, ok)" by (cases "playGame (gm g)")
  show ?case
    using p by (simp add: Let_def) (subst (1 2) Suc.IH, simp add: addCount_def noCount_def addSample_def)
qed simp

lemma loadPlayer_adds: "loadPlayer games p c = addCount c (loadPlayer games p noCount)"
proof (cases "piToken p = [] \<or> \<not> piDialled p")
  case True
  then show ?thesis by (auto simp: loadPlayer_def addCount_def noCount_def)
next
  case False
  then show ?thesis using loadGames_adds [of "piGame p" games 0 c] by (simp add: loadPlayer_def)
qed

lemma load_sums:
  "fold (loadPlayer games) ps c = foldl addCount c (map (\<lambda>p. loadPlayer games p noCount) ps)"
proof (induction ps arbitrary: c)
  case (Cons p ps)
  then show ?case using loadPlayer_adds [of games p c] by simp
qed simp

lemma foldl_addCount:
  "lcGames (foldl addCount c ds) = lcGames c + sum_list (map lcGames ds)"
  "lcFailed (foldl addCount c ds) = lcFailed c + sum_list (map lcFailed ds)"
  "lcActions (foldl addCount c ds) = lcActions c + sum_list (map lcActions ds)"
  "lcIllegal (foldl addCount c ds) = lcIllegal c + sum_list (map lcIllegal ds)"
  "lcLimited (foldl addCount c ds) = lcLimited c + sum_list (map lcLimited ds)"
  "lcWait (foldl addCount c ds) = lcWait c @ concat (map lcWait ds)"
  "lcRTT (foldl addCount c ds) = lcRTT c @ concat (map lcRTT ds)"
  "lcLen (foldl addCount c ds) = lcLen c @ concat (map lcLen ds)"
  by (induction ds arbitrary: c) (simp_all add: addCount_def)

lemma mset_sum: "mset xs = mset ys \<Longrightarrow> sum_list (map f xs) = sum_list (map f ys :: nat list)"
  by (metis mset_map sum_mset_sum_list)

lemma mset_samples: "mset xs = mset ys \<Longrightarrow> mset (concat (map f xs)) = mset (concat (map f ys))"
  by (metis mset_concat mset_map sum_mset_sum_list)

text \<open>The report does not depend on the order in which players and samples arrive.\<close>

lemma runLoad_mset:
  assumes "mset logins' = mset logins" "mset ps' = mset ps"
  shows "runLoad games logins' ps' polls base final = runLoad games logins ps polls base final"
proof -
  let ?d = "\<lambda>p. loadPlayer games p noCount"
  have s: "sum_list (map (\<lambda>p. f (?d p)) ps') = sum_list (map (\<lambda>p. f (?d p)) ps)" for f :: "LoadCount \<Rightarrow> nat"
    using assms(2) by (rule mset_sum)
  have l: "distOf (concat (map (\<lambda>p. f (?d p)) ps')) = distOf (concat (map (\<lambda>p. f (?d p)) ps))" for f
    using mset_samples [OF assms(2)] by (rule distOf_mset)
  show ?thesis
    unfolding runLoad_def Let_def load_sums foldl_addCount distOf_mset [OF assms(1)]
    using s l by (simp add: noCount_def comp_def)
qed

text \<open>Which games count as failed.\<close>

definition gameOk :: "GameIn \<Rightarrow> bool" where
  "gameOk x \<longleftrightarrow> giEnqueued x \<and> snd (playGame x)"

definition playedAll :: "nat \<Rightarrow> PlayerIn \<Rightarrow> bool" where
  "playedAll games p \<longleftrightarrow> games = 0 \<or> piToken p \<noteq> [] \<and> piDialled p \<and> (\<forall>g < games. gameOk (piGame p g))"

lemma loadGames_counts:
  "lcFailed (loadGames gm n g c) = lcFailed c + (if \<forall>i < n. gameOk (gm (g + i)) then 0 else 1)"
  "(\<forall>i < n. gameOk (gm (g + i))) \<Longrightarrow> lcGames (loadGames gm n g c) = lcGames c + n"
proof (induction n arbitrary: g c)
  case (Suc n)
  {
    case 1
    show ?case using Suc(1) [of "Suc g"]
      by (auto simp: gameOk_def All_less_Suc2 Let_def split: prod.splits)
  next
    case 2
    then show ?case using Suc(2) [of "Suc g"]
      by (auto simp: gameOk_def All_less_Suc2 Let_def split: prod.splits)
  }
qed simp_all

lemma loadPlayer_failed: "lcFailed (loadPlayer games p noCount) = 0 \<longleftrightarrow> playedAll games p"
  using loadGames_counts(1) [of "piGame p" games 0 noCount]
  by (auto simp: loadPlayer_def playedAll_def noCount_def)

lemma loadPlayer_games: "playedAll games p \<Longrightarrow> lcGames (loadPlayer games p noCount) = games"
  using loadGames_counts(2) [of games "piGame p" 0 noCount]
  by (auto simp: loadPlayer_def playedAll_def noCount_def)

lemma loadExit_0:
  "loadExit (runLoad games logins ps polls base final) = 0 \<longleftrightarrow> (\<forall>p \<in> set ps. playedAll games p)"
proof -
  have "lrFailed (runLoad games logins ps polls base final) = sum_list (map (\<lambda>p. lcFailed (loadPlayer games p noCount)) ps)"
    by (simp add: runLoad_def Let_def load_sums foldl_addCount noCount_def comp_def)
  moreover have "sum_list (map (\<lambda>p. lcFailed (loadPlayer games p noCount)) ps) = 0 \<longleftrightarrow> (\<forall>p \<in> set ps. playedAll games p)"
    by (induction ps) (auto simp: loadPlayer_failed)
  ultimately show ?thesis unfolding loadExit_def by (metis gr0I less_not_refl zero_neq_one)
qed

lemma all_games:
  assumes "\<forall>p \<in> set ps. playedAll games p"
  shows "lrGames (runLoad games logins ps polls base final) = length ps * games div 2"
proof -
  have "sum_list (map (\<lambda>p. lcGames (loadPlayer games p noCount)) ps) = length ps * games"
    using assms loadPlayer_games by (induction ps) simp_all
  then show ?thesis by (simp add: runLoad_def Let_def load_sums foldl_addCount noCount_def comp_def)
qed

text \<open>
  The bots without \<open>-load\<close> are not as strict: a game whose \<open>enqueue\<close> cannot be written is not
  counted as failed.
\<close>

lemma bots_miss_enqueue:
  assumes "piToken p \<noteq> []" "piDialled p" "\<not> giEnqueued (piGame p 0)"
  shows "botsExit (runBots (Suc n) [p]) = 0" and "loadExit (runLoad (Suc n) logins [p] polls base final) = 1"
  using assms by (simp_all add: botsExit_def runBots_def botPlayer_def loadExit_def runLoad_def loadPlayer_def noCount_def Let_def)

section \<open>What the report says of the games\<close>

text \<open>
  The games a player finishes, those it was enqueued for (the first failure included), and what
  is counted as failed, said without the loop.
\<close>

definition finishedOf :: "GameIn list \<Rightarrow> GameIn list" where
  "finishedOf xs = takeWhile gameOk xs"

definition enqueuedOf :: "GameIn list \<Rightarrow> GameIn list" where
  "enqueuedOf xs = takeWhile gameOk xs @ filter giEnqueued (take 1 (dropWhile gameOk xs))"

definition gamesOf :: "nat \<Rightarrow> PlayerIn \<Rightarrow> GameIn list" where
  "gamesOf games p = (if piToken p = [] \<or> \<not> piDialled p then [] else map (piGame p) [0..<games])"

definition failedOf :: "nat \<Rightarrow> PlayerIn \<Rightarrow> nat" where
  "failedOf games p =
     (if piToken p = [] \<or> \<not> piDialled p then games else if finishedOf (gamesOf games p) = gamesOf games p then 0 else 1)"

definition botOf :: "GameIn \<Rightarrow> Bot" where
  "botOf x = fst (playGame x)"

lemma loadGames_spec:
  fixes gm
  defines "xs \<equiv> \<lambda>n g. map gm [g..<g + n]"
  shows "loadGames gm n g c =
    \<lparr>lcGames = lcGames c + length (finishedOf (xs n g)), lcFailed = lcFailed c + (if finishedOf (xs n g) = xs n g then 0 else 1),
     lcActions = lcActions c + sum_list (map (\<lambda>x. orActions (btRes (botOf x))) (finishedOf (xs n g))),
     lcIllegal = lcIllegal c + sum_list (map (\<lambda>x. orIllegal (btRes (botOf x))) (finishedOf (xs n g))),
     lcLimited = lcLimited c + sum_list (map (\<lambda>x. orLimited (btRes (botOf x))) (finishedOf (xs n g))),
     lcWait = lcWait c @ concat (map (\<lambda>x. btWaits (botOf x)) (enqueuedOf (xs n g))),
     lcRTT = lcRTT c @ concat (map (\<lambda>x. btRTT (botOf x)) (enqueuedOf (xs n g))),
     lcLen = lcLen c @ map giLength (finishedOf (xs n g))\<rparr>"
proof (induction n arbitrary: g c)
  case 0
  show ?case by (simp add: xs_def finishedOf_def enqueuedOf_def)
next
  case (Suc n)
  obtain b ok where p: "playGame (gm g) = (b, ok)" by (cases "playGame (gm g)")
  have xs: "xs (Suc n) g = gm g # xs n (Suc g)" by (simp add: xs_def upt_conv_Cons del: upt_Suc)
  show ?case
    using p by (simp add: Let_def xs Suc.IH)
      (auto simp: finishedOf_def enqueuedOf_def gameOk_def botOf_def addSample_def)
qed

lemma loadPlayer_spec:
  "loadPlayer games p noCount =
    \<lparr>lcGames = length (finishedOf (gamesOf games p)), lcFailed = failedOf games p,
     lcActions = sum_list (map (\<lambda>x. orActions (btRes (botOf x))) (finishedOf (gamesOf games p))),
     lcIllegal = sum_list (map (\<lambda>x. orIllegal (btRes (botOf x))) (finishedOf (gamesOf games p))),
     lcLimited = sum_list (map (\<lambda>x. orLimited (btRes (botOf x))) (finishedOf (gamesOf games p))),
     lcWait = concat (map (\<lambda>x. btWaits (botOf x)) (enqueuedOf (gamesOf games p))),
     lcRTT = concat (map (\<lambda>x. btRTT (botOf x)) (enqueuedOf (gamesOf games p))),
     lcLen = map giLength (finishedOf (gamesOf games p))\<rparr>"
  by (simp add: loadPlayer_def loadGames_spec gamesOf_def failedOf_def noCount_def)
    (simp add: finishedOf_def enqueuedOf_def)

text \<open>The numbers of the report, over all players.\<close>

definition overAll :: "nat \<Rightarrow> PlayerIn list \<Rightarrow> (GameIn list \<Rightarrow> 'a list) \<Rightarrow> 'a list" where
  "overAll games ps f = concat (map (\<lambda>p. f (gamesOf games p)) ps)"

lemma sum_overAll: "sum_list (map (\<lambda>p. sum_list (map h (f (gamesOf games p)))) ps) = (sum_list (map h (overAll games ps f)) :: nat)"
  by (induction ps) (simp_all add: overAll_def)

lemma concat_overAll: "concat (map (\<lambda>p. concat (map h (f (gamesOf games p)))) ps) = concat (map h (overAll games ps f))"
  by (induction ps) (simp_all add: overAll_def)

lemma map_overAll: "concat (map (\<lambda>p. map h (f (gamesOf games p))) ps) = map h (overAll games ps f)"
  by (induction ps) (simp_all add: overAll_def)

lemma length_overAll: "sum_list (map (\<lambda>p. length (f (gamesOf games p))) ps) = length (overAll games ps f)"
  by (induction ps) (simp_all add: overAll_def)

lemmas overAll_simps = sum_overAll concat_overAll map_overAll length_overAll

lemma noCount_fields [simp]:
  "lcGames noCount = 0" "lcFailed noCount = 0" "lcActions noCount = 0" "lcIllegal noCount = 0" "lcLimited noCount = 0"
  "lcWait noCount = []" "lcRTT noCount = []" "lcLen noCount = []"
  by (simp_all add: noCount_def)

lemma runLoad_spec:
  fixes games ps
  defines "done' \<equiv> overAll games ps finishedOf" and "begun' \<equiv> overAll games ps enqueuedOf"
  shows "runLoad games logins ps polls base final =
    \<lparr>lrLogin = distOf logins, lrGames = length done' div 2, lrFailed = sum_list (map (failedOf games) ps),
     lrActions = sum_list (map (\<lambda>x. orActions (btRes (botOf x))) done'),
     lrIllegal = sum_list (map (\<lambda>x. orIllegal (btRes (botOf x))) done'),
     lrRateLimited = sum_list (map (\<lambda>x. orLimited (btRes (botOf x))) done'),
     lrRTT = distOf (concat (map (\<lambda>x. btRTT (botOf x)) begun')),
     lrMatchWait = distOf (concat (map (\<lambda>x. btWaits (botOf x)) begun')), lrGameLen = distOf (map giLength done'),
     lrPeakRooms = peak ''pet_rooms_active'' polls, lrPeakConns = peak ''pet_ws_conns'' polls,
     lrServerDelta = serverDelta base final\<rparr>"
  by (simp add: runLoad_def Let_def load_sums foldl_addCount loadPlayer_spec comp_def overAll_simps done'_def begun'_def)

text \<open>A line of statistics: the number of the samples, the nearest ranks and the largest.\<close>

definition describes :: "int list \<Rightarrow> dist \<Rightarrow> bool" where
  "describes ds d \<longleftrightarrow>
     dN d = length ds \<and>
     (ds \<noteq> [] \<longrightarrow> nearestRank 50 ds (dP50 d) \<and> nearestRank 90 ds (dP90 d) \<and> nearestRank 99 ds (dP99 d) \<and>
        dMax d = Max (set ds))"

lemma distOf_describes: "describes ds (distOf ds)"
proof (cases "ds = []")
  case False
  from percentile_nearest [OF this, of 50] percentile_nearest [OF this, of 90] percentile_nearest [OF this, of 99]
  show ?thesis by (simp add: describes_def distOf_max) (simp add: distOf_def Let_def)
qed (simp add: describes_def distOf_def)

text \<open>A player whose login failed.\<close>

definition sample_absent :: PlayerIn where
  "sample_absent = \<lparr>piToken = [], piDialled = False, piGame = (\<lambda>_. \<lparr>giEnqueued = True, giReads = [], giLength = 0\<rparr>)\<rparr>"

end
