(* ===== verification/Slots.thy ===== *)
theory Slots
  imports Load_Test
begin

text \<open>
  Buffered channels used to bound how many calls run at once: \<open>withBcryptSlot\<close> of
  \<open>internal/auth/password.go\<close>, and the login phase of \<open>scripts/bot/loadtest.go\<close>. The capacity is the
  interface \<open>semaphore\<close>: whatever the schedule, no more calls run than the channel holds, every
  call gets its turn, and each is answered as if it were alone.
\<close>

section \<open>Calls behind a channel\<close>

text \<open>\<open>Answered None\<close>: the call panicked or failed; the deferred receive frees its slot all the same.\<close>

datatype 'a SlotCall = Queued | Computing | Answered "'a option"

text \<open>The elements in the channel, the calls, and which have ended, in order.\<close>

record 'a SlotState =
  scHeld :: nat
  scCalls :: "'a SlotCall list"
  scEnded :: "nat list"

definition newSlots :: "nat \<Rightarrow> 'a SlotState" where
  "newSlots n = \<lparr>scHeld = 0, scCalls = replicate n Queued, scEnded = []\<rparr>"

text \<open>
  A send blocks while the channel is full. \<open>ordered\<close>: one goroutine sends for all calls in turn,
  as the loop of the login phase does.
\<close>

inductive slotStep :: "nat \<Rightarrow> bool \<Rightarrow> (nat \<Rightarrow> 'a option) \<Rightarrow> 'a SlotState \<Rightarrow> 'a SlotState \<Rightarrow> bool" for cap ordered f where
  enter: "i < length (scCalls S) \<Longrightarrow> scCalls S ! i = Queued \<Longrightarrow> (ordered \<longrightarrow> (\<forall>j < i. scCalls S ! j \<noteq> Queued)) \<Longrightarrow>
    scHeld S < cap \<Longrightarrow>
    slotStep cap ordered f S (S\<lparr>scHeld := scHeld S + 1, scCalls := (scCalls S)[i := Computing]\<rparr>)"
| leave: "i < length (scCalls S) \<Longrightarrow> scCalls S ! i = Computing \<Longrightarrow>
    slotStep cap ordered f S
      (S\<lparr>scHeld := scHeld S - 1, scCalls := (scCalls S)[i := Answered (f i)], scEnded := scEnded S @ [i]\<rparr>)"

definition bcryptSlots :: "nat \<Rightarrow> nat" where
  "bcryptSlots numCPU = max 1 (numCPU div 2)"

definition loginSlots :: nat where
  "loginSlots = 32"

section \<open>The invariant\<close>

abbreviation many :: "('a SlotCall \<Rightarrow> bool) \<Rightarrow> 'a SlotState \<Rightarrow> nat" where
  "many P S \<equiv> length (filter P (scCalls S))"

definition slots_ok :: "nat \<Rightarrow> nat \<Rightarrow> (nat \<Rightarrow> 'a option) \<Rightarrow> 'a SlotState \<Rightarrow> nat \<Rightarrow> bool" where
  "slots_ok cap n f S k \<longleftrightarrow>
     length (scCalls S) = n \<and> scHeld S = many (\<lambda>c. c = Computing) S \<and> scHeld S \<le> cap \<and>
     (\<forall>i < n. scCalls S ! i = Queued \<or> scCalls S ! i = Computing \<or> scCalls S ! i = Answered (f i)) \<and>
     distinct (scEnded S) \<and> set (scEnded S) = {i. i < n \<and> scCalls S ! i = Answered (f i)} \<and>
     k + 2 * many (\<lambda>c. c = Queued) S + many (\<lambda>c. c = Computing) S = 2 * n"

lemma many_update:
  "i < length xs \<Longrightarrow> length (filter P (xs[i := y])) + (if P (xs ! i) then 1 else 0) =
     length (filter P xs) + (if P y then 1 else 0)"
proof (induction xs arbitrary: i)
  case (Cons x xs)
  show ?case
  proof (cases i)
    case (Suc j)
    then show ?thesis using Cons.IH [of j] Cons.prems by simp
  qed simp
qed simp

locale semaphore =
  fixes cap :: nat and ordered :: bool
  assumes cap_pos: "0 < cap"
begin

lemma slots_new_ok: "slots_ok cap n f (newSlots n) 0"
  by (simp add: slots_ok_def newSlots_def)

lemma slots_step_ok:
  assumes "slotStep cap ordered f S T" and ok: "slots_ok cap n f S k"
  shows "slots_ok cap n f T (Suc k)"
proof -
  have o: "length (scCalls S) = n" "scHeld S = many (\<lambda>c. c = Computing) S" "scHeld S \<le> cap"
      "k + 2 * many (\<lambda>c. c = Queued) S + many (\<lambda>c. c = Computing) S = 2 * n" "distinct (scEnded S)"
    and at: "\<And>j. j < n \<Longrightarrow> scCalls S ! j = Queued \<or> scCalls S ! j = Computing \<or> scCalls S ! j = Answered (f j)"
    and ended: "\<And>j. j \<in> set (scEnded S) \<longleftrightarrow> j < n \<and> scCalls S ! j = Answered (f j)"
    using ok by (simp_all add: slots_ok_def)
  show ?thesis
    using assms(1)
  proof cases
    case (enter i)
    have T: "length (scCalls T) = n" "scHeld T = scHeld S + 1" "scEnded T = scEnded S"
      "scCalls T ! j = (if j = i then Computing else scCalls S ! j)" if "j < n" for j
      using enter(1,2) that o(1) by (simp_all add: nth_list_update)
    have i: "i < n" using enter(2) o(1) by simp
    have c: "many (\<lambda>c. c = Computing) T = Suc (many (\<lambda>c. c = Computing) S)" "Suc (many (\<lambda>c. c = Queued) T) = many (\<lambda>c. c = Queued) S"
      using many_update [OF enter(2), of "\<lambda>c. c = Computing" Computing] many_update [OF enter(2), of "\<lambda>c. c = Queued" Computing]
        enter(1,3) by simp_all
    have "j \<in> set (scEnded T) \<longleftrightarrow> j < n \<and> scCalls T ! j = Answered (f j)" for j
      using T(3) [OF i] T(4) [of j] ended [of j] enter(3) by (cases "j = i") auto
    then have "set (scEnded T) = {j. j < n \<and> scCalls T ! j = Answered (f j)}" by blast
    moreover have "\<forall>j < n. scCalls T ! j = Queued \<or> scCalls T ! j = Computing \<or> scCalls T ! j = Answered (f j)"
      using T(4) at by simp
    ultimately show ?thesis unfolding slots_ok_def using T(1-3) [OF i] o c enter(5) by simp
  next
    case (leave i)
    have T: "length (scCalls T) = n" "scHeld T = scHeld S - 1" "scEnded T = scEnded S @ [i]"
      "scCalls T ! j = (if j = i then Answered (f i) else scCalls S ! j)" if "j < n" for j
      using leave(1,2) that o(1) by (simp_all add: nth_list_update)
    have i: "i < n" using leave(2) o(1) by simp
    have c: "Suc (many (\<lambda>c. c = Computing) T) = many (\<lambda>c. c = Computing) S" "many (\<lambda>c. c = Queued) T = many (\<lambda>c. c = Queued) S"
      using many_update [OF leave(2), of "\<lambda>c. c = Computing" "Answered (f i)"]
        many_update [OF leave(2), of "\<lambda>c. c = Queued" "Answered (f i)"] leave(1,3) by simp_all
    have "j \<in> set (scEnded T) \<longleftrightarrow> j < n \<and> scCalls T ! j = Answered (f j)" for j
      using T(3) [OF i] T(4) [of j] ended [of j] i by (cases "j = i") auto
    then have "set (scEnded T) = {j. j < n \<and> scCalls T ! j = Answered (f j)}" by blast
    moreover have "\<forall>j < n. scCalls T ! j = Queued \<or> scCalls T ! j = Computing \<or> scCalls T ! j = Answered (f j)"
      using T(4) at by simp
    moreover have "distinct (scEnded T)" using T(3) [OF i] o(5) ended [of i] leave(3) by simp
    moreover have "scHeld T = many (\<lambda>c. c = Computing) T" "scHeld T \<le> cap" using T(2) [OF i] o(2,3) c(1) by linarith+
    ultimately show ?thesis unfolding slots_ok_def using T(1) [OF i] o(4) c by simp
  qed
qed

lemma slots_run_ok: "(slotStep cap ordered f ^^ k) (newSlots n) S \<Longrightarrow> slots_ok cap n f S k"
  by (induction k arbitrary: S) (auto simp: slots_new_ok elim!: relcomppE intro: slots_step_ok)

lemma slots_step_possible:
  assumes ok: "slots_ok cap n f S k" and i: "i < n" "scCalls S ! i \<noteq> Answered (f i)"
  shows "\<exists>T. slotStep cap ordered f S T"
proof (cases "\<exists>j < n. scCalls S ! j = Computing")
  case True
  then obtain j where "j < length (scCalls S)" "scCalls S ! j = Computing" using ok by (auto simp: slots_ok_def)
  from slotStep.leave [OF this] show ?thesis by blast
next
  case False
  have calls: "length (scCalls S) = n" using ok by (simp add: slots_ok_def)
  then have "filter (\<lambda>c. c = Computing) (scCalls S) = []"
    using False by (auto simp: filter_empty_conv in_set_conv_nth)
  then have free: "scHeld S < cap" using ok cap_pos by (simp add: slots_ok_def)
  define j where "j = (LEAST j. j < n \<and> scCalls S ! j = Queued)"
  have "i < n \<and> scCalls S ! i = Queued" using ok i False by (auto simp: slots_ok_def)
  then have j: "j < n \<and> scCalls S ! j = Queued" unfolding j_def by (rule LeastI)
  have "scCalls S ! l \<noteq> Queued" if "l < j" for l
    using j that not_less_Least [of l "\<lambda>j. j < n \<and> scCalls S ! j = Queued", folded j_def] by simp
  with slotStep.enter [of j S ordered cap f] j free calls show ?thesis by auto
qed

text \<open>The contract: bounded, alive, finite, and every answer its own.\<close>

lemma any_schedule:
  assumes "(slotStep cap ordered f ^^ k) (newSlots n) S"
  shows "many (\<lambda>c. c = Computing) S \<le> cap" and "k \<le> 2 * n"
    and "(\<exists>T. slotStep cap ordered f S T) \<or>
      k = 2 * n \<and> scCalls S = map (\<lambda>i. Answered (f i)) [0..<n] \<and> mset (scEnded S) = mset [0..<n]"
proof -
  note ok = slots_run_ok [OF assms]
  show "many (\<lambda>c. c = Computing) S \<le> cap" "k \<le> 2 * n" using ok by (simp_all add: slots_ok_def)
  show "(\<exists>T. slotStep cap ordered f S T) \<or>
      k = 2 * n \<and> scCalls S = map (\<lambda>i. Answered (f i)) [0..<n] \<and> mset (scEnded S) = mset [0..<n]"
  proof (cases "\<exists>T. slotStep cap ordered f S T")
    case False
    with slots_step_possible [OF ok] have all: "\<forall>i < n. scCalls S ! i = Answered (f i)" by blast
    have len: "length (scCalls S) = n" using ok by (simp add: slots_ok_def)
    with all have calls: "scCalls S = map (\<lambda>i. Answered (f i)) [0..<n]" by (simp add: list_eq_iff_nth_eq)
    then have "many (\<lambda>c. c = Queued) S = 0" "many (\<lambda>c. c = Computing) S = 0" by (simp_all add: filter_empty_conv)
    moreover have "mset (scEnded S) = mset [0..<n]"
      using ok all by (intro set_eq_iff_mset_eq_distinct [THEN iffD1]) (auto simp: slots_ok_def)
    ultimately show ?thesis using ok calls by (simp add: slots_ok_def)
  qed simp
qed

end

interpretation bcrypt: semaphore "bcryptSlots numCPU" False for numCPU
  by unfold_locales (simp add: bcryptSlots_def)

interpretation logins: semaphore loginSlots True
  by unfold_locales (simp add: loginSlots_def)

section \<open>Password checks\<close>

text \<open>
  However many logins arrive at once, at most half the processors, and at least one, compare
  passwords; every check gets its slot, and its answer is the one it would have had alone.
\<close>

lemma bcrypt_slots:
  assumes "(slotStep (bcryptSlots numCPU) False (\<lambda>i. Some (checkPassword bc (stored i) (given i))) ^^ k) (newSlots n) S"
  shows "many (\<lambda>c. c = Computing) S \<le> max 1 (numCPU div 2) \<and> k \<le> 2 * n \<and>
    ((\<exists>T. slotStep (bcryptSlots numCPU) False (\<lambda>i. Some (checkPassword bc (stored i) (given i))) S T) \<or>
     scCalls S = map (\<lambda>i. Answered (Some (checkPassword bc (stored i) (given i)))) [0..<n])"
  using bcrypt.any_schedule [OF assms] by (auto simp: bcryptSlots_def)

section \<open>The login phase of the load test\<close>

text \<open>What the goroutine of player \<open>i\<close> brings: the token and the time the login took, nothing when it fails.\<close>

definition loginCall ::
  "string \<Rightarrow> (nat \<Rightarrow> string + string) \<Rightarrow> (string \<Rightarrow> string + string \<times> string) \<Rightarrow> (nat \<Rightarrow> int) \<Rightarrow> nat \<Rightarrow> (string \<times> int) option" where
  "loginCall prefix response decode took i =
     (case login (response i) decode (loadName prefix i) of Inl _ \<Rightarrow> None | Inr tok \<Rightarrow> Some (tok, took i))"

definition loginStep :: "(nat \<Rightarrow> (string \<times> int) option) \<Rightarrow> (string \<times> int) SlotState \<Rightarrow> (string \<times> int) SlotState \<Rightarrow> bool" where
  "loginStep f = slotStep loginSlots True f"

definition loginTokens :: "(string \<times> int) SlotState \<Rightarrow> string list" where
  "loginTokens S = map (\<lambda>c. case c of Answered (Some (tok, d)) \<Rightarrow> tok | _ \<Rightarrow> []) (scCalls S)"

text \<open>The samples in the order in which the logins end.\<close>

definition loginLat :: "(nat \<Rightarrow> (string \<times> int) option) \<Rightarrow> (string \<times> int) SlotState \<Rightarrow> int list" where
  "loginLat f S = fold (\<lambda>i ds. case f i of None \<Rightarrow> ds | Some (tok, d) \<Rightarrow> addSample d ds) (scEnded S) []"

text \<open>The same one after the other.\<close>

definition loginTimes :: "(nat \<Rightarrow> (string \<times> int) option) \<Rightarrow> nat list \<Rightarrow> int list" where
  "loginTimes f xs = concat (map (\<lambda>i. case f i of None \<Rightarrow> [] | Some (tok, d) \<Rightarrow> [d]) xs)"

lemma loginLat_times: "loginLat f S = loginTimes f (scEnded S)"
proof -
  have "fold (\<lambda>i ds. case f i of None \<Rightarrow> ds | Some (tok, d) \<Rightarrow> addSample d ds) xs ds = ds @ loginTimes f xs" for xs ds
    by (induction xs arbitrary: ds) (auto simp: loginTimes_def addSample_def split: option.split prod.split)
  then show ?thesis by (simp add: loginLat_def)
qed

text \<open>
  When \<open>lwg.Wait\<close> returns, the tokens of the players and the statistics are those of logins one
  after the other, so the report is that of the sequential \<open>runLoad\<close>.
\<close>

lemma login_phase:
  assumes "(loginStep f ^^ k) (newSlots n) S" "\<not> (\<exists>T. loginStep f S T)"
  shows "loginTokens S = map (\<lambda>i. case f i of None \<Rightarrow> [] | Some (tok, d) \<Rightarrow> tok) [0..<n]"
    and "runLoad games (loginLat f S) players polls base final = runLoad games (loginTimes f [0..<n]) players polls base final"
proof -
  have S: "scCalls S = map (\<lambda>i. Answered (f i)) [0..<n]" "mset (scEnded S) = mset [0..<n]"
    using logins.any_schedule(3) [OF assms(1) [unfolded loginStep_def]] assms(2) [unfolded loginStep_def] by auto
  show "loginTokens S = map (\<lambda>i. case f i of None \<Rightarrow> [] | Some (tok, d) \<Rightarrow> tok) [0..<n]"
    by (auto simp: loginTokens_def S(1) split: option.split)
  show "runLoad games (loginLat f S) players polls base final = runLoad games (loginTimes f [0..<n]) players polls base final"
    unfolding loginLat_times loginTimes_def by (rule runLoad_mset [OF mset_samples [OF S(2)] refl])
qed

end
