(* ===== verification/Bot_Table.thy ===== *)
theory Bot_Table
  imports Bot_Client Replay_Props
begin

text \<open>
  Two bots at a room: \<open>scripts/bot/client.go\<close> on both sides of \<open>internal/room/room.go\<close>. The
  connection carries what the room sends, in order and each message once (\<open>Wire\<close>), and hands the
  room what a bot sends (\<open>Connections\<close>); the bots are slow enough for the rate limit and fast
  enough for the timers, so neither intervenes. Nothing is assumed of the order in which the
  three goroutines proceed. \<open>Bot_Finish\<close> proves that they play the game to its end.
\<close>

section \<open>The table\<close>

text \<open>
  Room, bots, what \<open>playOne\<close> of each has come to, and how many messages each has read. The
  message \<open>match_found\<close> is the first of each player.
\<close>

record Table =
  tbSys :: System
  tbBot :: "nat \<Rightarrow> Bot"
  tbEnd :: "nat \<Rightarrow> BotEnd"
  tbRead :: "nat \<Rightarrow> nat"

definition newTable :: "System \<Rightarrow> Table" where
  "newTable S = \<lparr>tbSys = S, tbBot = (\<lambda>_. newBot), tbEnd = (\<lambda>_. Waiting), tbRead = (\<lambda>_. 0)\<rparr>"

definition sentTo :: "string \<Rightarrow> (string \<times> Payload) list \<Rightarrow> Outgoing list" where
  "sentTo p xs = map (\<lambda>x. RoomMsg (snd x)) (filter (\<lambda>x. fst x = p) xs)"

definition toPlayer :: "System \<Rightarrow> nat \<Rightarrow> Outgoing list" where
  "toPlayer S i =
     (let r = lRoom (sLoop S) in MatchFound (rId r) # sentTo (rPlayers r ! i) (rSent r))"

text \<open>
  A message of a bot becomes a command of its player for the room it names; \<open>enc\<close> is the JSON
  text of its data.
\<close>

fun cmdOf :: "(Outbound \<Rightarrow> string) \<Rightarrow> string \<Rightarrow> Outbound \<Rightarrow> Cmd" where
  "cmdOf enc p (SendJoin room) = \<lparr>cmdPlayer = p, cmdType = ''join'', cmdData = enc (SendJoin room)\<rparr>"
| "cmdOf enc p (SendAction room a) = \<lparr>cmdPlayer = p, cmdType = aType a, cmdData = enc (SendAction room a)\<rparr>"

fun roomOf :: "Outbound \<Rightarrow> string" where
  "roomOf (SendJoin room) = room"
| "roomOf (SendAction room a) = room"

definition deliver :: "Env \<Rightarrow> (Outbound \<Rightarrow> string) \<Rightarrow> string \<Rightarrow> Outbound list \<Rightarrow> System \<Rightarrow> System" where
  "deliver env enc p ms S =
     fold (\<lambda>m S. if roomOf m = rId (lRoom (sLoop S)) then the (step env (Arrive (cmdOf enc p m)) S) else S) ms S"

text \<open>That is what the connection does with the message when the room is running and the limiter grants it.\<close>

lemma deliver_onGame:
  assumes "GetRoom (svRooms s) (roomOf m) = Some q" "q < length (hSlots (svRooms s))"
    and "slSys (hSlots (svRooms s) ! q) = S" "rId (lRoom (sLoop S)) = roomOf m" "HasPlayer (lRoom (sLoop S)) user"
    and "meRoomId menv (enc m) = roomOf m"
  shows "slSys (hSlots (svRooms (onGame menv pick user pc
      \<lparr>wmType = cmdType (cmdOf enc user m), wmPayload = [], wmData = enc m\<rparr> s)) ! q) = deliver env enc user [m] S"
proof -
  have c: "\<lparr>cmdPlayer = user, cmdType = cmdType (cmdOf enc user m), cmdData = enc m\<rparr> = cmdOf enc user m" by (cases m) simp_all
  have "svRooms (onGame menv pick user pc \<lparr>wmType = cmdType (cmdOf enc user m), wmPayload = [], wmData = enc m\<rparr> s) =
      fst (sendRoom q (cmdOf enc user m) (svRooms s))"
    using assms by (simp add: onGame_def Let_def c split: prod.split)
  then show ?thesis
    unfolding sendRoom_arrives [of _ _ _ env] using assms by (simp add: nth_onSlot deliver_def del: step.simps)
qed

text \<open>What a bot is run with: the card table of the game, \<open>Intn\<close> as documented, and writes that succeed.\<close>

definition bot_runs :: "Catalog \<Rightarrow> BotIn \<Rightarrow> bool" where
  "bot_runs c x \<longleftrightarrow> biCat x = c \<and> (\<forall>n > 0. biIntn x n < n) \<and> biWrites x"

inductive moves :: "Env \<Rightarrow> (Outbound \<Rightarrow> string) \<Rightarrow> (ErrText \<Rightarrow> string) \<Rightarrow> Catalog \<Rightarrow> Table \<Rightarrow> Table \<Rightarrow> bool" for env enc say c where
  read: "i < 2 \<Longrightarrow> tbEnd T i = Waiting \<Longrightarrow> tbRead T i < length (toPlayer (tbSys T) i) \<Longrightarrow> bot_runs c x \<Longrightarrow>
    onInbound x (decodeMsg say (toPlayer (tbSys T) i ! tbRead T i)) (tbBot T i) = (b, e) \<Longrightarrow>
    S = deliver env enc (rPlayers (lRoom (sLoop (tbSys T))) ! i) (drop (length (btOut (tbBot T i))) (btOut b)) (tbSys T) \<Longrightarrow>
    moves env enc say c T
      (T\<lparr>tbSys := S, tbBot := (tbBot T)(i := b), tbEnd := (tbEnd T)(i := e), tbRead := (tbRead T)(i := Suc (tbRead T i))\<rparr>)"
| take: "step env (Tick d) (tbSys T) = Some S \<Longrightarrow> step env TakeCmd S = Some S' \<Longrightarrow>
    moves env enc say c T (T\<lparr>tbSys := S'\<rparr>)"

inductive_cases movesE: "moves env enc say c T U"

section \<open>What the JSON of an action has to carry\<close>

definition botAction :: "Catalog \<Rightarrow> Action \<Rightarrow> bool" where
  "botAction c a \<longleftrightarrow>
     aType a \<in> {''play_card'', ''attack'', ''end_turn''} \<and> (aCardID a = [] \<or> Has c (aCardID a)) \<and>
     (aInstID a = [] \<or> aInstID a \<in> range inst_id) \<and> (aTarget a = [] \<or> aTarget a = ''face'' \<or> aTarget a \<in> range inst_id)"

text \<open>The room decodes the data of such an action to its fields; the type is that of the message.\<close>

definition codec :: "Env \<Rightarrow> (Outbound \<Rightarrow> string) \<Rightarrow> Catalog \<Rightarrow> bool" where
  "codec env enc c \<longleftrightarrow>
     (\<forall>room a. botAction c a \<longrightarrow>
        (\<exists>a0. decodeAction env (enc (SendAction room a)) = Inr a0 \<and> a0\<lparr>aType := aType a\<rparr> = a))"

lemma board_insts:
  assumes "wf_state s" "i < 2" "m \<in> set (pBoard (player s i))" shows "mInstID m \<in> range inst_id"
  using wf_stateD(8) [OF assms(1,2)] assms(3) by (auto simp: player_ok_def minion_ok_def)

lemma playCands_fields: "a \<in> set (playCands c mana seen h) \<Longrightarrow> aInstID a = [] \<and> aTarget a = []"
  by (induction h arbitrary: seen) (auto split: if_splits option.splits)

lemma chooseAction_botAction:
  assumes "wf_state s" "i < 2" "\<And>n. 0 < n \<Longrightarrow> intn n < n"
  shows "botAction (cat s) (chooseAction (ViewFor s i) (cat s) intn)"
proof (cases "candidates (ViewFor s i) (cat s) = []")
  case True
  then show ?thesis by (simp add: chooseAction_def endTurnAction_def botAction_def)
next
  case False
  let ?a = "chooseAction (ViewFor s i) (cat s) intn"
  have "?a \<in> set (candidates (ViewFor s i) (cat s))"
    using False assms(3) [of "length (candidates (ViewFor s i) (cat s))"]
    by (simp add: chooseAction_def Let_def)
  then consider mana where "?a \<in> set (playCands (cat s) mana {} (the (vHand (vMe (ViewFor s i)))))"
    | "?a \<in> set (attackCands (pBoard (player s (1 - i))) (pBoard (player s i)))"
    by (auto simp: candidates_def ViewFor_def toView_def split: option.splits if_splits)
  then show ?thesis
  proof cases
    case (1 mana)
    from playCands_mem [OF this] playCands_fields [OF this] show ?thesis
      by (auto simp: botAction_def Has_def Get_def)
  next
    case 2
    from attackCands_mem [OF this] obtain m target where m: "m \<in> set (pBoard (player s i))" "?a = attackOn m target"
      "target = ''face'' \<or> target \<in> mInstID ` set (pBoard (player s (1 - i)))" by blast
    have "mInstID m \<in> range inst_id" by (rule board_insts [OF assms(1,2) m(1)])
    moreover have "target = ''face'' \<or> target \<in> range inst_id"
      using m(3) board_insts [OF assms(1), of "1 - i"] by auto
    ultimately show ?thesis unfolding m(2) by (simp add: botAction_def attackOn_def)
  qed
qed

section \<open>What the room does\<close>

text \<open>A room of two players whose \<open>Out\<close> delivers.\<close>

definition seated :: "string \<Rightarrow> string \<Rightarrow> string \<Rightarrow> System \<Rightarrow> bool" where
  "seated room p q S \<longleftrightarrow>
     (let r = lRoom (sLoop S) in
      p \<noteq> q \<and> rId r = room \<and> rPlayers r = [p, q] \<and> rOut r = Some (\<lambda>_. False) \<and>
      stPlayers (lSess (sLoop S)) = [p, q] \<and> (sRunning S \<longrightarrow> \<not> rCancelled r))"

text \<open>One message for each player.\<close>

definition told :: "string \<Rightarrow> string \<Rightarrow> (nat \<Rightarrow> Payload) \<Rightarrow> (string \<times> Payload) list" where
  "told p q f = [(p, f 0), (q, f 1)]"

lemma sentTo_told: "p \<noteq> q \<Longrightarrow> i < 2 \<Longrightarrow> sentTo ([p, q] ! i) (xs @ told p q f) = sentTo ([p, q] ! i) xs @ [RoomMsg (f i)]"
  by (auto simp: sentTo_def told_def less_2_cases_iff)

lemma broadcast_told:
  "rPlayers r = [p, q] \<Longrightarrow> rOut r = Some (\<lambda>_. False) \<Longrightarrow>
     broadcast m r = (r\<lparr>rSent := rSent r @ told p q (\<lambda>_. m)\<rparr>, False)"
  by (simp add: broadcast_def emit_def told_def)

definition viewMsg :: "State \<Rightarrow> 64 word \<Rightarrow> nat \<Rightarrow> Payload" where
  "viewMsg b n i = PView ((ViewFor b i)\<lparr>vSeq := n\<rparr>)"

lemma pushState_told:
  "rPlayers r = [p, q] \<Longrightarrow> p \<noteq> q \<Longrightarrow> rOut r = Some (\<lambda>_. False) \<Longrightarrow> rBattle r = Some b \<Longrightarrow>
     pushState r = (r\<lparr>rSeq := rSeq r + 1, rSent := rSent r @ told p q (viewMsg b (rSeq r + 1))\<rparr>, False)"
  by (simp add: pushState_def sendView_def emit_def told_def viewMsg_def)

text \<open>The fields of a room the players can notice.\<close>

definition shows_as ::
  "System \<Rightarrow> bool \<Rightarrow> bool \<Rightarrow> State \<Rightarrow> nat list \<Rightarrow> Cmd list \<Rightarrow> nat \<Rightarrow> 64 word \<Rightarrow> (string \<times> Payload) list \<Rightarrow> bool" where
  "shows_as S running started' b on inbox logged n sent \<longleftrightarrow>
     (let r = lRoom (sLoop S); st = lSess (sLoop S) in
      sRunning S = running \<and> stStarted st = started' \<and> rBattle r = Some b \<and>
      stOnline st = map (\<lambda>i. (rPlayers r ! i, True)) on \<and> rInbox r = inbox \<and> length (rLog r) = logged \<and>
      rSeq r = n \<and> rSent r = sent)"

lemmas seat_defs = seated_def shows_as_def Let_def

lemma step_Tick_shows [simp]:
  "seated room p q (S\<lparr>sNow := t\<rparr>) = seated room p q S"
  "shows_as (S\<lparr>sNow := t\<rparr>) running st b on inbox l n sent = shows_as S running st b on inbox l n sent"
  by (simp_all add: seat_defs)

lemma take_first_join:
  assumes "seated room p q S" "shows_as S True False b [] (c # rest) l n sent"
    and "cmdPlayer c = [p, q] ! i" "i < 2" "cmdType c = ''join''"
  shows "\<exists>T. step env TakeCmd S = Some T \<and> seated room p q T \<and>
    shows_as T True False b [i] rest l n (sent @ told p q (\<lambda>_. PState ''waiting'' room))"
proof -
  let ?L = "(sLoop S)\<lparr>lRoom := (lRoom (sLoop S))\<lparr>rInbox := rest\<rparr>\<rparr>"
  have i: "stHas (lSess ?L) (cmdPlayer c)" "[p, q] ! i = p \<or> [p, q] ! i = q"
    using assms by (auto simp: seat_defs stHas_def less_2_cases_iff)
  have h: "\<exists>M. handleJoin (sNow S) c ?L = (M, Stay) \<and> seated room p q (S\<lparr>sLoop := M\<rparr>) \<and>
      shows_as (S\<lparr>sLoop := M\<rparr>) True False b [i] rest l n (sent @ told p q (\<lambda>_. PState ''waiting'' room))"
    using assms(1-3)
    by (simp add: handleJoin_def cancelGrace_def countTrue_def status_def broadcast_told onRoom_def andThen_def seat_defs)
  then show ?thesis
    using assms i(1) by (auto simp: settle_def onCmd_def handle_def andThen_def seat_defs)
qed

lemma take_second_join:
  assumes "seated room p q S" "shows_as S True False b [1 - i] (c # rest) l n sent"
    and "cmdPlayer c = [p, q] ! i" "i < 2" "cmdType c = ''join''"
  shows "\<exists>T. step env TakeCmd S = Some T \<and> seated room p q T \<and>
    shows_as T True True b [1 - i, i] rest l (n + 1)
      (sent @ told p q (\<lambda>_. PState ''ready'' room) @ told p q (viewMsg b (n + 1)))"
proof -
  let ?L = "(sLoop S)\<lparr>lRoom := (lRoom (sLoop S))\<lparr>rInbox := rest\<rparr>\<rparr>"
  have i: "stHas (lSess ?L) (cmdPlayer c)" using assms by (auto simp: seat_defs stHas_def less_2_cases_iff)
  have other: "[p, q] ! (1 - i) \<noteq> [p, q] ! i" using assms(1,4) by (auto simp: seat_defs less_2_cases_iff)
  have h: "\<exists>M. handleJoin (sNow S) c ?L = (M, Stay) \<and> seated room p q (S\<lparr>sLoop := M\<rparr>) \<and>
      shows_as (S\<lparr>sLoop := M\<rparr>) True True b [1 - i, i] rest l (n + 1)
        (sent @ told p q (\<lambda>_. PState ''ready'' room) @ told p q (viewMsg b (n + 1)))"
    using assms(1-3) other
    by (simp add: handleJoin_def cancelGrace_def countTrue_def status_def broadcast_told pushState_told onRoom_def
        andThen_def seat_defs)
  then show ?thesis
    using assms i(1) by (auto simp: settle_def onCmd_def handle_def andThen_def seat_defs)
qed

lemma take_action:
  assumes "seated room p q S" "shows_as S True True b on (c # rest) l n sent"
    and "cmdPlayer c = [p, q] ! i" "i < 2" "cmdType c \<in> {''play_card'', ''attack'', ''end_turn''}"
    and "decodeAction env (cmdData c) = Inr a0" "Apply b (cmdPlayer c) (a0\<lparr>aType := cmdType c\<rparr>) = (b', None)"
  shows "\<exists>T. step env TakeCmd S = Some T \<and> seated room p q T \<and>
    shows_as T (\<not> Over b') True b' on rest (Suc l) (n + 1)
      (sent @ told p q (viewMsg b' (n + 1)) @ (if Over b' then told p q (\<lambda>_. PGameOver (Winner b')) else []))"
proof -
  let ?L = "(sLoop S)\<lparr>lRoom := (lRoom (sLoop S))\<lparr>rInbox := rest\<rparr>\<rparr>"
  have i: "stHas (lSess ?L) (cmdPlayer c)" using assms by (auto simp: seat_defs stHas_def less_2_cases_iff)
  have h: "\<exists>M. handleAction env (sNow S) c ?L = (M, if Over b' then Return else Stay) \<and> seated room p q (S\<lparr>sLoop := M\<rparr>) \<and>
      shows_as (S\<lparr>sLoop := M\<rparr>) True True b' on rest (Suc l) (n + 1)
        (sent @ told p q (viewMsg b' (n + 1)) @ (if Over b' then told p q (\<lambda>_. PGameOver (Winner b')) else []))"
    using assms(1,2,6,7)
    by (simp add: handleAction_def recordEntry_def pushState_told gameOver_def broadcast_told onRoom_def andThen_def seat_defs)
  then obtain M where M: "handleAction env (sNow S) c ?L = (M, if Over b' then Return else Stay)"
    "seated room p q (S\<lparr>sLoop := M\<rparr>)"
    "shows_as (S\<lparr>sLoop := M\<rparr>) True True b' on rest (Suc l) (n + 1)
        (sent @ told p q (viewMsg b' (n + 1)) @ (if Over b' then told p q (\<lambda>_. PGameOver (Winner b')) else []))" by blast
  have c: "onCmd env (sNow S) c ?L = (if Over b' then M else checkTurn (sNow S) M, if Over b' then Return else Stay)"
    using M(1) i assms(5) by (auto simp: onCmd_def handle_def andThen_def)
  obtain x where x: "finish (sNow S) (lSess M) ''finished'' (lRoom M) = (lRoom M)\<lparr>rReports := x\<rparr>"
    using finish_frame by blast
  show ?thesis
    using assms(2) M(2,3) x by (simp add: settle_def c exitRun_def seat_defs)
qed

section \<open>What a bot does\<close>

text \<open>Messages no bot answers: room states, and views of at most sequence number \<open>k\<close> without a turn.\<close>

fun quietMsg :: "nat \<Rightarrow> Outgoing \<Rightarrow> bool" where
  "quietMsg k (RoomMsg (PState s r)) = True"
| "quietMsg k (RoomMsg (PView v)) = ((vOver v \<or> \<not> vYourTurn v) \<and> unat (vSeq v) \<le> k)"
| "quietMsg k _ = False"

lemma quietMsg_mono: "quietMsg k m \<Longrightarrow> k \<le> l \<Longrightarrow> quietMsg l m"
  by (cases "(k, m)" rule: quietMsg.cases) auto

lemma read_quiet:
  assumes "quietMsg k m" "unat (btLastSeq b) \<le> k" "onInbound x (decodeMsg say m) b = (b', e)"
  shows "e = Waiting \<and> btOut b' = btOut b \<and> btRes b' = btRes b \<and> unat (btLastSeq b') \<le> k"
  using assms
  by (cases "(k, m)" rule: quietMsg.cases)
    (auto simp: onInbound_def noMessage_def onState_def Let_def max_def split: option.splits if_splits)

lemma read_over:
  "onInbound x (decodeMsg say (RoomMsg (PGameOver w))) b = (b\<lparr>btRes := (btRes b)\<lparr>orWinner := w\<rparr>\<rparr>, GameDone)"
  by (simp add: onInbound_def noMessage_def)

lemma read_match:
  "biWrites x \<Longrightarrow> onInbound x (decodeMsg say (MatchFound room)) b =
     (b\<lparr>btRes := (btRes b)\<lparr>orRoomID := room\<rparr>, btWaits := btWaits b @ [biNow x - biEnqueued x], btOut := btOut b @ [SendJoin room]\<rparr>,
      Waiting)"
  by (simp add: onInbound_def noMessage_def botSend_def)

lemma read_turn:
  assumes s: "wf_state s" "\<not> Over s" "i = Turn s" and x: "bot_runs (cat s) x" and new: "btLastSeq b < n"
    and r: "onInbound x (decodeMsg say (RoomMsg (viewMsg s n i))) b = (b', e)"
  obtains a where "e = Waiting" "btOut b' = btOut b @ [SendAction (orRoomID (btRes b)) a]" "botAction (cat s) a"
    "snd (Apply s (pID (player s i)) a) = None" "btLastSeq b' = n" "orRoomID (btRes b') = orRoomID (btRes b)"
    "orIllegal (btRes b') = orIllegal (btRes b)" "orLimited (btRes b') = orLimited (btRes b)"
proof -
  let ?v = "(ViewFor s i)\<lparr>vSeq := n\<rparr>" and ?a = "chooseAction (ViewFor s i) (cat s) (biIntn x)"
  have intn: "\<And>n. 0 < n \<Longrightarrow> biIntn x n < n" and cat: "biCat x = cat s" "biWrites x" using x by (simp_all add: bot_runs_def)
  have v: "\<not> vOver ?v" "vYourTurn ?v" "vSeq ?v = n" using s by (simp_all add: ViewFor_def)
  have "onInbound x (decodeMsg say (RoomMsg (viewMsg s n i))) b = onState x (wireView ?v) b"
    by (simp add: onInbound_def noMessage_def viewMsg_def)
  moreover have "chooseAction (wireView ?v) (biCat x) (biIntn x) = ?a"
    unfolding chooseAction_wire chooseAction_seq cat ..
  ultimately have b': "e = Waiting \<and> btOut b' = btOut b @ [SendAction (orRoomID (btRes b)) ?a] \<and> btLastSeq b' = n \<and>
      orRoomID (btRes b') = orRoomID (btRes b) \<and> orIllegal (btRes b') = orIllegal (btRes b) \<and> orLimited (btRes b') = orLimited (btRes b)"
    using r new [folded not_le] v cat(2)
    by (auto simp: onState_def Let_def sendAction_def botSend_def split: option.splits)
  have "i < 2" using wf_stateD(2) [OF s(1)] s(3) by simp
  from chooseAction_botAction [OF s(1) this intn] chooseAction_legal [OF s(1,2,3) intn] b' show thesis
    by (intro that [of ?a]) simp_all
qed

end
