(* ===== verification/Bot_Finish.thy ===== *)
theory Bot_Finish
  imports Bot_Table
begin

text \<open>
  The invariant of the closed loop of \<open>Bot_Table\<close>: the phases \<open>joining\<close>, \<open>playing\<close> and \<open>closing\<close>,
  each with the number of moves made so far, every move going from one to itself or the next.
  While they play exactly one party is to move: the player on turn has still to read the newest
  view, or its one action waits in the inbox. The property: the game is played to its end.
\<close>

section \<open>The invariant of the table\<close>

definition unread :: "Table \<Rightarrow> nat \<Rightarrow> Outgoing list" where
  "unread T i = drop (tbRead T i) (toPlayer (tbSys T) i)"

definition tidy :: "botResult \<Rightarrow> bool" where
  "tidy res \<longleftrightarrow> orIllegal res = 0 \<and> orLimited res = 0"

text \<open>A bot that will only read on through \<open>ms\<close>.\<close>

definition waits :: "string \<Rightarrow> nat \<Rightarrow> Bot \<Rightarrow> BotEnd \<Rightarrow> Outgoing list \<Rightarrow> bool" where
  "waits room k b e ms \<longleftrightarrow>
     e = Waiting \<and> tidy (btRes b) \<and> orRoomID (btRes b) = room \<and> unat (btLastSeq b) \<le> k \<and> list_all (quietMsg k) ms"

definition new_bot :: "string \<Rightarrow> Bot \<Rightarrow> BotEnd \<Rightarrow> Outgoing list \<Rightarrow> bool" where
  "new_bot room b e ms \<longleftrightarrow> b = newBot \<and> e = Waiting \<and> (\<exists>us. ms = MatchFound room # us \<and> list_all (quietMsg 0) us)"

definition acting_bot :: "string \<Rightarrow> State \<Rightarrow> 64 word \<Rightarrow> Bot \<Rightarrow> BotEnd \<Rightarrow> Outgoing list \<Rightarrow> bool" where
  "acting_bot room b n y e ms \<longleftrightarrow>
     (\<exists>us. ms = us @ [RoomMsg (viewMsg b n (Turn b))] \<and> waits room (unat n - 1) y e us) \<and> 0 < unat n"

definition last_bot :: "string \<Rightarrow> string \<Rightarrow> Bot \<Rightarrow> BotEnd \<Rightarrow> Outgoing list \<Rightarrow> bool" where
  "last_bot room w b e ms \<longleftrightarrow>
     (\<exists>us k. ms = us @ [RoomMsg (PGameOver w)] \<and> waits room k b e us) \<or>
     e = GameDone \<and> tidy (btRes b) \<and> orWinner (btRes b) = w \<and> ms = []"

lemma waits_read:
  assumes "waits room k b e (m # ms)" "onInbound x (decodeMsg say m) b = (b', e')"
  shows "waits room k b' e' ms" "btOut b' = btOut b"
  using read_quiet [OF _ _ assms(2), of k] assms(1) by (simp_all add: waits_def)

lemma waits_more: "waits room k b e ms \<Longrightarrow> k \<le> l \<Longrightarrow> list_all (quietMsg l) us \<Longrightarrow> waits room l b e (ms @ us)"
  by (auto simp: waits_def list_all_iff intro: quietMsg_mono)

lemma new_more: "new_bot room b e ms \<Longrightarrow> list_all (quietMsg 0) us \<Longrightarrow> new_bot room b e (ms @ us)"
  by (auto simp: new_bot_def)

text \<open>\<open>on\<close> has joined, the commands of \<open>inb\<close> are waiting, the others have not read \<open>match_found\<close>.\<close>

definition joins :: "(Outbound \<Rightarrow> string) \<Rightarrow> string \<Rightarrow> string \<Rightarrow> string \<Rightarrow> State \<Rightarrow> nat list \<Rightarrow> nat list \<Rightarrow> Table \<Rightarrow> bool" where
  "joins enc room p q s0 on inb T \<longleftrightarrow>
     (\<exists>sent. seated room p q (tbSys T) \<and>
        shows_as (tbSys T) True False s0 on (map (\<lambda>i. cmdOf enc ([p, q] ! i) (SendJoin room)) inb) 0 0 sent) \<and>
     length on \<le> 1 \<and> distinct (on @ inb) \<and> set (on @ inb) \<subseteq> {0, 1} \<and>
     (\<forall>i < 2. length (toPlayer (tbSys T) i) = Suc (length on) \<and> tbRead T i \<le> Suc (length on) \<and>
        (if i \<in> set (on @ inb) then waits room 0 (tbBot T i) (tbEnd T i) (unread T i)
         else new_bot room (tbBot T i) (tbEnd T i) (unread T i)))"

definition joining :: "(Outbound \<Rightarrow> string) \<Rightarrow> string \<Rightarrow> string \<Rightarrow> string \<Rightarrow> State \<Rightarrow> Table \<Rightarrow> nat \<Rightarrow> bool" where
  "joining enc room p q s0 T k \<longleftrightarrow>
     (\<exists>on inb. joins enc room p q s0 on inb T \<and> k = tbRead T 0 + tbRead T 1 + length on)"

text \<open>Either the player on turn has still to read the newest view, or its one legal action is waiting.\<close>

definition token ::
  "(Outbound \<Rightarrow> string) \<Rightarrow> string \<Rightarrow> string list \<Rightarrow> Catalog \<Rightarrow> State \<Rightarrow> 64 word \<Rightarrow> Cmd list \<Rightarrow>
     (nat \<Rightarrow> Bot) \<Rightarrow> (nat \<Rightarrow> BotEnd) \<Rightarrow> (nat \<Rightarrow> Outgoing list) \<Rightarrow> bool" where
  "token enc room ps c b n inbox B E U \<longleftrightarrow>
     (inbox = [] \<and> acting_bot room b n (B (Turn b)) (E (Turn b)) (U (Turn b)) \<and>
        waits room (unat n) (B (1 - Turn b)) (E (1 - Turn b)) (U (1 - Turn b))) \<or>
     (\<exists>a. inbox = [cmdOf enc (ps ! Turn b) (SendAction room a)] \<and> botAction c a \<and> snd (Apply b (ps ! Turn b) a) = None \<and>
        (\<forall>i < 2. waits room (unat n) (B i) (E i) (U i)))"

definition in_play ::
  "(Outbound \<Rightarrow> string) \<Rightarrow> string \<Rightarrow> string \<Rightarrow> string \<Rightarrow> Catalog \<Rightarrow> nat \<Rightarrow>
     State \<Rightarrow> nat list \<Rightarrow> Cmd list \<Rightarrow> nat \<Rightarrow> 64 word \<Rightarrow> Table \<Rightarrow> bool" where
  "in_play enc room p q c F b on inbox l n T \<longleftrightarrow>
     (\<exists>sent. seated room p q (tbSys T) \<and> shows_as (tbSys T) True True b on inbox l n sent) \<and>
     \<not> Over b \<and> invar_game b \<and> cat b = c \<and> pID (player b 0) = p \<and> pID (player b 1) = q \<and>
     unat n = Suc l \<and> fuel b + l \<le> F \<and>
     (\<forall>i < 2. length (toPlayer (tbSys T) i) = l + 4 \<and> tbRead T i \<le> l + 4) \<and>
     token enc room [p, q] c b n inbox (tbBot T) (tbEnd T) (unread T)"

definition playing :: "(Outbound \<Rightarrow> string) \<Rightarrow> string \<Rightarrow> string \<Rightarrow> string \<Rightarrow> Catalog \<Rightarrow> nat \<Rightarrow> Table \<Rightarrow> nat \<Rightarrow> bool" where
  "playing enc room p q c F T k \<longleftrightarrow>
     (\<exists>b on inbox l n. in_play enc room p q c F b on inbox l n T \<and> k = tbRead T 0 + tbRead T 1 + 2 + l)"

definition closes :: "string \<Rightarrow> string \<Rightarrow> string \<Rightarrow> nat \<Rightarrow> State \<Rightarrow> nat \<Rightarrow> Table \<Rightarrow> bool" where
  "closes room p q F b l T \<longleftrightarrow>
     (\<exists>on n sent. seated room p q (tbSys T) \<and> shows_as (tbSys T) False True b on [] l n sent) \<and> Over b \<and> l \<le> F \<and>
     (\<forall>i < 2. length (toPlayer (tbSys T) i) = l + 5 \<and> tbRead T i \<le> l + 5 \<and>
        last_bot room (Winner b) (tbBot T i) (tbEnd T i) (unread T i))"

definition closing :: "string \<Rightarrow> string \<Rightarrow> string \<Rightarrow> nat \<Rightarrow> Table \<Rightarrow> nat \<Rightarrow> bool" where
  "closing room p q F T k \<longleftrightarrow>
     (\<exists>b l. closes room p q F b l T \<and> k = tbRead T 0 + tbRead T 1 + 2 + l)"

section \<open>Reading\<close>

lemma toPlayer_shows:
  "seated room p q S \<Longrightarrow> shows_as S running st b on inbox l n sent \<Longrightarrow>
     toPlayer S i = MatchFound room # sentTo ([p, q] ! i) sent"
  by (simp add: toPlayer_def seat_defs)

lemma deliver_none [simp]: "deliver env enc r [] S = S"
  by (simp add: deliver_def)

lemma deliver_one:
  assumes "seated room p q S" "shows_as S True st s on inbox l n sent" "length inbox < 64"
    and "btOut b' = btOut b @ [m]" "roomOf m = room"
  shows "seated room p q (deliver env enc r (drop (length (btOut b)) (btOut b')) S)"
    and "shows_as (deliver env enc r (drop (length (btOut b)) (btOut b')) S) True st s on (inbox @ [cmdOf enc r m]) l n sent"
  using assms by (simp_all add: deliver_def Send_def seat_defs)

lemma unread_Cons:
  "tbRead T i < length (toPlayer (tbSys T) i) \<Longrightarrow>
     unread T i = toPlayer (tbSys T) i ! tbRead T i # drop (Suc (tbRead T i)) (toPlayer (tbSys T) i)"
  by (simp add: unread_def Cons_nth_drop_Suc)

text \<open>The table after a read, with the room in state \<open>S\<close>.\<close>

definition after_read :: "Table \<Rightarrow> nat \<Rightarrow> Bot \<Rightarrow> BotEnd \<Rightarrow> System \<Rightarrow> Table" where
  "after_read T i b e S =
     T\<lparr>tbSys := S, tbBot := (tbBot T)(i := b), tbEnd := (tbEnd T)(i := e), tbRead := (tbRead T)(i := Suc (tbRead T i))\<rparr>"

lemma after_read_simps [simp]:
  "tbSys (after_read T i b e S) = S" "tbBot (after_read T i b e S) = (tbBot T)(i := b)"
  "tbEnd (after_read T i b e S) = (tbEnd T)(i := e)"
  "tbRead (after_read T i b e S) = (tbRead T)(i := Suc (tbRead T i))"
  by (simp_all add: after_read_def)

lemma after_read_unread:
  assumes "toPlayer S = toPlayer (tbSys T)" "unread T i = m # ms" "tbRead T i < length (toPlayer (tbSys T) i)"
  shows "unread (after_read T i b e S) = (unread T)(i := ms)"
  using assms unread_Cons [OF assms(3)] by (simp add: unread_def fun_eq_iff)

lemma after_read_count:
  "i < 2 \<Longrightarrow> tbRead (after_read T i b e S) 0 + tbRead (after_read T i b e S) 1 = Suc (tbRead T 0 + tbRead T 1)"
  by (auto simp: less_2_cases_iff)

lemma joining_read:
  assumes J: "joining enc room p q s0 T k" and i: "i < 2" and more: "tbRead T i < length (toPlayer (tbSys T) i)"
    and x: "bot_runs c x"
    and r: "onInbound x (decodeMsg say (toPlayer (tbSys T) i ! tbRead T i)) (tbBot T i) = (b, e)"
  shows "joining enc room p q s0 (after_read T i b e
    (deliver env enc (rPlayers (lRoom (sLoop (tbSys T))) ! i) (drop (length (btOut (tbBot T i))) (btOut b)) (tbSys T))) (Suc k)"
proof -
  let ?r = "rPlayers (lRoom (sLoop (tbSys T))) ! i"
  let ?S = "deliver env enc ?r (drop (length (btOut (tbBot T i))) (btOut b)) (tbSys T)"
  obtain on inb where J': "joins enc room p q s0 on inb T" and k: "k = tbRead T 0 + tbRead T 1 + length on"
    using J unfolding joining_def by blast
  then obtain sent where j: "seated room p q (tbSys T)"
      "shows_as (tbSys T) True False s0 on (map (\<lambda>i. cmdOf enc ([p, q] ! i) (SendJoin room)) inb) 0 0 sent"
      "length on \<le> 1" "distinct (on @ inb)" "set (on @ inb) \<subseteq> {0, 1}"
    and bots: "\<forall>i < 2. length (toPlayer (tbSys T) i) = Suc (length on) \<and> tbRead T i \<le> Suc (length on) \<and>
           (if i \<in> set (on @ inb) then waits room 0 (tbBot T i) (tbEnd T i) (unread T i)
            else new_bot room (tbBot T i) (tbEnd T i) (unread T i))"
    unfolding joins_def by blast
  obtain m ms where u: "unread T i = m # ms" "m = toPlayer (tbSys T) i ! tbRead T i" using unread_Cons [OF more] by blast
  note r' = r [folded u(2)]
  have reads: "tbRead T i < Suc (length on)" using bots i more by auto
  show ?thesis
  proof (cases "i \<in> set (on @ inb)")
    case True
    then have w: "waits room 0 (tbBot T i) (tbEnd T i) (m # ms)" using bots i u(1) by auto
    note w' = waits_read [OF w r']
    have S: "?S = tbSys T" using w'(2) by simp
    let ?T = "after_read T i b e (tbSys T)"
    have un: "unread ?T = (unread T)(i := ms)" by (rule after_read_unread [OF refl u(1) more])
    have "\<forall>j < 2. length (toPlayer (tbSys ?T) j) = Suc (length on) \<and> tbRead ?T j \<le> Suc (length on) \<and>
           (if j \<in> set (on @ inb) then waits room 0 (tbBot ?T j) (tbEnd ?T j) (unread ?T j)
            else new_bot room (tbBot ?T j) (tbEnd ?T j) (unread ?T j))"
      using bots w'(1) reads True i by (auto simp: un)
    then have "joins enc room p q s0 on inb ?T"
      unfolding joins_def using j(1,2) by (intro conjI j(3-5)) auto
    then show ?thesis using k after_read_count [OF i] unfolding S joining_def by (metis add_Suc)
  next
    case False
    then have n: "tbBot T i = newBot" "m = MatchFound room" "list_all (quietMsg 0) ms"
      using bots i u(1) by (auto simp: new_bot_def)
    have b: "b = newBot\<lparr>btRes := (btRes newBot)\<lparr>orRoomID := room\<rparr>, btWaits := btWaits newBot @ [biNow x - biEnqueued x],
        btOut := btOut newBot @ [SendJoin room]\<rparr>" "e = Waiting"
      using r' x unfolding n read_match [of x, OF x [unfolded bot_runs_def, THEN conjunct2, THEN conjunct2]] by simp_all
    have sends: "btOut b = btOut (tbBot T i) @ [SendJoin room]" by (simp add: b n)
    have "length (on @ inb) \<le> card {0, 1 :: nat}"
      using j(4,5) by (metis card_mono distinct_card finite.emptyI finite.insertI)
    then have few: "length inb < 64" by simp
    have D: "seated room p q ?S" "shows_as ?S True False s0 on
        (map (\<lambda>i. cmdOf enc ([p, q] ! i) (SendJoin room)) (inb @ [i])) 0 0 sent"
      using deliver_one [OF j(1,2) _ sends, of env enc ?r] j(1) few by (simp_all add: seat_defs del: cmdOf.simps)
    have same: "toPlayer ?S = toPlayer (tbSys T)" using toPlayer_shows [OF D] toPlayer_shows [OF j(1,2)] by auto
    let ?T = "after_read T i b e ?S"
    have un: "unread ?T = (unread T)(i := ms)" by (rule after_read_unread [OF same u(1) more])
    have "waits room 0 b e ms" using n(3) by (simp add: waits_def b tidy_def newBot_def)
    then have "\<forall>j < 2. length (toPlayer (tbSys ?T) j) = Suc (length on) \<and> tbRead ?T j \<le> Suc (length on) \<and>
           (if j \<in> set (on @ inb @ [i]) then waits room 0 (tbBot ?T j) (tbEnd ?T j) (unread ?T j)
            else new_bot room (tbBot ?T j) (tbEnd ?T j) (unread ?T j))"
      using bots reads i by (simp add: un same)
    moreover have "distinct (on @ inb @ [i])" "set (on @ inb @ [i]) \<subseteq> {0, 1}"
      using j(4,5) False i by auto
    moreover have "\<exists>sent. seated room p q (tbSys ?T) \<and> shows_as (tbSys ?T) True False s0 on
        (map (\<lambda>i. cmdOf enc ([p, q] ! i) (SendJoin room)) (inb @ [i])) 0 0 sent"
      using D by auto
    ultimately have "joins enc room p q s0 on (inb @ [i]) ?T"
      unfolding joins_def using j(3) by (intro conjI)
    then show ?thesis using k after_read_count [OF i] unfolding joining_def by (metis add_Suc)
  qed
qed

text \<open>A read passes the token on: nothing happens, or the action of the player on turn is sent.\<close>

lemma token_read:
  assumes tok: "token enc room ps c b n inbox B E U" and b: "wf_state b" "\<not> Over b" "cat b = c" "ps ! Turn b = pID (player b (Turn b))"
    and i: "i < 2" "U i = m # ms" and x: "bot_runs c x" and r: "onInbound x (decodeMsg say m) (B i) = (y, e)"
  shows "(btOut y = btOut (B i) \<and> token enc room ps c b n inbox (B(i := y)) (E(i := e)) (U(i := ms))) \<or>
    (\<exists>a. inbox = [] \<and> i = Turn b \<and> btOut y = btOut (B i) @ [SendAction room a] \<and>
       token enc room ps c b n [cmdOf enc (ps ! i) (SendAction room a)] (B(i := y)) (E(i := e)) (U(i := ms)))"
proof -
  have turn: "Turn b < 2" using wf_stateD(2) [OF b(1)] .
  then have other: "1 - Turn b \<noteq> Turn b" by arith
  from tok consider
      (act) "inbox = []" "acting_bot room b n (B (Turn b)) (E (Turn b)) (U (Turn b))"
        "waits room (unat n) (B (1 - Turn b)) (E (1 - Turn b)) (U (1 - Turn b))"
    | (sent) a where "inbox = [cmdOf enc (ps ! Turn b) (SendAction room a)]" "botAction c a" "snd (Apply b (ps ! Turn b) a) = None"
        "\<forall>i < 2. waits room (unat n) (B i) (E i) (U i)"
    unfolding token_def by blast
  then show ?thesis
  proof cases
    case sent
    with i have "waits room (unat n) (B i) (E i) (m # ms)" by auto
    note w = waits_read [OF this r]
    with sent have "token enc room ps c b n inbox (B(i := y)) (E(i := e)) (U(i := ms))"
      unfolding token_def by (auto simp del: cmdOf.simps)
    with w show ?thesis by blast
  next
    case act
    show ?thesis
    proof (cases "i = Turn b")
      case False
      then have "i = 1 - Turn b" using i(1) turn by arith
      with act i have "waits room (unat n) (B i) (E i) (m # ms)" by simp
      note w = waits_read [OF this r]
      with act False \<open>i = 1 - Turn b\<close> have "token enc room ps c b n inbox (B(i := y)) (E(i := e)) (U(i := ms))"
        by (simp add: token_def)
      with w show ?thesis by blast
    next
      case True
      with act obtain us where us: "m # ms = us @ [RoomMsg (viewMsg b n i)]" "waits room (unat n - 1) (B i) (E i) us" "0 < unat n"
        using i(2) by (auto simp: acting_bot_def)
      show ?thesis
      proof (cases us)
        case (Cons u us')
        then have u: "u = m" "ms = us' @ [RoomMsg (viewMsg b n i)]" using us(1) by simp_all
        note w = waits_read [OF us(2) [unfolded Cons u] r]
        with act True us(3) u other have "token enc room ps c b n inbox (B(i := y)) (E(i := e)) (U(i := ms))"
          by (auto simp: token_def acting_bot_def)
        with w show ?thesis by blast
      next
        case Nil
        then have u: "m = RoomMsg (viewMsg b n i)" "ms = []" using us(1) by simp_all
        have new: "btLastSeq (B i) < n" using us(2,3) by (auto simp: waits_def word_less_nat_alt)
        obtain a where a: "e = Waiting" "btOut y = btOut (B i) @ [SendAction (orRoomID (btRes (B i))) a]" "botAction c a"
            "snd (Apply b (pID (player b i)) a) = None" "btLastSeq y = n" "orRoomID (btRes y) = orRoomID (btRes (B i))"
            "orIllegal (btRes y) = orIllegal (btRes (B i))" "orLimited (btRes y) = orLimited (btRes (B i))"
          using read_turn [OF b(1,2) True x [folded b(3)] new r [unfolded u(1)]] b(3) by metis
        have w: "waits room (unat n) y e ms" using us(2) a u by (simp add: waits_def tidy_def)
        have all: "waits room (unat n) ((B(i := y)) j) ((E(i := e)) j) ((U(i := ms)) j)" if "j < 2" for j
        proof (cases "j = i")
          case False
          then have "j = 1 - Turn b" using that turn True by arith
          with False act(3) show ?thesis by simp
        qed (use w in simp)
        have legal: "snd (Apply b (ps ! Turn b) a) = None" using a(4) b(4) True by simp
        have "token enc room ps c b n [cmdOf enc (ps ! i) (SendAction room a)] (B(i := y)) (E(i := e)) (U(i := ms))"
          unfolding token_def True using all [unfolded True] legal a(3)
          by (intro disjI2 exI [of _ a] conjI refl) blast+
        with a act(1) True us(2) show ?thesis by (auto simp: waits_def)
      qed
    qed
  qed
qed

lemma playing_read:
  assumes P: "playing enc room p q c F T k" and i: "i < 2" and more: "tbRead T i < length (toPlayer (tbSys T) i)"
    and x: "bot_runs c x"
    and r: "onInbound x (decodeMsg say (toPlayer (tbSys T) i ! tbRead T i)) (tbBot T i) = (y, e)"
  shows "playing enc room p q c F (after_read T i y e
    (deliver env enc (rPlayers (lRoom (sLoop (tbSys T))) ! i) (drop (length (btOut (tbBot T i))) (btOut y)) (tbSys T))) (Suc k)"
proof -
  let ?r = "rPlayers (lRoom (sLoop (tbSys T))) ! i"
  let ?S = "deliver env enc ?r (drop (length (btOut (tbBot T i))) (btOut y)) (tbSys T)"
  let ?T = "after_read T i y e ?S"
  obtain b on inbox l n where g: "in_play enc room p q c F b on inbox l n T" and k: "k = tbRead T 0 + tbRead T 1 + 2 + l"
    using P unfolding playing_def by blast
  obtain sent where j: "seated room p q (tbSys T)" "shows_as (tbSys T) True True b on inbox l n sent"
    using g unfolding in_play_def by blast
  have b: "\<not> Over b" "invar_game b" "wf_state b" "cat b = c" "[p, q] ! Turn b = pID (player b (Turn b))"
    and tok: "token enc room [p, q] c b n inbox (tbBot T) (tbEnd T) (unread T)"
    and len: "\<And>i. i < 2 \<Longrightarrow> length (toPlayer (tbSys T) i) = l + 4 \<and> tbRead T i \<le> l + 4"
    using g wf_stateD(2) [of b] by (auto simp: in_play_def invar_game_def less_2_cases_iff)
  obtain m ms where u: "unread T i = m # ms" "m = toPlayer (tbSys T) i ! tbRead T i" using unread_Cons [OF more] by blast
  have ri: "?r = [p, q] ! i" using j(1) by (simp add: seat_defs)
  from token_read [OF tok b(3,1,4,5) i u(1) x r [folded u(2)]]
  obtain inbox' where D: "\<exists>sent. seated room p q ?S \<and> shows_as ?S True True b on inbox' l n sent \<and> toPlayer ?S = toPlayer (tbSys T)"
    and tok': "token enc room [p, q] c b n inbox' ((tbBot T)(i := y)) ((tbEnd T)(i := e)) ((unread T)(i := ms))"
  proof (elim disjE exE conjE)
    assume "btOut y = btOut (tbBot T i)"
      and "token enc room [p, q] c b n inbox ((tbBot T)(i := y)) ((tbEnd T)(i := e)) ((unread T)(i := ms))"
    with that [of inbox] j show thesis by auto
  next
    fix a assume a: "inbox = []" "btOut y = btOut (tbBot T i) @ [SendAction room a]"
      and t: "token enc room [p, q] c b n [cmdOf enc ([p, q] ! i) (SendAction room a)] ((tbBot T)(i := y)) ((tbEnd T)(i := e))
        ((unread T)(i := ms))"
    have D: "seated room p q ?S" "shows_as ?S True True b on [cmdOf enc ([p, q] ! i) (SendAction room a)] l n sent"
      using deliver_one [OF j _ a(2), of env enc ?r] a(1) ri by (simp_all del: cmdOf.simps)
    moreover have "toPlayer ?S = toPlayer (tbSys T)" using toPlayer_shows [OF D] toPlayer_shows [OF j] by auto
    ultimately show thesis using that [OF _ t] by blast
  qed
  have same: "toPlayer ?S = toPlayer (tbSys T)" using D by blast
  have "in_play enc room p q c F b on inbox' l n ?T"
    using D g tok' len i more unfolding in_play_def
    by (auto simp: same after_read_unread [OF same u(1) more])
  then show ?thesis using k after_read_count [OF i] unfolding playing_def by (metis add_Suc)
qed

lemma closing_read:
  assumes C: "closing room p q F T k" and i: "i < 2" and more: "tbRead T i < length (toPlayer (tbSys T) i)"
    and r: "onInbound x (decodeMsg say (toPlayer (tbSys T) i ! tbRead T i)) (tbBot T i) = (y, e)"
  shows "closing room p q F (after_read T i y e
    (deliver env enc (rPlayers (lRoom (sLoop (tbSys T))) ! i) (drop (length (btOut (tbBot T i))) (btOut y)) (tbSys T))) (Suc k)"
proof -
  let ?S = "deliver env enc (rPlayers (lRoom (sLoop (tbSys T))) ! i) (drop (length (btOut (tbBot T i))) (btOut y)) (tbSys T)"
  obtain b l where g: "closes room p q F b l T" and k: "k = tbRead T 0 + tbRead T 1 + 2 + l"
    using C unfolding closing_def by blast
  obtain m ms where u: "unread T i = m # ms" "m = toPlayer (tbSys T) i ! tbRead T i" using unread_Cons [OF more] by blast
  note r' = r [folded u(2)]
  have last: "last_bot room (Winner b) (tbBot T i) (tbEnd T i) (m # ms)" using g i u(1) by (auto simp: closes_def)
  then obtain us k' where us: "m # ms = us @ [RoomMsg (PGameOver (Winner b))]" "waits room k' (tbBot T i) (tbEnd T i) us"
    by (auto simp: last_bot_def)
  have "btOut y = btOut (tbBot T i) \<and> last_bot room (Winner b) y e ms"
  proof (cases us)
    case Nil
    then have m: "m = RoomMsg (PGameOver (Winner b))" "ms = []" using us(1) by simp_all
    from r' [unfolded m read_over] us(2) m show ?thesis by (auto simp: read_over last_bot_def waits_def tidy_def)
  next
    case (Cons u us')
    then have m: "u = m" "ms = us' @ [RoomMsg (PGameOver (Winner b))]" using us(1) by simp_all
    from waits_read [OF us(2) [unfolded Cons m(1)] r'] m(2) show ?thesis by (auto simp: last_bot_def)
  qed
  then have S: "?S = tbSys T" and y: "last_bot room (Winner b) y e ms" by simp_all
  have "closes room p q F b l (after_read T i y e (tbSys T))"
    using g y i more unfolding closes_def by (auto simp: after_read_unread [OF refl u(1) more])
  then show ?thesis using k after_read_count [OF i] unfolding S closing_def by (metis add_Suc)
qed

section \<open>The room takes a command\<close>

text \<open>The table after the room took one.\<close>

lemma toPlayer_more:
  assumes "seated room p q S" "shows_as S running st b on inbox l n sent"
    and "seated room p q S'" "shows_as S' running' st' b' on' inbox' l' n' (sent @ xs)" "i < 2"
  shows "toPlayer S' i = toPlayer S i @ sentTo ([p, q] ! i) xs"
  using toPlayer_shows [OF assms(1,2)] toPlayer_shows [OF assms(3,4)] by (simp add: sentTo_def)

lemma unread_more:
  "toPlayer S i = toPlayer (tbSys T) i @ ms \<Longrightarrow> tbRead T i \<le> length (toPlayer (tbSys T) i) \<Longrightarrow>
     unread (T\<lparr>tbSys := S\<rparr>) i = unread T i @ ms"
  by (simp add: unread_def)

lemma sentTo_append [simp]: "sentTo p [] = []" "sentTo p (xs @ ys) = sentTo p xs @ sentTo p ys"
  by (simp_all add: sentTo_def)

lemma sentTo_told' [simp]: "p \<noteq> q \<Longrightarrow> i < 2 \<Longrightarrow> sentTo ([p, q] ! i) (told p q f) = [RoomMsg (f i)]"
  by (auto simp: sentTo_def told_def less_2_cases_iff)

lemma quiet_other: "i \<noteq> Turn b \<or> Over b \<Longrightarrow> unat n \<le> k \<Longrightarrow> quietMsg k (RoomMsg (viewMsg b n i))"
  by (auto simp: viewMsg_def ViewFor_def)

lemma joiningI:
  "joins enc room p q s0 on inb T \<Longrightarrow> k = tbRead T 0 + tbRead T 1 + length on \<Longrightarrow> joining enc room p q s0 T k"
  by (auto simp: joining_def)

lemma playingI:
  "in_play enc room p q c F b on inbox l n T \<Longrightarrow> k = tbRead T 0 + tbRead T 1 + 2 + l \<Longrightarrow> playing enc room p q c F T k"
  unfolding playing_def by blast

lemma closingI:
  "closes room p q F b l T \<Longrightarrow> k = tbRead T 0 + tbRead T 1 + 2 + l \<Longrightarrow> closing room p q F T k"
  unfolding closing_def by blast

definition starts :: "string \<Rightarrow> string \<Rightarrow> Catalog \<Rightarrow> nat \<Rightarrow> State \<Rightarrow> bool" where
  "starts p q c F s0 \<longleftrightarrow>
     \<not> Over s0 \<and> invar_game s0 \<and> cat s0 = c \<and> pID (player s0 0) = p \<and> pID (player s0 1) = q \<and> fuel s0 \<le> F"

lemma joining_take:
  assumes J: "joining enc room p q s0 T k" and s0: "starts p q c F s0"
    and t: "step env (Tick d) (tbSys T) = Some S1" "step env TakeCmd S1 = Some S"
  shows "joining enc room p q s0 (T\<lparr>tbSys := S\<rparr>) (Suc k) \<or> playing enc room p q c F (T\<lparr>tbSys := S\<rparr>) (Suc k)"
proof -
  obtain on inb where J': "joins enc room p q s0 on inb T" and k: "k = tbRead T 0 + tbRead T 1 + length on"
    using J unfolding joining_def by blast
  then obtain sent where j: "seated room p q (tbSys T)"
      "shows_as (tbSys T) True False s0 on (map (\<lambda>i. cmdOf enc ([p, q] ! i) (SendJoin room)) inb) 0 0 sent"
      "length on \<le> 1" "distinct (on @ inb)" "set (on @ inb) \<subseteq> {0, 1}"
    and bots: "\<forall>i < 2. length (toPlayer (tbSys T) i) = Suc (length on) \<and> tbRead T i \<le> Suc (length on) \<and>
           (if i \<in> set (on @ inb) then waits room 0 (tbBot T i) (tbEnd T i) (unread T i)
            else new_bot room (tbBot T i) (tbEnd T i) (unread T i))"
    unfolding joins_def by blast
  have j1: "seated room p q S1" "shows_as S1 True False s0 on (map (\<lambda>i. cmdOf enc ([p, q] ! i) (SendJoin room)) inb) 0 0 sent"
    using j(1,2) t(1) by auto
  have pq: "p \<noteq> q" using j(1) by (simp add: seat_defs)
  obtain i inb' where inb: "inb = i # inb'" using t(2) j1(2) by (cases inb) (auto simp: seat_defs)
  have i: "i < 2" using j(5) inb by auto
  let ?c = "cmdOf enc ([p, q] ! i) (SendJoin room)"
  let ?rest = "map (\<lambda>i. cmdOf enc ([p, q] ! i) (SendJoin room)) inb'"
  have c: "cmdPlayer ?c = [p, q] ! i" "cmdType ?c = ''join''" by simp_all
  show ?thesis
  proof (cases on)
    case Nil
    have "shows_as S1 True False s0 [] (?c # ?rest) 0 0 sent" using j1(2) Nil inb by (simp del: cmdOf.simps)
    from take_first_join [OF j1(1) this c(1) i c(2), of env] t(2)
    have S: "seated room p q S" "shows_as S True False s0 [i] ?rest 0 0 (sent @ told p q (\<lambda>_. PState ''waiting'' room))"
      by auto
    have more: "toPlayer S j = toPlayer (tbSys T) j @ [RoomMsg (PState ''waiting'' room)]" if "j < 2" for j
      using toPlayer_more [OF j(1,2) S that] that pq by simp
    have un: "unread (T\<lparr>tbSys := S\<rparr>) j = unread T j @ [RoomMsg (PState ''waiting'' room)]" if "j < 2" for j
      by (rule unread_more [OF more [OF that]]) (use bots that in simp)
    have at: "if j \<in> set ([i] @ inb') then waits room 0 (tbBot T j) (tbEnd T j) (unread (T\<lparr>tbSys := S\<rparr>) j)
        else new_bot room (tbBot T j) (tbEnd T j) (unread (T\<lparr>tbSys := S\<rparr>) j)" if "j < 2" for j
    proof (cases "j \<in> set ([i] @ inb')")
      case True
      then have "waits room 0 (tbBot T j) (tbEnd T j) (unread T j)" using bots that Nil inb by simp
      from waits_more [OF this order_refl, of "[RoomMsg (PState ''waiting'' room)]"] True show ?thesis by (simp add: un that)
    next
      case False
      then have "new_bot room (tbBot T j) (tbEnd T j) (unread T j)" using bots that Nil inb by simp
      from new_more [OF this, of "[RoomMsg (PState ''waiting'' room)]"] False show ?thesis by (simp add: un that)
    qed
    have "\<forall>j < 2. length (toPlayer S j) = Suc (length [i]) \<and> tbRead T j \<le> Suc (length [i]) \<and>
        (if j \<in> set ([i] @ inb') then waits room 0 (tbBot T j) (tbEnd T j) (unread (T\<lparr>tbSys := S\<rparr>) j)
         else new_bot room (tbBot T j) (tbEnd T j) (unread (T\<lparr>tbSys := S\<rparr>) j))"
      using bots Nil by (intro allI impI conjI at) (simp_all add: more le_SucI)
    then have "joins enc room p q s0 [i] inb' (T\<lparr>tbSys := S\<rparr>)"
      unfolding joins_def using S j(4,5) Nil inb by auto
    then have "joining enc room p q s0 (T\<lparr>tbSys := S\<rparr>) (Suc k)"
      by (rule joiningI) (simp add: k Nil)
    then show ?thesis ..
  next
    case (Cons o' os)
    have on: "on = [1 - i]" "inb' = []"
      using j(3-5) Cons inb i by (cases inb'; auto simp: less_2_cases_iff)+
    have "shows_as S1 True False s0 [1 - i] [?c] 0 0 sent" using j1(2) on inb by (simp del: cmdOf.simps)
    from take_second_join [OF j1(1) this c(1) i c(2), of env] t(2)
    have S: "seated room p q S" "shows_as S True True s0 [1 - i, i] [] 0 1
        (sent @ told p q (\<lambda>_. PState ''ready'' room) @ told p q (viewMsg s0 1))"
      by auto
    let ?ms = "\<lambda>j. [RoomMsg (PState ''ready'' room), RoomMsg (viewMsg s0 1 j)]"
    have more: "toPlayer S j = toPlayer (tbSys T) j @ ?ms j" if "j < 2" for j
      using toPlayer_more [OF j(1,2) S that] that pq by simp
    have both: "waits room 0 (tbBot T j) (tbEnd T j) (unread T j)" "length (toPlayer (tbSys T) j) = 2" "tbRead T j \<le> 2"
      if "j < 2" for j
    proof -
      have "j \<in> set (on @ inb)" using that on inb i by (simp add: less_2_cases_iff) arith
      then show "waits room 0 (tbBot T j) (tbEnd T j) (unread T j)" "length (toPlayer (tbSys T) j) = 2" "tbRead T j \<le> 2"
        using bots that on by (simp_all add: numeral_2_eq_2)
    qed
    have un: "unread (T\<lparr>tbSys := S\<rparr>) j = unread T j @ ?ms j" if "j < 2" for j
      by (rule unread_more [OF more [OF that]]) (use both that in simp)
    have turn: "Turn s0 < 2" "1 - Turn s0 < 2" "1 - Turn s0 \<noteq> Turn s0"
      using s0 wf_stateD(2) [of s0] by (auto simp: starts_def invar_game_def)
    have "acting_bot room s0 1 (tbBot T (Turn s0)) (tbEnd T (Turn s0)) (unread (T\<lparr>tbSys := S\<rparr>) (Turn s0))"
      unfolding acting_bot_def un [OF turn(1)]
      using waits_more [OF both(1) [OF turn(1)] order_refl, of "[RoomMsg (PState ''ready'' room)]"]
      by (auto intro!: exI [of _ "unread T (Turn s0) @ [RoomMsg (PState ''ready'' room)]"])
    moreover have "waits room 1 (tbBot T (1 - Turn s0)) (tbEnd T (1 - Turn s0)) (unread (T\<lparr>tbSys := S\<rparr>) (1 - Turn s0))"
      unfolding un [OF turn(2)] using turn(3) by (intro waits_more [OF both(1) [OF turn(2)]]) (simp_all add: quiet_other)
    ultimately have "token enc room [p, q] c s0 1 [] (tbBot T) (tbEnd T) (unread (T\<lparr>tbSys := S\<rparr>))"
      by (simp add: token_def)
    moreover have "\<forall>j < 2. length (toPlayer S j) = 4 \<and> tbRead T j \<le> 4"
      using both(2) by (auto simp: more intro: le_trans [OF both(3)])
    ultimately have "in_play enc room p q c F s0 [1 - i, i] [] 0 1 (T\<lparr>tbSys := S\<rparr>)"
      unfolding in_play_def using S s0 by (auto simp: starts_def)
    then have "playing enc room p q c F (T\<lparr>tbSys := S\<rparr>) (Suc k)" by (rule playingI) (simp add: k on)
    then show ?thesis ..
  qed
qed

lemma playing_take:
  assumes P: "playing enc room p q c F T k" and F: "F < 2 ^ 63" and env: "codec env enc c"
    and t: "step env (Tick d) (tbSys T) = Some S1" "step env TakeCmd S1 = Some S"
  shows "playing enc room p q c F (T\<lparr>tbSys := S\<rparr>) (Suc k) \<or> closing room p q F (T\<lparr>tbSys := S\<rparr>) (Suc k)"
proof -
  obtain b on inbox l n where g: "in_play enc room p q c F b on inbox l n T" and k: "k = tbRead T 0 + tbRead T 1 + 2 + l"
    using P unfolding playing_def by blast
  obtain sent where j: "seated room p q (tbSys T)" "shows_as (tbSys T) True True b on inbox l n sent"
    using g unfolding in_play_def by blast
  have b: "invar_game b" "wf_state b" "cat b = c" "pID (player b 0) = p" "pID (player b 1) = q" "unat n = Suc l" "fuel b + l \<le> F"
    and tok: "token enc room [p, q] c b n inbox (tbBot T) (tbEnd T) (unread T)"
    and len: "\<And>i. i < 2 \<Longrightarrow> length (toPlayer (tbSys T) i) = l + 4 \<and> tbRead T i \<le> l + 4"
    using g by (auto simp: in_play_def invar_game_def)
  have j1: "seated room p q S1" "shows_as S1 True True b on inbox l n sent" using j t(1) by auto
  have "inbox \<noteq> []" using t(2) j1(2) by (auto simp: seat_defs)
  let ?i = "Turn b"
  obtain a where a: "inbox = [cmdOf enc ([p, q] ! ?i) (SendAction room a)]" "botAction c a"
      "snd (Apply b ([p, q] ! ?i) a) = None" "\<forall>i < 2. waits room (unat n) (tbBot T i) (tbEnd T i) (unread T i)"
    using tok \<open>inbox \<noteq> []\<close> unfolding token_def by blast
  have i: "?i < 2" by (rule wf_stateD(2) [OF b(2)])
  let ?c = "cmdOf enc ([p, q] ! ?i) (SendAction room a)"
  have c: "cmdPlayer ?c = [p, q] ! ?i" "cmdType ?c \<in> {''play_card'', ''attack'', ''end_turn''}"
    using a(2) by (simp_all add: botAction_def)
  obtain a0 where a0: "decodeAction env (cmdData ?c) = Inr a0" "a0\<lparr>aType := cmdType ?c\<rparr> = a"
    using env a(2) unfolding codec_def by fastforce
  obtain b' where ap: "Apply b (cmdPlayer ?c) (a0\<lparr>aType := cmdType ?c\<rparr>) = (b', None)"
    using a(3) unfolding a0(2) by (metis c(1) prod.collapse)
  have b': "invar_game b'" "fuel b' < fuel b" "cat b' = c" "pID (player b' 0) = p" "pID (player b' 1) = q"
    using game_rules.invar_app [OF b(1), of "cmdPlayer ?c" "a0\<lparr>aType := cmdType ?c\<rparr>"]
      game_rules.accept_decreases [OF b(1) ap] b(3-5) wf_stateD(1) [OF b(2)]
      Apply_const [of b "cmdPlayer ?c" "a0\<lparr>aType := cmdType ?c\<rparr>"] ap by simp_all
  have un': "unat (n + 1) = Suc (Suc l)" using b(6,7) F by (simp add: unat_word_ariths)
  have "shows_as S1 True True b on [?c] l n sent" using j1(2) a(1) by (simp del: cmdOf.simps)
  from take_action [OF j1(1) this c(1) i c(2) a0(1) ap] t(2)
  have S: "seated room p q S" "shows_as S (\<not> Over b') True b' on [] (Suc l) (n + 1) (sent @ (told p q (viewMsg b' (n + 1)) @
      (if Over b' then told p q (\<lambda>_. PGameOver (Winner b')) else [])))"
    by auto
  have pq: "p \<noteq> q" using j(1) by (simp add: seat_defs)
  let ?ms = "\<lambda>j. RoomMsg (viewMsg b' (n + 1) j) # (if Over b' then [RoomMsg (PGameOver (Winner b'))] else [])"
  have more: "toPlayer S j = toPlayer (tbSys T) j @ ?ms j" if "j < 2" for j
    using toPlayer_more [OF j S that] that pq by simp
  have un: "unread (T\<lparr>tbSys := S\<rparr>) j = unread T j @ ?ms j" if "j < 2" for j
    by (rule unread_more [OF more [OF that]]) (use len that in simp)
  show ?thesis
  proof (cases "Over b'")
    case True
    have "last_bot room (Winner b') (tbBot T j) (tbEnd T j) (unread (T\<lparr>tbSys := S\<rparr>) j)" if "j < 2" for j
    proof -
      have "waits room (unat (n + 1)) (tbBot T j) (tbEnd T j) (unread T j @ [RoomMsg (viewMsg b' (n + 1) j)])"
        using a(4) that True by (intro waits_more [of _ "unat n"]) (simp_all add: quiet_other un' b(6))
      then show ?thesis unfolding un [OF that] last_bot_def using True by auto
    qed
    then have "closes room p q F b' (Suc l) (T\<lparr>tbSys := S\<rparr>)"
      unfolding closes_def using S True b(7) b'(2) len by (auto simp: more intro: le_trans [OF len [THEN conjunct2]])
    then have "closing room p q F (T\<lparr>tbSys := S\<rparr>) (Suc k)" by (rule closingI) (simp add: k)
    then show ?thesis ..
  next
    case False
    have turn: "Turn b' < 2" "1 - Turn b' < 2" "1 - Turn b' \<noteq> Turn b'"
      using b'(1) wf_stateD(2) [of b'] by (auto simp: invar_game_def)
    have "acting_bot room b' (n + 1) (tbBot T (Turn b')) (tbEnd T (Turn b')) (unread (T\<lparr>tbSys := S\<rparr>) (Turn b'))"
      unfolding acting_bot_def un [OF turn(1)] using False a(4) turn(1) un' b(6) by auto
    moreover have "waits room (unat (n + 1)) (tbBot T (1 - Turn b')) (tbEnd T (1 - Turn b'))
        (unread (T\<lparr>tbSys := S\<rparr>) (1 - Turn b'))"
      unfolding un [OF turn(2)] using turn(2,3) a(4) False by (intro waits_more [of _ "unat n"]) (simp_all add: quiet_other un' b(6))
    ultimately have "token enc room [p, q] c b' (n + 1) [] (tbBot T) (tbEnd T) (unread (T\<lparr>tbSys := S\<rparr>))"
      by (simp add: token_def)
    then have "in_play enc room p q c F b' on [] (Suc l) (n + 1) (T\<lparr>tbSys := S\<rparr>)"
      unfolding in_play_def using S False b' b(7) un' len by (auto simp: more intro: le_trans [OF len [THEN conjunct2]])
    then have "playing enc room p q c F (T\<lparr>tbSys := S\<rparr>) (Suc k)" by (rule playingI) (simp add: k)
    then show ?thesis ..
  qed
qed

section \<open>The run\<close>

definition running ::
  "(Outbound \<Rightarrow> string) \<Rightarrow> string \<Rightarrow> string \<Rightarrow> string \<Rightarrow> Catalog \<Rightarrow> nat \<Rightarrow> State \<Rightarrow> Table \<Rightarrow> nat \<Rightarrow> bool" where
  "running enc room p q c F s0 T k \<longleftrightarrow>
     joining enc room p q s0 T k \<or> playing enc room p q c F T k \<or> closing room p q F T k"

lemma moves_running:
  assumes "starts p q c F s0" "F < 2 ^ 63" "codec env enc c"
    and "running enc room p q c F s0 T k" "moves env enc say c T U"
  shows "running enc room p q c F s0 U (Suc k)"
  using assms(5)
proof cases
  case (read i x b e S)
  from assms(4) [unfolded running_def] show ?thesis
  proof (elim disjE)
    assume "joining enc room p q s0 T k"
    from joining_read [OF this read(2,4,5,6), of env] show ?thesis unfolding running_def after_read_def read(1,7) by blast
  next
    assume "playing enc room p q c F T k"
    from playing_read [OF this read(2,4,5,6), of env] show ?thesis unfolding running_def after_read_def read(1,7) by blast
  next
    assume "closing room p q F T k"
    from closing_read [OF this read(2,4,6), of env enc] show ?thesis unfolding running_def after_read_def read(1,7) by blast
  qed
next
  case (take d S S')
  have "\<not> closing room p q F T k"
    using take(2,3) by (auto simp: closing_def closes_def seat_defs)
  then show ?thesis
    using assms(4) joining_take [OF _ assms(1) take(2,3)] playing_take [OF _ assms(2,3) take(2,3)]
    unfolding running_def take(1) by blast
qed

lemma running_bound:
  assumes "running enc room p q c F s0 T k"
  shows "k \<le> 3 * F + 12"
  using assms unfolding running_def
proof (elim disjE)
  assume "joining enc room p q s0 T k"
  then show ?thesis unfolding joining_def joins_def by (auto simp: all_less_two)
next
  assume "playing enc room p q c F T k"
  then show ?thesis unfolding playing_def in_play_def by (auto simp: all_less_two)
next
  assume "closing room p q F T k"
  then show ?thesis unfolding closing_def closes_def by (auto simp: all_less_two)
qed

lemma runs_running:
  assumes "starts p q c F s0" "F < 2 ^ 63" "codec env enc c"
    and "running enc room p q c F s0 T j" "(moves env enc say c ^^ k) T U"
  shows "running enc room p q c F s0 U (j + k)"
  using assms(5)
proof (induction k arbitrary: U)
  case (Suc k)
  then obtain V where V: "(moves env enc say c ^^ k) T V" "moves env enc say c V U" by auto
  from moves_running [OF assms(1-3) Suc.IH [OF V(1)] V(2)] show ?case by simp
qed (use assms(4) in simp)

text \<open>A table of a running game never stands still: some bot has a message to read, or the room a command to take.\<close>

lemma read_possible:
  assumes "i < 2" "tbEnd T i = Waiting" "unread T i \<noteq> []"
  shows "\<exists>U. moves env enc say c T U"
proof -
  let ?x = "\<lparr>biCat = c, biIntn = (\<lambda>_. 0), biEnqueued = 0, biNow = 0, biLater = 0, biWrites = True\<rparr>"
  have "tbRead T i < length (toPlayer (tbSys T) i)" using assms(3) by (simp add: unread_def)
  from moves.read [OF assms(1,2) this, of c ?x] show ?thesis
    by (metis (no_types, lifting) BotIn.select_convs(1,2,6) bot_runs_def prod.collapse)
qed

lemma take_possible:
  assumes "sRunning (tbSys T)" "rInbox (lRoom (sLoop (tbSys T))) \<noteq> []"
  shows "\<exists>U. moves env enc say c T U"
proof -
  have tick: "step env (Tick 0) (tbSys T) = Some (tbSys T)" by simp
  obtain S where "step env TakeCmd (tbSys T) = Some S" using assms by (cases "rInbox (lRoom (sLoop (tbSys T)))") auto
  from moves.take [OF tick this] show ?thesis by blast
qed

lemma running_moves:
  assumes "running enc room p q c F s0 T k" "i < 2" "tbEnd T i \<noteq> GameDone"
  shows "\<exists>U. moves env enc say c T U"
  using assms(1) unfolding running_def
proof (elim disjE)
  assume "joining enc room p q s0 T k"
  then obtain on inb where j: "joins enc room p q s0 on inb T" by (auto simp: joining_def)
  show ?thesis
  proof (cases inb)
    case Nil
    obtain j where "j < 2" "j \<notin> set (on @ inb)"
      using j Nil unfolding joins_def by (cases on) (auto simp: less_2_cases_iff)
    with j have "new_bot room (tbBot T j) (tbEnd T j) (unread T j)" by (auto simp: joins_def)
    with \<open>j < 2\<close> show ?thesis by (intro read_possible [of j]) (auto simp: new_bot_def)
  next
    case Cons
    with j show ?thesis by (intro take_possible) (auto simp: joins_def seat_defs)
  qed
next
  assume "playing enc room p q c F T k"
  then obtain b on inbox l n where g: "in_play enc room p q c F b on inbox l n T" by (auto simp: playing_def)
  then have tok: "token enc room [p, q] c b n inbox (tbBot T) (tbEnd T) (unread T)"
    and turn: "Turn b < 2" using wf_stateD(2) [of b] by (auto simp: in_play_def invar_game_def)
  show ?thesis
  proof (cases "inbox = []")
    case True
    then have "acting_bot room b n (tbBot T (Turn b)) (tbEnd T (Turn b)) (unread T (Turn b))"
      using tok by (auto simp: token_def)
    with turn show ?thesis by (intro read_possible [of "Turn b"]) (auto simp: acting_bot_def waits_def)
  next
    case False
    with g show ?thesis by (intro take_possible) (auto simp: in_play_def seat_defs)
  qed
next
  assume "closing room p q F T k"
  then obtain b l where "closes room p q F b l T" unfolding closing_def by blast
  then have "last_bot room (Winner b) (tbBot T i) (tbEnd T i) (unread T i)" using assms(2) by (simp add: closes_def)
  with assms(2,3) show ?thesis by (intro read_possible [of i]) (auto simp: last_bot_def waits_def)
qed

lemma running_done:
  assumes "running enc room p q c F s0 T k" "\<forall>i < 2. tbEnd T i = GameDone"
  obtains b where "\<not> sRunning (tbSys T)" "rBattle (lRoom (sLoop (tbSys T))) = Some b" "Over b"
    "stStarted (lSess (sLoop (tbSys T)))"
    "\<And>i. i < 2 \<Longrightarrow> tidy (btRes (tbBot T i)) \<and> orWinner (btRes (tbBot T i)) = Winner b"
proof -
  have no: "\<not> joining enc room p q s0 T k"
    using assms(2) by (auto simp: joining_def joins_def all_less_two waits_def new_bot_def split: if_splits)
  have "\<not> playing enc room p q c F T k"
  proof
    assume "playing enc room p q c F T k"
    then obtain b n inbox where "token enc room [p, q] c b n inbox (tbBot T) (tbEnd T) (unread T)" "Turn b < 2"
      using wf_stateD(2) by (fastforce simp: playing_def in_play_def invar_game_def)
    with assms(2) show False by (auto simp: token_def acting_bot_def waits_def all_less_two less_2_cases_iff)
  qed
  with no assms(1) have "closing room p q F T k" by (simp add: running_def)
  then obtain b l where b: "closes room p q F b l T" unfolding closing_def by blast
  show thesis
    by (rule that [of b]) (use b assms(2) in \<open>auto simp: closes_def seat_defs last_bot_def waits_def\<close>)
qed

lemma deliver_reach: "reach env S0 S \<Longrightarrow> reach env S0 (deliver env enc p ms S)"
proof (induction ms arbitrary: S)
  case (Cons m ms)
  obtain S' where "step env (Arrive (cmdOf enc p m)) S = Some S'" by (auto simp: case_prod_beta Let_def)
  with Cons.IH [of S'] Cons.IH [OF Cons.prems] reach.step [OF Cons.prems] show ?case
    by (simp add: deliver_def del: step.simps)
qed simp

lemma moves_reach:
  assumes "moves env enc say c T U" "reach env S0 (tbSys T)"
  shows "reach env S0 (tbSys U)"
  using assms(1)
proof cases
  case (read i x b e S)
  then show ?thesis using deliver_reach [OF assms(2)] by simp
next
  case (take d S S')
  from reach.step [OF reach.step [OF assms(2) take(2)] take(3)] show ?thesis by (simp add: take(1))
qed

lemma runs_reach:
  "(moves env enc say c ^^ k) T U \<Longrightarrow> reach env S0 (tbSys T) \<Longrightarrow> reach env S0 (tbSys U)"
  by (induction k arbitrary: U) (auto elim!: relcomppE intro: moves_reach)

section \<open>Whatever the order, the game is played to its end\<close>

definition played_out :: "Table \<Rightarrow> bool" where
  "played_out T \<longleftrightarrow>
     (let r = lRoom (sLoop (tbSys T)) in
      \<not> sRunning (tbSys T) \<and>
      (\<exists>b rep. rBattle r = Some b \<and> Over b \<and> rReports r = [rep] \<and> repReason rep = ''finished'' \<and>
         repWinner rep = Winner b \<and>
         (\<forall>i < 2. tbEnd T i = GameDone \<and> orWinner (btRes (tbBot T i)) = Winner b \<and>
            orIllegal (btRes (tbBot T i)) = 0 \<and> orLimited (btRes (tbBot T i)) = 0)))"

lemma new_running:
  assumes "pID (player s0 0) \<noteq> pID (player s0 1)"
  shows "running enc room (pID (player s0 0)) (pID (player s0 1)) c F s0
    (newTable (initSystem now (createdRoom s0 room (pID (player s0 0)) (pID (player s0 1)) (Some (\<lambda>_. False)) f))) 0"
proof -
  let ?p = "pID (player s0 0)" and ?q = "pID (player s0 1)"
  let ?T = "newTable (initSystem now (createdRoom s0 room ?p ?q (Some (\<lambda>_. False)) f))"
  have S: "seated room ?p ?q (tbSys ?T)" "shows_as (tbSys ?T) True False s0 [] [] 0 0 []"
    using assms by (simp_all add: newTable_def initSystem_def initLoop_def createdRoom_def NewRoom_def newSession_def seat_defs)
  have "toPlayer (tbSys ?T) i = [MatchFound room]" for i using toPlayer_shows [OF S] by (simp add: sentTo_def)
  then have "joins enc room ?p ?q s0 [] [] ?T"
    using S by (auto simp: joins_def new_bot_def unread_def) (auto simp: newTable_def)
  then have "joining enc room ?p ?q s0 ?T 0" by (rule joiningI) (simp add: newTable_def)
  then show ?thesis by (simp add: running_def)
qed

text \<open>
  C10. Two bots and a room, in whatever order the bots read and the room takes commands: the game comes to its end
  after at most 21 moves per card of the two decks plus 102, and never stops before; in the end
  the room has closed with one report of a finished game, both bots have been told the winner
  the report names, and none of their actions was refused.
\<close>
theorem bots_finish_game:
  assumes "NewState sw room (Some c) \<lparr>iID = p, iCards = da\<rparr> \<lparr>iID = q, iCards = db\<rparr> seed = Inr s0"
    and "shuffle_ok sw" "wf_catalog c" "decoder_ok env" "codec env enc c"
    and "length da + length db < 2 ^ 60"
    and "(moves env enc say c ^^ k) (newTable (initSystem now (createdRoom s0 room p q (Some (\<lambda>_. False)) True))) T"
  shows "k \<le> 21 * (length da + length db) + 102 \<and> (played_out T \<or> (\<exists>U. moves env enc say c T U))"
proof -
  let ?r0 = "createdRoom s0 room p q (Some (\<lambda>_. False)) True"
  note new = NewState_players [OF assms(1,2)]
  have ids: "pID (player s0 0) = p" "pID (player s0 1) = q" using new by simp_all
  have inv: "invar_game s0" by (rule NewState_invar [OF assms(1-3)])
  then have "p \<noteq> q" using ids by (auto simp: invar_game_def wf_state_parts)
  have F: "fuel s0 = 7 * (length da + length db) + 30" using NewState_fuel [OF assms(1,2)] by simp
  have "cat s0 = c" using assms(1) by (auto simp: NewState_Inr)
  then have st: "starts p q c (fuel s0) s0" using new ids inv by (simp add: starts_def)
  have "running enc room p q c (fuel s0) s0 (newTable (initSystem now ?r0)) 0"
    using new_running [of s0 enc room c "fuel s0" now True] \<open>p \<noteq> q\<close> unfolding ids by simp
  from runs_running [OF st _ assms(5) this assms(7)] F assms(6)
  have run: "running enc room p q c (fuel s0) s0 T k" by simp
  have "played_out T" if fin: "\<forall>i < 2. tbEnd T i = GameDone"
  proof -
    obtain b where b: "\<not> sRunning (tbSys T)" "rBattle (lRoom (sLoop (tbSys T))) = Some b" "Over b"
        "stStarted (lSess (sLoop (tbSys T)))"
        "\<And>i. i < 2 \<Longrightarrow> tidy (btRes (tbBot T i)) \<and> orWinner (btRes (tbBot T i)) = Winner b"
      using running_done [OF run fin] by blast
    have reach: "reach env (initSystem now ?r0) (tbSys T)"
      by (rule runs_reach [OF assms(7)]) (simp add: newTable_def reach.init)
    have "closed_ok env s0 (sNow (tbSys T)) (sLoop (tbSys T))"
      using hosts_reach [OF created_hosts [OF assms(1-4)] reach] b(1) by (simp add: sys_ok_def)
    moreover have "rOnFinish (lRoom (sLoop (tbSys T)))"
      using reach_setup [OF reach assms(4)] by (simp add: same_setup_def initSystem_def initLoop_def createdRoom_def)
    ultimately obtain rep where "rReports (lRoom (sLoop (tbSys T))) = [rep]" "report_fits (lRoom (sLoop (tbSys T))) b rep"
      using b by (auto simp: closed_ok_def report_part_def)
    then show ?thesis using b fin by (auto simp: played_out_def Let_def report_fits_def tidy_def)
  qed
  then show ?thesis using running_bound [OF run] running_moves [OF run] F by auto
qed

section \<open>A game of two bots on the sample decks\<close>

text \<open>A JSON of its own: each field escaped character by character and ended by a dot.\<close>

fun field :: "string \<Rightarrow> string" where
  "field [] = ''.''"
| "field (x # xs) = CHR ''+'' # x # field xs"

fun readField :: "string \<Rightarrow> string \<times> string" where
  "readField (y # x # xs) = (if y = CHR ''+'' then (x # fst (readField xs), snd (readField xs)) else ([], x # xs))"
| "readField _ = ([], [])"

fun sample_enc :: "Outbound \<Rightarrow> string" where
  "sample_enc (SendJoin room) = []"
| "sample_enc (SendAction room a) = field (aCardID a) @ field (aInstID a) @ field (aTarget a)"

definition sample_dec :: "string \<Rightarrow> string + Action" where
  "sample_dec d =
     (if d = [] then Inl ''empty''
      else (let (x, d1) = readField d; (y, d2) = readField d1; (z, d3) = readField d2
        in Inr \<lparr>aType = [], aCardID = x, aInstID = y, aTarget = z\<rparr>))"

lemma readField_field [simp]: "readField (field xs @ ys) = (xs, ys)"
  by (induction xs) (cases ys; simp)+

lemma field_nonempty [simp]: "field xs \<noteq> []"
  by (cases xs) simp_all

lemma sample_dec_enc:
  "sample_dec (sample_enc (SendAction room a)) = Inr (a\<lparr>aType := []\<rparr>)"
  using readField_field [of "aTarget a" "[]"] by (simp add: sample_dec_def)

definition sample_botEnv :: Env where
  "sample_botEnv = \<lparr>decodeAction = sample_dec, quoteRest = id\<rparr>"

lemma sample_codec: "codec sample_botEnv sample_enc c"
  by (simp add: codec_def sample_botEnv_def sample_dec_enc del: sample_enc.simps)

theorem bots_finish_game_witness:
  "\<exists>k T. (moves sample_botEnv sample_enc (\<lambda>_. []) sample_catalog ^^ k)
      (newTable (initSystem 0 (createdRoom sample_state ''room'' ''alice'' ''bob'' (Some (\<lambda>_. False)) True))) T \<and> played_out T"
proof -
  let ?m = "moves sample_botEnv sample_enc (\<lambda>_. []) sample_catalog"
    and ?T0 = "newTable (initSystem 0 (createdRoom sample_state ''room'' ''alice'' ''bob'' (Some (\<lambda>_. False)) True))"
  have "decoder_ok sample_botEnv" "length (iCards sample_a) + length (iCards sample_b) < 2 ^ 60"
    by (simp_all add: decoder_ok_def sample_botEnv_def sample_dec_def sample_a_def sample_b_def)
  note ends = bots_finish_game [OF sample_new sample_swaps_ok sample_catalog_wf this(1) sample_codec this(2)]
  define k where "k = (GREATEST k. \<exists>T. (?m ^^ k) ?T0 T)"
  have "\<exists>T. (?m ^^ k) ?T0 T"
    unfolding k_def by (rule GreatestI_nat [of _ 0]) (use ends in \<open>auto\<close>)
  then obtain T where T: "(?m ^^ k) ?T0 T" ..
  have "\<not> (\<exists>U. ?m T U)"
  proof
    assume "\<exists>U. ?m T U"
    with T have "\<exists>U. (?m ^^ Suc k) ?T0 U" by auto
    then have "Suc k \<le> k" unfolding k_def by (rule Greatest_le_nat) (use ends in \<open>auto\<close>)
    then show False by simp
  qed
  with ends [OF T] T show ?thesis by blast
qed

end
