(* ===== verification/Bot_Main.thy ===== *)
theory Bot_Main
  imports Load_Test
begin

text \<open>
  \<open>main\<close> of \<open>scripts/bot\<close> in its two modes, over the parts of \<open>Load_Test\<close>: the order in which a
  load test reads the card table, creates accounts, reads the metrics page, plays, reads the
  page again and stores its report, with the error each of these ends it by, and the exit
  code. The numbers among the flags are not negative. Printing is not modelled.
\<close>

section \<open>A load test from its flags to its report\<close>

record loadConfig =
  lfPlayers :: nat
  lfPrefix :: string
  lfPass :: string
  lfGames :: nat
  lfDSN :: string
  lfJSONOut :: string
  lfCardPath :: string

text \<open>
  What a run meets: the card file and its parser, the driver, the hash of the password, the
  statements on the database, the page before and after the games and at the polls, the
  times of the logins that succeed, every player by name, and the file for the report.
\<close>

record 'db BotEnv =
  beReadFile :: "string \<Rightarrow> string + string"
  beUnmarshal :: "string \<Rightarrow> string + Card list"
  beOpen :: "string \<Rightarrow> string option"
  beHash :: "string \<Rightarrow> string + string"
  beExec :: "string \<Rightarrow> string list \<Rightarrow> string \<Rightarrow> 'db \<Rightarrow> 'db \<times> string option"
  beBefore :: "string + string"
  beAfter :: "string + string"
  bePolls :: "(string + string) list"
  beLogins :: "int list"
  bePlayer :: "string \<Rightarrow> PlayerIn"
  beWrite :: "string \<Rightarrow> loadReport \<Rightarrow> string option"

datatype LoadFail = LfTable LoadErr | LfUsers string | LfBefore string | LfAfter string | LfWrite string

text \<open>Up to the first reading of the page, which is what it returns.\<close>

definition loadSetup :: "'db BotEnv \<Rightarrow> loadConfig \<Rightarrow> 'db \<Rightarrow> 'db \<times> (LoadFail + (string \<rightharpoonup> int))" where
  "loadSetup x cfg db =
     (case Load (beReadFile x) (beUnmarshal x) (lfCardPath cfg) of
        Inl e \<Rightarrow> (db, Inl (LfTable e))
      | Inr _ \<Rightarrow>
          (case (if lfDSN cfg \<noteq> []
                 then ensureUsers (beOpen x (lfDSN cfg)) (beHash x (lfPass cfg)) (beExec x) (lfPrefix cfg) (lfPlayers cfg) db
                 else (db, None)) of
             (db', Some e) \<Rightarrow> (db', Inl (LfUsers e))
           | (db', None) \<Rightarrow>
               (case beBefore x of
                  Inl e \<Rightarrow> (db', Inl (LfBefore e))
                | Inr body \<Rightarrow> (db', Inr (fetchMetrics body)))))"

definition loadPlayers :: "'db BotEnv \<Rightarrow> loadConfig \<Rightarrow> PlayerIn list" where
  "loadPlayers x cfg = map (\<lambda>i. bePlayer x (loadName (lfPrefix cfg) i)) [0..<lfPlayers cfg]"

text \<open>The report, of the two readings of the page.\<close>

definition madeReport :: "'db BotEnv \<Rightarrow> loadConfig \<Rightarrow> (string \<rightharpoonup> int) \<Rightarrow> string \<Rightarrow> loadReport" where
  "madeReport x cfg base after =
     (let polls = map (\<lambda>p. case p of Inl _ \<Rightarrow> None | Inr b \<Rightarrow> Some (fetchMetrics b)) (bePolls x)
      in runLoad (lfGames cfg) (beLogins x) (loadPlayers x cfg) polls base (fetchMetrics after))"

text \<open>After the games: the second reading and the report, which is stored if a file is named.\<close>

definition loadFinish :: "'db BotEnv \<Rightarrow> loadConfig \<Rightarrow> (string \<rightharpoonup> int) \<Rightarrow> LoadFail + loadReport" where
  "loadFinish x cfg base =
     (case beAfter x of
        Inl e \<Rightarrow> Inl (LfAfter e)
      | Inr body \<Rightarrow>
          let rep = madeReport x cfg base body
          in if lfJSONOut cfg \<noteq> []
             then (case beWrite x (lfJSONOut cfg) rep of Some e \<Rightarrow> Inl (LfWrite e) | None \<Rightarrow> Inr rep)
             else Inr rep)"

definition loadTest :: "'db BotEnv \<Rightarrow> loadConfig \<Rightarrow> 'db \<Rightarrow> 'db \<times> (LoadFail + loadReport)" where
  "loadTest x cfg db =
     (case loadSetup x cfg db of
        (db', Inl e) \<Rightarrow> (db', Inl e)
      | (db', Inr base) \<Rightarrow> (db', loadFinish x cfg base))"

section \<open>The two modes\<close>

record BotFlags =
  bfUsers :: string
  bfLoad :: bool
  bfConfig :: loadConfig

text \<open>The exit code; \<open>log.Fatal\<close> is exit code 1. The bots use the flags of the load test.\<close>

definition botMain :: "'db BotEnv \<Rightarrow> BotFlags \<Rightarrow> 'db \<Rightarrow> 'db \<times> nat" where
  "botMain x fl db =
     (let cfg = bfConfig fl in
      if bfLoad fl then
        (case loadTest x cfg db of
           (db', Inl _) \<Rightarrow> (db', 1)
         | (db', Inr rep) \<Rightarrow> (db', loadExit rep))
      else
        (case Load (beReadFile x) (beUnmarshal x) (lfCardPath cfg) of
           Inl _ \<Rightarrow> (db, 1)
         | Inr _ \<Rightarrow> (db, botsExit (runBots (lfGames cfg) (map (bePlayer x) (splitOn (CHR '','') (bfUsers fl)))))))"

section \<open>Lemmas\<close>

lemma loadSetup_Inr:
  "(\<exists>base. snd (loadSetup x cfg db) = Inr base) \<longleftrightarrow>
     (\<exists>c. Load (beReadFile x) (beUnmarshal x) (lfCardPath cfg) = Inr c) \<and>
     (lfDSN cfg = [] \<or>
        snd (ensureUsers (beOpen x (lfDSN cfg)) (beHash x (lfPass cfg)) (beExec x) (lfPrefix cfg) (lfPlayers cfg) db) = None) \<and>
     (\<exists>body. beBefore x = Inr body)"
  by (auto simp: loadSetup_def split: sum.splits prod.splits option.splits)

lemma loadFinish_Inr:
  assumes "loadFinish x cfg base = Inr rep"
  shows "loadExit rep = 0 \<longleftrightarrow> (\<forall>i < lfPlayers cfg. playedAll (lfGames cfg) (bePlayer x (loadName (lfPrefix cfg) i)))"
  using assms
  by (auto simp: loadFinish_def madeReport_def loadPlayers_def loadExit_0 Let_def split: sum.splits if_splits option.splits)

text \<open>
  A load test exits with 0 exactly when it was set up, the page could be read again, the
  report was stored, and every player has played every game.
\<close>

lemma load_mode_exit:
  assumes "bfLoad fl"
  shows "snd (botMain x fl db) = 0 \<longleftrightarrow>
    (\<exists>base rep. snd (loadSetup x (bfConfig fl) db) = Inr base \<and> loadFinish x (bfConfig fl) base = Inr rep) \<and>
    (\<forall>i < lfPlayers (bfConfig fl). playedAll (lfGames (bfConfig fl)) (bePlayer x (loadName (lfPrefix (bfConfig fl)) i)))"
proof (cases "loadSetup x (bfConfig fl) db")
  case (Pair db' r)
  show ?thesis
  proof (cases r)
    case Inl
    with Pair assms show ?thesis by (simp add: botMain_def loadTest_def)
  next
    case (Inr base)
    with Pair assms loadFinish_Inr [of x "bfConfig fl" base] show ?thesis
      by (cases "loadFinish x (bfConfig fl) base") (simp_all add: botMain_def loadTest_def)
  qed
qed

text \<open>
  A reading of the page that fails after the games loses the report of all of them, and one that
  fails before them leaves the accounts that were created.
\<close>

lemma load_lost:
  assumes "snd (loadSetup x cfg db) = Inr base" "beAfter x = Inl e"
  shows "snd (loadTest x cfg db) = Inl (LfAfter e)"
  using assms by (auto simp: loadTest_def loadFinish_def split: prod.split sum.split)

lemma load_keeps_accounts: "fst (loadTest x cfg db) = fst (loadSetup x cfg db)"
  by (simp add: loadTest_def split: prod.split sum.split)

text \<open>The bots touch no account.\<close>

lemma bots_mode_db: "\<not> bfLoad fl \<Longrightarrow> fst (botMain x fl db) = db"
  by (simp add: botMain_def Let_def split: sum.split)

section \<open>Properties\<close>

text \<open>What a load test needs beside its games.\<close>

lemma load_stored:
  "(\<exists>base rep. snd (loadSetup x cfg db) = Inr base \<and> loadFinish x cfg base = Inr rep) \<longleftrightarrow>
     (\<exists>c. Load (beReadFile x) (beUnmarshal x) (lfCardPath cfg) = Inr c) \<and>
     (lfDSN cfg = [] \<or>
        snd (ensureUsers (beOpen x (lfDSN cfg)) (beHash x (lfPass cfg)) (beExec x) (lfPrefix cfg) (lfPlayers cfg) db) = None) \<and>
     (\<exists>before after. beBefore x = Inr before \<and> beAfter x = Inr after \<and>
        (lfJSONOut cfg = [] \<or> beWrite x (lfJSONOut cfg) (madeReport x cfg (fetchMetrics before) after) = None))"
  by (auto simp: loadSetup_def loadFinish_def Let_def split: sum.splits prod.splits option.splits if_splits)

text \<open>
  C34. The report of the load test can be trusted. It does not depend on the order in which
  players, goroutines and samples arrive. Its numbers are those of the games: a game counts (once
  for its two players) when its player finished it, failed are all games of a player who is not
  connected and one for every other who does not finish, the actions are those of the finished
  games, and the four lines of statistics give the number, nearest ranks (the smallest sample
  that at least so many per cent of them do not exceed) and maximum of, in this order, the times of
  the logins, of the answers to actions, of the waits for an opponent, and of the finished games.
  And \<open>main\<close> exits with 0 exactly when the card table could be read, the accounts made, the
  metrics page read before and after, the report stored if a file was named, and every player has
  logged in, connected and finished every game.
\<close>
theorem load_report_sound:
  assumes "mset logins' = mset logins" and "mset players' = mset players"
  shows "(let rep = runLoad games logins players polls base final; fin = overAll games players finishedOf;
        enq = overAll games players enqueuedOf
      in runLoad games logins' players' polls base final = rep \<and>
        lrGames rep = length fin div 2 \<and> lrFailed rep = sum_list (map (failedOf games) players) \<and>
        lrActions rep = sum_list (map (\<lambda>x. orActions (btRes (botOf x))) fin) \<and>
        lrIllegal rep = sum_list (map (\<lambda>x. orIllegal (btRes (botOf x))) fin) \<and>
        lrRateLimited rep = sum_list (map (\<lambda>x. orLimited (btRes (botOf x))) fin) \<and>
        describes logins (lrLogin rep) \<and> describes (concat (map (\<lambda>x. btRTT (botOf x)) enq)) (lrRTT rep) \<and>
        describes (concat (map (\<lambda>x. btWaits (botOf x)) enq)) (lrMatchWait rep) \<and>
        describes (map giLength fin) (lrGameLen rep)) \<and>
    (bfLoad fl \<longrightarrow>
       (snd (botMain x fl db) = 0 \<longleftrightarrow>
          (\<exists>c. Load (beReadFile x) (beUnmarshal x) (lfCardPath (bfConfig fl)) = Inr c) \<and>
          (lfDSN (bfConfig fl) = [] \<or>
             snd (ensureUsers (beOpen x (lfDSN (bfConfig fl))) (beHash x (lfPass (bfConfig fl))) (beExec x)
               (lfPrefix (bfConfig fl)) (lfPlayers (bfConfig fl)) db) = None) \<and>
          (\<exists>before after. beBefore x = Inr before \<and> beAfter x = Inr after \<and>
             (lfJSONOut (bfConfig fl) = [] \<or>
                beWrite x (lfJSONOut (bfConfig fl)) (madeReport x (bfConfig fl) (fetchMetrics before) after) = None)) \<and>
          (\<forall>i < lfPlayers (bfConfig fl).
             playedAll (lfGames (bfConfig fl)) (bePlayer x (loadName (lfPrefix (bfConfig fl)) i)))))"
proof (intro conjI impI)
  show "let rep = runLoad games logins players polls base final; fin = overAll games players finishedOf;
        enq = overAll games players enqueuedOf
      in runLoad games logins' players' polls base final = rep \<and>
        lrGames rep = length fin div 2 \<and> lrFailed rep = sum_list (map (failedOf games) players) \<and>
        lrActions rep = sum_list (map (\<lambda>x. orActions (btRes (botOf x))) fin) \<and>
        lrIllegal rep = sum_list (map (\<lambda>x. orIllegal (btRes (botOf x))) fin) \<and>
        lrRateLimited rep = sum_list (map (\<lambda>x. orLimited (btRes (botOf x))) fin) \<and>
        describes logins (lrLogin rep) \<and> describes (concat (map (\<lambda>x. btRTT (botOf x)) enq)) (lrRTT rep) \<and>
        describes (concat (map (\<lambda>x. btWaits (botOf x)) enq)) (lrMatchWait rep) \<and>
        describes (map giLength fin) (lrGameLen rep)"
    using runLoad_mset [OF assms, of games polls base final] unfolding Let_def
    by (intro conjI) (simp_all add: runLoad_spec distOf_describes)
next
  assume "bfLoad fl"
  from load_mode_exit [OF this, of x db] show "snd (botMain x fl db) = 0 \<longleftrightarrow>
          (\<exists>c. Load (beReadFile x) (beUnmarshal x) (lfCardPath (bfConfig fl)) = Inr c) \<and>
          (lfDSN (bfConfig fl) = [] \<or>
             snd (ensureUsers (beOpen x (lfDSN (bfConfig fl))) (beHash x (lfPass (bfConfig fl))) (beExec x)
               (lfPrefix (bfConfig fl)) (lfPlayers (bfConfig fl)) db) = None) \<and>
          (\<exists>before after. beBefore x = Inr before \<and> beAfter x = Inr after \<and>
             (lfJSONOut (bfConfig fl) = [] \<or>
                beWrite x (lfJSONOut (bfConfig fl)) (madeReport x (bfConfig fl) (fetchMetrics before) after) = None)) \<and>
          (\<forall>i < lfPlayers (bfConfig fl).
             playedAll (lfGames (bfConfig fl)) (bePlayer x (loadName (lfPrefix (bfConfig fl)) i)))"
    unfolding load_stored by (simp only: conj_assoc)
qed

text \<open>A load test of no games, with two players who never log in.\<close>

definition sample_bots :: "unit BotEnv" where
  "sample_bots =
     \<lparr>beReadFile = Inr,
      beUnmarshal = (\<lambda>_. Inr [\<lparr>cID = ''a'', cName = ''A'', cType = TypeMinion, cCost = 1, cAtk = 1, cHP = 1, cDamage = 0, cHeal = 0\<rparr>]),
      beOpen = (\<lambda>_. None), beHash = Inr, beExec = (\<lambda>_ _ _ u. (u, None)), beBefore = Inr [], beAfter = Inr [],
      bePolls = [], beLogins = [], bePlayer = (\<lambda>_. sample_absent), beWrite = (\<lambda>_ _. None)\<rparr>"

definition sample_flags :: "nat \<Rightarrow> BotFlags" where
  "sample_flags games =
     \<lparr>bfUsers = [], bfLoad = True, bfConfig = \<lparr>lfPlayers = 2, lfPrefix = ''load'', lfPass = [], lfGames = games, lfDSN = [],
        lfJSONOut = [], lfCardPath = []\<rparr>\<rparr>"

theorem load_report_sound_witness:
  "runLoad 2 [30, 10, 20] [sample_absent] [] Map.empty Map.empty = runLoad 2 [10, 20, 30] [sample_absent] [] Map.empty Map.empty \<and>
   nearestRank 50 [10, 20, 30] (dP50 (lrLogin (runLoad 2 [10, 20, 30] [sample_absent] [] Map.empty Map.empty))) \<and>
   lrFailed (runLoad 2 [10, 20, 30] [sample_absent] [] Map.empty Map.empty) = 2 \<and>
   snd (botMain sample_bots (sample_flags 0) ()) = 0 \<and> snd (botMain sample_bots (sample_flags 1) ()) \<noteq> 0"
proof -
  note report = load_report_sound [of "[30, 10, 20]" "[10, 20, 30]" "[sample_absent]" "[sample_absent]" 2 "[]" Map.empty Map.empty
    "sample_flags 0" sample_bots "()", THEN conjunct1]
  note exit = load_report_sound [OF refl refl, THEN conjunct2, THEN mp, of _ sample_bots "()"]
  have table: "\<exists>c. Load (beReadFile sample_bots) (beUnmarshal sample_bots) [] = Inr c"
    by (simp add: Load_Inr sample_bots_def) (simp add: emptyCatalog_def validateCard_def TypeMinion_def)
  have bots: "beBefore sample_bots = Inr []" "beAfter sample_bots = Inr []" "bePlayer sample_bots u = sample_absent" for u
    by (simp_all add: sample_bots_def)
  have flags: "bfLoad (sample_flags n)" "lfCardPath (bfConfig (sample_flags n)) = []" "lfDSN (bfConfig (sample_flags n)) = []"
      "lfJSONOut (bfConfig (sample_flags n)) = []" "lfPlayers (bfConfig (sample_flags n)) = 2" "lfGames (bfConfig (sample_flags n)) = n" for n
    by (simp_all add: sample_flags_def)
  have played: "playedAll 0 p" "\<not> playedAll 1 sample_absent" for p by (simp_all add: playedAll_def sample_absent_def)
  have ok: "snd (botMain sample_bots (sample_flags 0) ()) = 0"
    unfolding exit [OF flags(1) [of 0]] flags bots using table played by simp
  have bad: "snd (botMain sample_bots (sample_flags 1) ()) \<noteq> 0"
    unfolding exit [OF flags(1) [of 1]] flags bots using played(2) by auto
  from report have "runLoad 2 [30, 10, 20] [sample_absent] [] Map.empty Map.empty = runLoad 2 [10, 20, 30] [sample_absent] [] Map.empty Map.empty \<and>
      nearestRank 50 [10, 20, 30] (dP50 (lrLogin (runLoad 2 [10, 20, 30] [sample_absent] [] Map.empty Map.empty))) \<and>
      lrFailed (runLoad 2 [10, 20, 30] [sample_absent] [] Map.empty Map.empty) = 2"
    by (simp add: Let_def add_mset_commute describes_def sample_absent_def failedOf_def)
  with ok bad show ?thesis by (simp only: conj_assoc simp_thms)
qed

end
