(* ===== verification/Web_Front.thy ===== *)
theory Web_Front
  imports Report_Pages Wire Metrics_Page
begin

text \<open>
  The server as its clients see it: \<open>routes\<close> of \<open>server/main.go\<close> over the handlers of
  \<open>internal/auth\<close>, the connections they open and the messages read from them. One event is one
  request, one message, the end of a connection, or something the other goroutines do (a
  message pushed to a player, anything in the rooms and the queue).
\<close>

section \<open>Requests and routes\<close>

text \<open>\<open>rqToken\<close> and \<open>rqLimit\<close> are the values of the query parameters, \<open>rqPath\<close> the escaped path.\<close>

record WebRequest = Request +
  rqPath :: string
  rqHost :: string
  rqOrigin :: string
  rqToken :: string
  rqLimit :: string

datatype Handler = HLogin | HDecks | HWs | HMetrics | HReports | HReplay

datatype Segment = Lit string | Wild

definition routes :: "(string option \<times> Segment list \<times> Handler) list" where
  "routes =
     [(None, [Lit ''login''], HLogin),
      (None, [Lit ''decks''], HDecks),
      (None, [Lit ''ws''], HWs),
      (None, [Lit ''metrics''], HMetrics),
      (Some ''GET'', [Lit ''reports''], HReports),
      (Some ''GET'', [Lit ''reports'', Wild, Lit ''replay''], HReplay)]"

text \<open>
  \<open>http.ServeMux\<close>: paths are compared segment by segment after unescaping, a wildcard is any
  segment, \<open>GET\<close> patterns serve \<open>HEAD\<close> too. No two patterns of \<open>routes\<close> match the same path, so
  precedence plays no role.
\<close>

fun matchSegs :: "Segment list \<Rightarrow> string list \<Rightarrow> string list option" where
  "matchSegs [] [] = Some []"
| "matchSegs (Lit l # ss) (x # xs) = (if x = l then matchSegs ss xs else None)"
| "matchSegs (Wild # ss) (x # xs) = map_option (Cons x) (matchSegs ss xs)"
| "matchSegs _ _ = None"

definition methodOk :: "string option \<Rightarrow> string \<Rightarrow> bool" where
  "methodOk pat m \<longleftrightarrow> (case pat of None \<Rightarrow> True | Some p \<Rightarrow> m = p \<or> p = ''GET'' \<and> m = ''HEAD'')"

definition segments :: "string \<Rightarrow> string list" where
  "segments path = splitOn (CHR ''/'') (tl path)"

text \<open>\<open>cleanPath\<close> leaves the path as it is.\<close>

definition cleanPath :: "string \<Rightarrow> bool" where
  "cleanPath path \<longleftrightarrow>
     path \<noteq> [] \<and> hd path = CHR ''/'' \<and> [] \<notin> set (butlast (segments path)) \<and>
     ''.'' \<notin> set (segments path) \<and> ''..'' \<notin> set (segments path)"

datatype Routed = Serve Handler "string list" | Moved | NoMethod | NoRoute

definition muxRoute :: "(string \<Rightarrow> string) \<Rightarrow> string \<Rightarrow> string \<Rightarrow> Routed" where
  "muxRoute unescape m path =
     (if m \<noteq> ''CONNECT'' \<and> \<not> cleanPath path then Moved
      else
        (let hits = List.map_filter
               (\<lambda>(meth, pat, h). map_option (\<lambda>vs. (meth, h, vs)) (matchSegs pat (map unescape (segments path)))) routes
         in case filter (\<lambda>(meth, h, vs). methodOk meth m) hits of
              (_, h, vs) # _ \<Rightarrow> Serve h vs
            | [] \<Rightarrow> (if hits \<noteq> [] then NoMethod else NoRoute)))"

text \<open>\<open>readJSON\<close>: the decoder sees at most 64 KB of the body.\<close>

definition readJSON :: "(string \<Rightarrow> 'a option) \<Rightarrow> string \<Rightarrow> 'a option" where
  "readJSON decode body = decode (take (64 * 1024) body)"

section \<open>The server\<close>

record ('u, 's, 'r) WebEnv =
  weSite :: "('u, 's) SiteEnv"
  weCat :: Catalog
  weErrText :: "DeckErr \<Rightarrow> string"
  weUnescape :: "string \<Rightarrow> string"
  weHostOf :: "string \<Rightarrow> string option"
  weOrigins :: "string list"
  weReports :: "'u \<Rightarrow> ReportSource"
  weBuild :: "BattleReport \<Rightarrow> BuildErr + Result"
  weAtoi :: "string \<Rightarrow> int option"
  weQueue :: "'r ZDB"
  weMsg :: MsgEnv

text \<open>The limiters are those of the calls of \<open>readLoop\<close>, one for each connection.\<close>

record ('u, 's, 'r) Web =
  wbSite :: "('u, 's) Site"
  wbServer :: "'r Server"
  wbLims :: "limiter list"

datatype Answer =
    Status nat
  | Api nat Body
  | ReportPage nat Page
  | MetricsText string
  | WsRefused nat string
  | WsOpen nat
  | NoAnswer

definition siteEnv :: "('u, 's, 'r) WebEnv \<Rightarrow> ('u, 's) SiteEnv" where
  "siteEnv env = (weSite env)\<lparr>seLoginReq := readJSON (seLoginReq (weSite env)),
     seDeckReq := readJSON (seDeckReq (weSite env))\<rparr>"

definition serveApi :: "('u, 's) Site \<times> nat \<times> Body \<Rightarrow> ('u, 's, 'r) Web \<Rightarrow> ('u, 's, 'r) Web \<times> Answer" where
  "serveApi x w = (case x of (s, code, b) \<Rightarrow> (w\<lparr>wbSite := s\<rparr>, Api code b))"

definition servePage :: "'s \<times> nat \<times> Page \<Rightarrow> ('u, 's, 'r) Web \<Rightarrow> ('u, 's, 'r) Web \<times> Answer" where
  "servePage x w =
     (case x of (t, code, p) \<Rightarrow> (w\<lparr>wbSite := (wbSite w)\<lparr>siTokens := t\<rparr>\<rparr>, ReportPage code p))"

text \<open>\<open>ServerWs\<close> up to its call of \<open>readLoop\<close>, which makes the limiter.\<close>

definition serveWs ::
  "('u, 's, 'r) WebEnv \<Rightarrow> int \<Rightarrow> WebRequest \<Rightarrow> (nat \<times> string) option \<Rightarrow> bool \<Rightarrow> ('u, 's, 'r) Web \<Rightarrow> ('u, 's, 'r) Web \<times> Answer" where
  "serveWs env now r upgrade pick w =
     (case admitWs (weHostOf env) (weOrigins env) (seLook (weSite env)) upgrade now (rqHost r) (rqOrigin r) (rqToken r)
             (siTokens (wbSite w)) of
        (t, x) \<Rightarrow>
          (let w1 = w\<lparr>wbSite := (wbSite w)\<lparr>siTokens := t\<rparr>\<rparr>
           in case x of
                Inl (code, msg) \<Rightarrow> (w1, WsRefused code msg)
              | Inr user \<Rightarrow>
                  (w1\<lparr>wbServer := openConn pick user (wbServer w1), wbLims := wbLims w1 @ [newLimiter now cmdRate cmdBurst]\<rparr>,
                   WsOpen (length (hbClients (svHub (wbServer w1)))))))"

text \<open>
  A request; \<open>salt\<close> and \<open>rnd\<close> are what the random sources give \<open>bcrypt\<close> and \<open>newToken\<close>, \<open>upgrade\<close> is
  the error of the websocket library.
\<close>

definition serveHttp ::
  "('u, 's, 'r) WebEnv \<Rightarrow> int \<Rightarrow> WebRequest \<Rightarrow> nat \<Rightarrow> string + nat list \<Rightarrow> (nat \<times> string) option \<Rightarrow> bool \<Rightarrow>
     ('u, 's, 'r) Web \<Rightarrow> ('u, 's, 'r) Web \<times> Answer" where
  "serveHttp env now r salt rnd upgrade pick w =
     (let st = wbSite w; look = seLook (weSite env); src = weReports env (siUsers st)
      in case muxRoute (weUnescape env) (rqMethod r) (rqPath r) of
           Moved \<Rightarrow> (w, Status 301)
         | NoMethod \<Rightarrow> (w, Status 405)
         | NoRoute \<Rightarrow> (w, Status 404)
         | Serve HLogin _ \<Rightarrow> serveApi (Login (siteEnv env) now salt rnd (Request.truncate r) st) w
         | Serve HDecks _ \<Rightarrow> serveApi (Savedecks (siteEnv env) (weCat env) now (weErrText env) (Request.truncate r) st) w
         | Serve HWs _ \<Rightarrow> serveWs env now r upgrade pick w
         | Serve HMetrics _ \<Rightarrow> (w, MetricsText (Metrics (wbServer w)))
         | Serve HReports _ \<Rightarrow> servePage (ListReports look src (weAtoi env) now (rqAuth r) (rqLimit r) (siTokens st)) w
         | Serve HReplay vs \<Rightarrow>
             servePage (ReplayReport look src (weBuild env) now (rqAuth r) (case vs of v # _ \<Rightarrow> v | [] \<Rightarrow> []) (siTokens st)) w)"

definition maxMsgSize :: nat where "maxMsgSize = 32 * 1024"

text \<open>Connection \<open>p\<close> is being read.\<close>

definition reading :: "('u, 's, 'r) Web \<Rightarrow> nat \<Rightarrow> bool" where
  "reading w p \<longleftrightarrow>
     p < length (hbClients (svHub (wbServer w))) \<and> p < length (wbLims w) \<and> \<not> hbEnded (svHub (wbServer w)) ! p"

text \<open>One round of \<open>readLoop\<close>: a message over the limit is an error of the read and ends the connection.\<close>

definition readFrame :: "('u, 's, 'r) WebEnv \<Rightarrow> int \<Rightarrow> int \<Rightarrow> nat \<Rightarrow> string \<Rightarrow> bool \<Rightarrow> ('u, 's, 'r) Web \<Rightarrow> ('u, 's, 'r) Web" where
  "readFrame env now nowMs p data pick w =
     (if length data > maxMsgSize then w\<lparr>wbServer := closeConn (weQueue env) p (wbServer w)\<rparr>
      else
        (case onMessage (weQueue env) (weMsg env) now nowMs pick (hbUsers (svHub (wbServer w)) ! p) p data
                (wbLims w ! p, wbServer w) of
           (lm, s) \<Rightarrow> w\<lparr>wbServer := s, wbLims := (wbLims w)[p := lm]\<rparr>))"

datatype 'r WebEvent =
    Http WebRequest nat "string + nat list" "(nat \<times> string) option" bool
  | Frame nat string int bool
  | Hangup nat
  | Push string Outgoing bool
  | Elsewhere Manager 'r

fun webStep :: "('u, 's, 'r) WebEnv \<Rightarrow> int \<Rightarrow> 'r WebEvent \<Rightarrow> ('u, 's, 'r) Web \<Rightarrow> ('u, 's, 'r) Web \<times> Answer" where
  "webStep env now (Http r salt rnd upgrade pick) w = serveHttp env now r salt rnd upgrade pick w"
| "webStep env now (Frame p data nowMs pick) w = (if reading w p then readFrame env now nowMs p data pick w else w, NoAnswer)"
| "webStep env now (Hangup p) w =
     (if reading w p then w\<lparr>wbServer := closeConn (weQueue env) p (wbServer w)\<rparr> else w, NoAnswer)"
| "webStep env now (Push user b pick) w =
     (w\<lparr>wbServer := (wbServer w)\<lparr>svHub := SendTo pick user b (svHub (wbServer w))\<rparr>\<rparr>, NoAnswer)"
| "webStep env now (Elsewhere m q) w = (w\<lparr>wbServer := (wbServer w)\<lparr>svRooms := m, svQueue := q\<rparr>\<rparr>, NoAnswer)"

definition webRun :: "('u, 's, 'r) WebEnv \<Rightarrow> (int \<times> 'r WebEvent) list \<Rightarrow> ('u, 's, 'r) Web \<Rightarrow> ('u, 's, 'r) Web" where
  "webRun env evs w = fold (\<lambda>(now, e) w. fst (webStep env now e w)) evs w"

lemma webRun_snoc [simp]: "webRun env (evs @ [(now, e)]) w = fst (webStep env now e (webRun env evs w))"
  by (simp add: webRun_def)

lemma webRun_Nil [simp]: "webRun env [] w = w"
  by (simp add: webRun_def)

section \<open>The routes\<close>

text \<open>Which paths are served, and by whom.\<close>

lemma muxRoute_serve:
  "muxRoute unescape m path = Serve h vs \<longleftrightarrow>
     (m = ''CONNECT'' \<or> cleanPath path) \<and>
     (let xs = map unescape (segments path) in
        xs = [''login''] \<and> h = HLogin \<and> vs = [] \<or> xs = [''decks''] \<and> h = HDecks \<and> vs = [] \<or>
        xs = [''ws''] \<and> h = HWs \<and> vs = [] \<or> xs = [''metrics''] \<and> h = HMetrics \<and> vs = [] \<or>
        m \<in> {''GET'', ''HEAD''} \<and> (xs = [''reports''] \<and> h = HReports \<and> vs = [] \<or>
          (\<exists>room. xs = [''reports'', room, ''replay''] \<and> h = HReplay \<and> vs = [room])))"
proof -
  let ?xs = "map unescape (segments path)"
  consider "?xs = []" | x where "?xs = [x]" | x y where "?xs = [x, y]" | x y z where "?xs = [x, y, z]"
    | x y z u us where "?xs = x # y # z # u # us"
    by (metis neq_Nil_conv)
  then show ?thesis
    by cases (auto simp: muxRoute_def routes_def List.map_filter_def methodOk_def)
qed

section \<open>Whose request it is\<close>

text \<open>The token a request presents and the user the store names for it.\<close>

fun caller :: "('u, 's, 'r) WebEnv \<Rightarrow> int \<Rightarrow> ('u, 's, 'r) Web \<Rightarrow> 'r WebEvent \<Rightarrow> (string \<times> string) option" where
  "caller env now w (Http r salt rnd upgrade pick) =
     (let look = seLook (weSite env) now; t = siTokens (wbSite w) in
      case muxRoute (weUnescape env) (rqMethod r) (rqPath r) of
        Serve HWs _ \<Rightarrow>
          (if checkOrigin (weHostOf env) (weOrigins env) (rqHost r) (rqOrigin r)
           then (case snd (look (rqToken r) t) of Inr u \<Rightarrow> Some (rqToken r, u) | Inl _ \<Rightarrow> None)
           else None)
      | Serve h _ \<Rightarrow>
          (if h \<in> {HDecks, HReports, HReplay}
           then (case snd (PlayerFromToken look (rqAuth r) t) of Inr u \<Rightarrow> Some (drop 7 (rqAuth r), u) | Inl _ \<Rightarrow> None)
           else None)
      | _ \<Rightarrow> None)"
| "caller env now w _ = None"

text \<open>The event is a login of \<open>u\<close> with the right password, for which a token of key \<open>k\<close> is made.\<close>

definition signsIn :: "('u, 's, 'r) WebEnv \<Rightarrow> (string \<Rightarrow> string) \<Rightarrow> ('u, 's, 'r) Web \<Rightarrow> 'r WebEvent \<Rightarrow> string \<Rightarrow> string \<Rightarrow> bool" where
  "signsIn env key w e k u \<longleftrightarrow>
     (\<exists>r salt rnd upgrade pick vs q uid pass tok.
        e = Http r salt rnd upgrade pick \<and> muxRoute (weUnescape env) (rqMethod r) (rqPath r) = Serve HLogin vs \<and>
        rqMethod r = ''POST'' \<and> seLoginReq (siteEnv env) (rqBody r) = Some q \<and> lrUsername q = u \<and>
        udFind (seDB (weSite env)) u (siUsers (wbSite w)) = Row (uid, pass) \<and>
        fst (checkPassword (seBcrypt (weSite env)) pass (lrPassword q)) \<and> newToken rnd = Inr tok \<and> key tok = k)"

text \<open>Among the first \<open>n\<close> events is such a login, and its token is still alive at \<open>now\<close>.\<close>

definition signedIn ::
  "('u, 's, 'r) WebEnv \<Rightarrow> (string \<Rightarrow> string) \<Rightarrow> int \<Rightarrow> (int \<times> 'r WebEvent) list \<Rightarrow> ('u, 's, 'r) Web \<Rightarrow> nat \<Rightarrow> int \<Rightarrow> string \<Rightarrow> string \<Rightarrow> bool" where
  "signedIn env key life evs w n now k u \<longleftrightarrow>
     (\<exists>j < n. signsIn env key (webRun env (take j evs) w) (snd (evs ! j)) k u \<and> now < fst (evs ! j) + life)"

section \<open>What the handlers do to the tokens\<close>

lemma truncate_fields [simp]:
  "rqMethod (Request.truncate r) = rqMethod r" "rqRemote (Request.truncate r) = rqRemote r"
  "rqAuth (Request.truncate r) = rqAuth r" "rqBody (Request.truncate r) = rqBody r"
  by (simp_all add: Request.truncate_def)

lemma siteEnv_fields [simp]:
  "seDB (siteEnv env) = seDB (weSite env)" "seBcrypt (siteEnv env) = seBcrypt (weSite env)"
  "seIssue (siteEnv env) = seIssue (weSite env)" "seLook (siteEnv env) = seLook (weSite env)"
  by (simp_all add: siteEnv_def)

lemma upgradePassword_tokens [simp]: "siTokens (upgradePassword env salt uid given s) = siTokens s"
  by (simp add: upgradePassword_def split: option.split)

lemma Login_tokens:
  "siTokens (fst (Login env now salt rnd r s)) = siTokens s \<or>
   (\<exists>q uid pass. rqMethod r = ''POST'' \<and> seLoginReq env (rqBody r) = Some q \<and>
      udFind (seDB env) (lrUsername q) (siUsers s) = Row (uid, pass) \<and>
      fst (checkPassword (seBcrypt env) pass (lrPassword q)) \<and>
      siTokens (fst (Login env now salt rnd r s)) = fst (seIssue env now rnd (lrUsername q) (siTokens s)))"
proof -
  obtain s1 ok where l: "limitLogin env now r s = (s1, ok)" by (cases "limitLogin env now r s")
  then have s1: "siUsers s1 = siUsers s" "siTokens s1 = siTokens s"
    using limitLogin_rest(1,2) [of env now r s] by simp_all
  show ?thesis
  proof (cases "\<exists>q uid pass. rqMethod r = ''POST'' \<and> ok \<and> seLoginReq env (rqBody r) = Some q \<and>
      udFind (seDB env) (lrUsername q) (siUsers s) = Row (uid, pass) \<and> fst (checkPassword (seBcrypt env) pass (lrPassword q))")
    case True
    then obtain q uid pass where q: "rqMethod r = ''POST''" ok "seLoginReq env (rqBody r) = Some q"
      "udFind (seDB env) (lrUsername q) (siUsers s) = Row (uid, pass)" "fst (checkPassword (seBcrypt env) pass (lrPassword q))"
      by blast
    obtain up cs where c: "checkPassword (seBcrypt env) pass (lrPassword q) = (True, up, cs)"
      using q(5) by (cases "checkPassword (seBcrypt env) pass (lrPassword q)") auto
    have "siTokens (fst (Login env now salt rnd r s)) = fst (seIssue env now rnd (lrUsername q) (siTokens s))"
      using q c by (simp add: Login_def l s1 Let_def split: prod.split sum.split)
    with q show ?thesis by blast
  next
    case False
    then have "siTokens (fst (Login env now salt rnd r s)) = siTokens s"
      by (auto simp: Login_def l s1 Let_def split: option.split DBResult.split prod.split bool.split)
    then show ?thesis ..
  qed
qed

lemma Savedecks_tokens:
  "siTokens (fst (Savedecks env ct now text r s)) = siTokens s \<or>
   siTokens (fst (Savedecks env ct now text r s)) = fst (PlayerFromToken (seLook env now) (rqAuth r) (siTokens s))"
  by (cases "PlayerFromToken (seLook env now) (rqAuth r) (siTokens s)")
    (auto simp: Savedecks_def Let_def split: sum.split option.split DBResult.split prod.split)

lemma pages_tokens:
  "fst (ListReports look src atoi now auth q t) = fst (PlayerFromToken (look now) auth t)"
  "fst (ReplayReport look src build now auth room t) = fst (PlayerFromToken (look now) auth t)"
  by (cases "PlayerFromToken (look now) auth t";
      auto simp: ListReports_def ReplayReport_def split: sum.split option.split BuildErr.split)+

lemma admitWs_tokens:
  "fst (admitWs hostOf allowed look upgrade now host origin token t) = t \<or>
   fst (admitWs hostOf allowed look upgrade now host origin token t) = fst (look now token t)"
  by (cases "look now token t") (auto simp: admitWs_def split: sum.split option.split)

lemma bearer_look: "fst (PlayerFromToken look h t) = t \<or> fst (PlayerFromToken look h t) = fst (look (drop 7 h) t)"
  by (simp add: PlayerFromToken_def)

lemma webStep_tokens:
  "siTokens (wbSite (fst (webStep env now e w))) = siTokens (wbSite w) \<or>
   (\<exists>tok. siTokens (wbSite (fst (webStep env now e w))) = fst (seLook (weSite env) now tok (siTokens (wbSite w)))) \<or>
   (\<exists>rnd v. siTokens (wbSite (fst (webStep env now e w))) = fst (seIssue (weSite env) now rnd v (siTokens (wbSite w))) \<and>
      (\<forall>tok. newToken rnd = Inr tok \<longrightarrow> signsIn env key w e (key tok) v))"
proof (cases e)
  case (Http r salt rnd upgrade pick)
  let ?t = "siTokens (wbSite w)"
  note bearer = bearer_look [of "seLook (weSite env) now" "rqAuth r" ?t]
  show ?thesis
  proof (cases "muxRoute (weUnescape env) (rqMethod r) (rqPath r)")
    case (Serve h vs)
    show ?thesis
    proof (cases h)
      case HLogin
      let ?L = "Login (siteEnv env) now salt rnd (Request.truncate r) (wbSite w)"
      have L: "siTokens (wbSite (fst (webStep env now e w))) = siTokens (fst ?L)"
        by (simp add: Http serveHttp_def Serve HLogin serveApi_def Let_def case_prod_unfold)
      from Login_tokens [of "siteEnv env" now salt rnd "Request.truncate r" "wbSite w"] show ?thesis
      proof (elim disjE exE conjE)
        fix q uid pass
        assume q: "rqMethod (Request.truncate r) = ''POST''" "seLoginReq (siteEnv env) (rqBody (Request.truncate r)) = Some q"
            "udFind (seDB (siteEnv env)) (lrUsername q) (siUsers (wbSite w)) = Row (uid, pass)"
            "fst (checkPassword (seBcrypt (siteEnv env)) pass (lrPassword q))"
          and t: "siTokens (fst ?L) = fst (seIssue (siteEnv env) now rnd (lrUsername q) ?t)"
        have "\<forall>tok. newToken rnd = Inr tok \<longrightarrow> signsIn env key w e (key tok) (lrUsername q)"
          using q Http Serve HLogin unfolding signsIn_def by auto
        with t show ?thesis unfolding L by auto
      qed (simp add: L)
    next
      case HDecks
      with Http Serve Savedecks_tokens [of "siteEnv env" "weCat env" now "weErrText env" "Request.truncate r" "wbSite w"] bearer
      show ?thesis by (auto simp: serveHttp_def serveApi_def Let_def case_prod_unfold)
    next
      case HWs
      with Http Serve admitWs_tokens [of "weHostOf env" "weOrigins env" "seLook (weSite env)" upgrade now "rqHost r" "rqOrigin r" "rqToken r" ?t]
      show ?thesis by (auto simp: serveHttp_def serveWs_def Let_def case_prod_unfold split: sum.splits)
    next
      case HReports
      with Http Serve bearer show ?thesis by (auto simp: serveHttp_def servePage_def Let_def case_prod_unfold pages_tokens)
    next
      case HReplay
      with Http Serve bearer show ?thesis by (auto simp: serveHttp_def servePage_def Let_def case_prod_unfold pages_tokens)
    next
      case HMetrics
      with Http Serve show ?thesis by (simp add: serveHttp_def Let_def)
    qed
  qed (simp_all add: Http serveHttp_def Let_def)
qed (auto simp: readFrame_def case_prod_unfold)

section \<open>What the handlers do to the connections and the rooms\<close>

lemma quieter_users: "quieter h h' \<Longrightarrow> hbUsers h' = hbUsers h" "quieter h h' \<Longrightarrow> length (hbClients h') = length (hbClients h)"
  by (simp_all add: quieter_def)

lemma openConn_rest:
  "hbUsers (svHub (openConn pick u s)) = hbUsers (svHub s) @ [u]"
  "length (hbClients (svHub (openConn pick u s))) = Suc (length (hbClients (svHub s)))"
  "svRooms (openConn pick u s) = svRooms s"
proof -
  let ?h = "svHub s"
  let ?h1 = "addConn u (length (hbClients ?h))
    (?h\<lparr>hbClients := hbClients ?h @ [newClient], hbUsers := hbUsers ?h @ [u], hbEnded := hbEnded ?h @ [False]\<rparr>)"
  have "hbUsers ?h1 = hbUsers ?h @ [u]" "length (hbClients ?h1) = Suc (length (hbClients ?h))"
    by (simp_all add: addConn_def Let_def closeClient_def onClient_def split: option.split)
  moreover have q: "quieter ?h1 (svHub (openConn pick u s))" by (simp add: openConn_def Let_def quieter_reply)
  ultimately show "hbUsers (svHub (openConn pick u s)) = hbUsers ?h @ [u]"
    "length (hbClients (svHub (openConn pick u s))) = Suc (length (hbClients ?h))"
    unfolding quieter_users [OF q] by blast+
  show "svRooms (openConn pick u s) = svRooms s" by (simp add: openConn_def Let_def)
qed

lemma closeConn_users:
  "hbUsers (svHub (closeConn db p s)) = hbUsers (svHub s)"
  "length (hbClients (svHub (closeConn db p s))) = length (hbClients (svHub s))"
  by (simp_all add: closeConn_hub removeConn_def closeClient_def onClient_def)

lemma onMessage_users:
  "hbUsers (svHub (snd (onMessage db env now nowMs pick user p data x))) = hbUsers (svHub (snd x))"
  "length (hbClients (svHub (snd (onMessage db env now nowMs pick user p data x)))) = length (hbClients (svHub (snd x)))"
  using quieter_users [OF quieter_onMessage [of "snd x" db env now nowMs pick user p data "fst x"]] by simp_all

lemma SendTo_users:
  "hbUsers (SendTo pick user b h) = hbUsers h" "length (hbClients (SendTo pick user b h)) = length (hbClients h)"
  using quieter_users [OF quieter_SendTo] by simp_all

lemmas hub_users = openConn_rest closeConn_users onMessage_users SendTo_users

text \<open>A request leaves the server as it is, unless it opens a connection for its caller.\<close>

lemma serveHttp_server:
  fixes w :: "('u, 's, 'r) Web"
  assumes "e = Http r salt rnd upgrade pick"
  shows "wbServer (fst (webStep env now e w)) = wbServer w \<and> wbLims (fst (webStep env now e w)) = wbLims w \<or>
    (\<exists>tok u. caller env now w e = Some (tok, u) \<and> wbServer (fst (webStep env now e w)) = openConn pick u (wbServer w) \<and>
       wbLims (fst (webStep env now e w)) = wbLims w @ [newLimiter now cmdRate cmdBurst])"
proof (cases "muxRoute (weUnescape env) (rqMethod r) (rqPath r)")
  case (Serve h vs)
  show ?thesis
  proof (cases h)
    case HWs
    then show ?thesis
      by (auto simp: assms Serve serveHttp_def serveWs_def admitWs_def Let_def case_prod_unfold
          split: sum.splits option.splits)
  qed (simp_all add: assms Serve serveHttp_def serveApi_def servePage_def Let_def case_prod_unfold)
qed (simp_all add: assms serveHttp_def Let_def)

lemma webStep_users:
  "hbUsers (svHub (wbServer (fst (webStep env now e w)))) = hbUsers (svHub (wbServer w)) \<or>
   (\<exists>tok u. caller env now w e = Some (tok, u) \<and>
      hbUsers (svHub (wbServer (fst (webStep env now e w)))) = hbUsers (svHub (wbServer w)) @ [u])"
proof (cases e)
  case (Http r salt rnd upgrade pick)
  from serveHttp_server [OF this, of env now w] show ?thesis by (auto simp: openConn_rest)
qed (auto simp: readFrame_def case_prod_unfold hub_users)

text \<open>Commands reach the rooms from connections only, with their user.\<close>

definition handsOver :: "Env \<Rightarrow> nat \<Rightarrow> ('u, 's, 'r) Web \<Rightarrow> ('u, 's, 'r) Web \<Rightarrow> bool" where
  "handsOver renv p w w' \<longleftrightarrow>
     (\<exists>c q. cmdPlayer c = hbUsers (svHub (wbServer w)) ! p \<and>
        (cmdType c = ''leave'' \<or> HasPlayer (lRoom (sLoop (slSys (hSlots (svRooms (wbServer w)) ! q)))) (cmdPlayer c)) \<and>
        svRooms (wbServer w') = (svRooms (wbServer w))\<lparr>hSlots :=
          onSlot q (\<lambda>S. the (step renv (Arrive c) S)) (hSlots (svRooms (wbServer w)))\<rparr>)"

lemma handsOverI:
  assumes "svRooms (wbServer w') = (svRooms (wbServer w))\<lparr>hSlots :=
      onSlot q (\<lambda>S. the (step renv (Arrive c) S)) (hSlots (svRooms (wbServer w)))\<rparr>"
    and "cmdPlayer c = hbUsers (svHub (wbServer w)) ! p"
    and "cmdType c = ''leave'' \<or> HasPlayer (lRoom (sLoop (slSys (hSlots (svRooms (wbServer w)) ! q)))) (cmdPlayer c)"
  shows "handsOver renv p w w'"
  unfolding handsOver_def using assms by blast

lemma closeConn_rooms:
  "svRooms (closeConn db p s) = svRooms s \<or>
   (\<exists>q. svRooms (closeConn db p s) = fst (sendRoom q \<lparr>cmdPlayer = hbUsers (svHub s) ! p, cmdType = ''leave'', cmdData = []\<rparr> (svRooms s)))"
  by (auto simp: closeConn_def Let_def split: prod.split option.split)

lemma handsOver_close:
  "svRooms (closeConn db p (wbServer w)) = svRooms (wbServer w) \<or>
   handsOver renv p w (w\<lparr>wbServer := closeConn db p (wbServer w)\<rparr>)"
  using closeConn_rooms [of db p "wbServer w"] unfolding sendRoom_arrives [of _ _ _ renv]
  by (elim disjE exE) (auto intro: handsOverI simp del: step.simps)

lemma handsOver_frame:
  "svRooms (wbServer (readFrame env now nowMs p data pick w)) = svRooms (wbServer w) \<or>
   handsOver renv p w (readFrame env now nowMs p data pick w)"
proof (cases "length data > maxMsgSize")
  case True
  then show ?thesis using handsOver_close [of "weQueue env" p w renv] by (simp add: readFrame_def)
next
  case False
  let ?u = "hbUsers (svHub (wbServer w)) ! p"
  have w': "wbServer (readFrame env now nowMs p data pick w) =
      snd (onMessage (weQueue env) (weMsg env) now nowMs pick ?u p data (wbLims w ! p, wbServer w))"
    using False by (simp add: readFrame_def case_prod_unfold)
  from own_commands_only [of "weQueue env" "weMsg env" now nowMs pick ?u p data "wbLims w ! p" "wbServer w" renv]
  show ?thesis
  proof (elim disjE exE conjE)
    fix m q
    assume "HasPlayer (lRoom (sLoop (slSys (hSlots (svRooms (wbServer w)) ! q)))) ?u"
      "svRooms (snd (onMessage (weQueue env) (weMsg env) now nowMs pick ?u p data (wbLims w ! p, wbServer w))) =
        (svRooms (wbServer w))\<lparr>hSlots := onSlot q (\<lambda>S. the (step renv
           (Arrive \<lparr>cmdPlayer = ?u, cmdType = wmType m, cmdData = wmData m\<rparr>) S)) (hSlots (svRooms (wbServer w)))\<rparr>"
    from handsOverI [OF this(2) [folded w']] this(1) show ?thesis by simp
  qed (simp add: w')
qed

lemma webStep_rooms:
  "svRooms (wbServer (fst (webStep env now e w))) = svRooms (wbServer w) \<or> (\<exists>m q. e = Elsewhere m q) \<or>
   (\<exists>p. reading w p \<and> (e = Hangup p \<or> (\<exists>data nowMs pick. e = Frame p data nowMs pick)) \<and>
      handsOver renv p w (fst (webStep env now e w)))"
proof (cases e)
  case (Http r salt rnd upgrade pick)
  from serveHttp_server [OF this, of env now w] show ?thesis by (auto simp: openConn_rest)
next
  case (Frame p data nowMs pick)
  then show ?thesis using handsOver_frame [of env now nowMs p data pick w renv] by auto
next
  case (Hangup p)
  then show ?thesis using handsOver_close [of "weQueue env" p w renv] by auto
qed simp_all

section \<open>Where the names of a token store come from\<close>

text \<open>
  What the front relies on: the store names a user for a token only while a token of the same
  key that was issued to that user is alive. \<open>sees s t k u\<close>: at time \<open>t\<close> key \<open>k\<close> names \<open>u\<close>.
\<close>

locale token_origin =
  fixes sees :: "'s \<Rightarrow> int \<Rightarrow> string \<Rightarrow> string \<Rightarrow> bool"
    and key :: "string \<Rightarrow> string"
    and life :: "'s \<Rightarrow> int"
    and issue :: "'s issuer"
    and look :: "'s looker"
  assumes look_sees: "snd (look now tok s) = Inr u \<Longrightarrow> sees s now (key tok) u"
    and look_keeps: "sees (fst (look now tok s)) t k u \<Longrightarrow> sees s t k u"
    and issue_sees: "sees (fst (issue now rnd v s)) t k u \<Longrightarrow>
      sees s t k u \<or> (\<exists>tok. newToken rnd = Inr tok \<and> k = key tok \<and> u = v \<and> t < now + life s)"
    and life_same: "life (fst (issue now rnd v s)) = life s" "life (fst (look now tok s)) = life s"
begin

lemma bearer_sees: "snd (PlayerFromToken (look now) h s) = Inr u \<Longrightarrow> sees s now (key (drop 7 h)) u"
  by (auto simp: PlayerFromToken_def intro: look_sees split: if_splits)

lemma bearer_keeps:
  "sees (fst (PlayerFromToken (look now) h s)) t k u \<Longrightarrow> sees s t k u"
  "life (fst (PlayerFromToken (look now) h s)) = life s"
  by (auto simp: PlayerFromToken_def life_same intro: look_keeps split: if_splits)

lemma caller_sees:
  assumes "caller env now w e = Some (tok, u)" "seLook (weSite env) = look"
  shows "sees (siTokens (wbSite w)) now (key tok) u"
proof (cases e)
  case (Http r salt rnd upgrade pick)
  with assms show ?thesis
    by (auto simp: Let_def intro: look_sees bearer_sees split: Routed.splits Handler.splits if_splits sum.splits)
qed (use assms in simp_all)

lemma webStep_sees:
  assumes env: "seIssue (weSite env) = issue" "seLook (weSite env) = look"
    and s: "sees (siTokens (wbSite (fst (webStep env now e w)))) t k u"
  shows "sees (siTokens (wbSite w)) t k u \<or> signsIn env key w e k u \<and> t < now + life (siTokens (wbSite w))"
  using webStep_tokens [of env now e w key] unfolding env
proof (elim disjE exE conjE)
  fix rnd v
  assume t: "siTokens (wbSite (fst (webStep env now e w))) = fst (issue now rnd v (siTokens (wbSite w)))"
    and sign: "\<forall>tok. newToken rnd = Inr tok \<longrightarrow> signsIn env key w e (key tok) v"
  from issue_sees [OF s [unfolded t]] sign show ?thesis by auto
qed (use s look_keeps in auto)

lemma webStep_life:
  assumes env: "seIssue (weSite env) = issue" "seLook (weSite env) = look"
  shows "life (siTokens (wbSite (fst (webStep env now e w)))) = life (siTokens (wbSite w))"
  using webStep_tokens [of env now e w key] unfolding env by (auto simp: life_same)

lemma run_life:
  assumes env: "seIssue (weSite env) = issue" "seLook (weSite env) = look"
  shows "life (siTokens (wbSite (webRun env evs w0))) = life (siTokens (wbSite w0))"
proof (induction evs rule: rev_induct)
  case (snoc x evs)
  then show ?case by (cases x) (simp add: webStep_life [OF env])
qed simp

text \<open>Every name the store knows goes back to a login, or was already there at the start.\<close>

lemma run_origin:
  assumes env: "seIssue (weSite env) = issue" "seLook (weSite env) = look"
  shows "sees (siTokens (wbSite (webRun env evs w0))) t k u \<Longrightarrow>
    signedIn env key (life (siTokens (wbSite w0))) evs w0 (length evs) t k u \<or> sees (siTokens (wbSite w0)) t k u"
proof (induction evs rule: rev_induct)
  case Nil
  then show ?case by simp
next
  case (snoc x evs)
  obtain now e where x: "x = (now, e)" by (cases x)
  from webStep_sees [OF env snoc.prems [unfolded x webRun_snoc]] show ?case
  proof
    assume "sees (siTokens (wbSite (webRun env evs w0))) t k u"
    from snoc.IH [OF this] show ?thesis unfolding signedIn_def
      by (elim disjE exE conjE) (rule disjI1, rule_tac x = j in exI, simp add: nth_append, simp)
  next
    assume "signsIn env key (webRun env evs w0) e k u \<and> t < now + life (siTokens (wbSite (webRun env evs w0)))"
    then show ?thesis unfolding signedIn_def run_life [OF env] x
      by (intro disjI1 exI [of _ "length evs"]) simp
  qed
qed

lemma run_caller:
  assumes "seIssue (weSite env) = issue" "seLook (weSite env) = look"
    and "caller env now (webRun env evs w0) e = Some (tok, u)"
  shows "signedIn env key (life (siTokens (wbSite w0))) evs w0 (length evs) now (key tok) u \<or>
    sees (siTokens (wbSite w0)) now (key tok) u"
  by (rule run_origin [OF assms(1,2) caller_sees [OF assms(3,2)]])

end

lemma signedIn_take: "n \<le> length evs \<Longrightarrow> signedIn env key l (take n evs) w n t k u = signedIn env key l evs w n t k u"
  by (auto simp: signedIn_def min_def)

text \<open>Every connection was opened by a request of its user.\<close>

lemma run_users:
  assumes "svHub (wbServer w0) = newHub" "p < length (hbUsers (svHub (wbServer (webRun env evs w0))))"
  shows "\<exists>i < length evs. \<exists>tok. caller env (fst (evs ! i)) (webRun env (take i evs) w0) (snd (evs ! i)) =
    Some (tok, hbUsers (svHub (wbServer (webRun env evs w0))) ! p)"
  using assms(2)
proof (induction evs rule: rev_induct)
  case Nil
  then show ?case using assms(1) by (simp add: newHub_def)
next
  case (snoc x evs)
  obtain now e where x: "x = (now, e)" by (cases x)
  let ?w = "webRun env evs w0"
  let ?us = "hbUsers (svHub (wbServer ?w))" and ?us' = "hbUsers (svHub (wbServer (fst (webStep env now e ?w))))"
  show ?case
  proof (cases "p < length ?us")
    case True
    then have "?us' ! p = ?us ! p" using webStep_users [of env now e ?w] by (auto simp: nth_append)
    with snoc.IH [OF True] show ?thesis
      by (elim exE conjE) (rule_tac x = i in exI, auto simp: x nth_append)
  next
    case False
    then obtain tok u where "caller env now ?w e = Some (tok, u)" "?us' = ?us @ [u]" "p = length ?us"
      using webStep_users [of env now e ?w] snoc.prems by (auto simp: x)
    then show ?thesis by (intro exI [of _ "length evs"]) (simp add: x)
  qed
qed

text \<open>The store in memory and the one on Redis.\<close>

interpretation memory: token_origin "\<lambda>m t k u. memSees m t k = Some u" "\<lambda>tok. tok" mtTTL memIssue memLookup
proof
  show "memSees (fst (memIssue now rnd v s)) t k = Some u \<Longrightarrow>
      memSees s t k = Some u \<or> (\<exists>tok. newToken rnd = Inr tok \<and> k = tok \<and> u = v \<and> t < now + mtTTL s)" for now rnd v s t k u
    by (cases rnd) (auto simp: memSees_issue mem.issue_fails newToken_def split: if_splits)
  show "memSees (fst (memLookup now tok s)) t k = Some u \<Longrightarrow> memSees s t k = Some u" for now tok s t k u
    by (auto simp: memSees_def memHolds_def memLookup_def delete_conv' split: option.splits if_splits)
qed (auto simp: memLookup_sees mem.issue_works mem.look_keeps(2) memIssue_def split: if_splits option.splits sum.split)

text \<open>
  What the documentation of Redis promises even when calls fail: a \<open>GET\<close> answers only what a \<open>SET\<close>
  has put under the key, until the time to live of that \<open>SET\<close> is over. \<open>vis r t k v\<close>: value \<open>v\<close> could be
  read under \<open>k\<close> at \<open>t\<close>.
\<close>

definition redis_sound :: "'r RedisKV \<Rightarrow> ('r \<Rightarrow> int \<Rightarrow> string \<Rightarrow> string \<Rightarrow> bool) \<Rightarrow> bool" where
  "redis_sound R vis \<longleftrightarrow>
     (\<forall>now k v d r t j x. vis (fst (kvSet R now k v d r)) t j x \<longrightarrow> vis r t j x \<or> j = k \<and> x = v \<and> t < now + d) \<and>
     (\<forall>now k r x. snd (kvGet R now k r) = Inr (Some x) \<longrightarrow> vis r now k x) \<and>
     (\<forall>now k r t j x. vis (fst (kvGet R now k r)) t j x \<longrightarrow> vis r t j x)"

lemma redis_origin:
  assumes "redis_sound R vis"
  shows "token_origin vis (tokenKey digest) (\<lambda>_. ttlOf ttl) (redisIssue R digest ttl) (redisLookup R digest)"
proof
  have R1: "vis (fst (kvSet R now k v d r)) t j x \<Longrightarrow> vis r t j x \<or> j = k \<and> x = v \<and> t < now + d" for now k v d r t j x
    using assms unfolding redis_sound_def by blast
  have R2: "snd (kvGet R now k r) = Inr (Some x) \<Longrightarrow> vis r now k x" for now k r x
    using assms unfolding redis_sound_def by blast
  have R3: "vis (fst (kvGet R now k r)) t j x \<Longrightarrow> vis r t j x" for now k r t j x
    using assms unfolding redis_sound_def by blast
  show "vis s now (tokenKey digest tok) u" if "snd (redisLookup R digest now tok s) = Inr u" for now tok s u
  proof (rule R2)
    show "snd (kvGet R now (tokenKey digest tok) s) = Inr (Some u)"
      using that by (cases "kvGet R now (tokenKey digest tok) s") (simp add: redisLookup_def split: if_splits sum.splits option.splits)
  qed
  have "fst (redisLookup R digest now tok s) = s \<or> fst (redisLookup R digest now tok s) = fst (kvGet R now (tokenKey digest tok) s)"
    for now tok s
    by (cases "kvGet R now (tokenKey digest tok) s") (simp add: redisLookup_def split: sum.split option.split)
  then show "vis s t k u" if "vis (fst (redisLookup R digest now tok s)) t k u" for now tok s t k u
    using that R3 by metis
  show "vis s t k u \<or> (\<exists>tok. newToken rnd = Inr tok \<and> k = tokenKey digest tok \<and> u = v \<and> t < now + ttlOf ttl)"
    if vis: "vis (fst (redisIssue R digest ttl now rnd v s)) t k u" for now rnd v s t k u
  proof (cases "newToken rnd")
    case (Inl e)
    with vis show ?thesis by (simp add: redisIssue_def)
  next
    case (Inr tok)
    then have "fst (redisIssue R digest ttl now rnd v s) = fst (kvSet R now (tokenKey digest tok) v (ttlOf ttl) s)"
      by (cases "kvSet R now (tokenKey digest tok) v (ttlOf ttl) s") (simp add: redisIssue_def split: option.split)
    with R1 vis Inr show ?thesis by metis
  qed
qed simp_all

section \<open>Without a token\<close>

text \<open>The answers that show something: all but the errors, the bare codes and no answer.\<close>

fun discloses :: "Answer \<Rightarrow> bool" where
  "discloses (Api _ (ErrorBody _)) = False"
| "discloses (Api _ _) = True"
| "discloses (ReportPage _ (PageError _)) = False"
| "discloses (ReportPage _ _) = True"
| "discloses (MetricsText _) = True"
| "discloses (WsOpen _) = True"
| "discloses _ = False"

lemma Savedecks_stranger:
  assumes "\<And>u. snd (PlayerFromToken (seLook env now) (rqAuth r) (siTokens s)) \<noteq> Inr u"
  shows "siUsers (fst (Savedecks env ct now text r s)) = siUsers s"
    and "\<exists>m. snd (snd (Savedecks env ct now text r s)) = ErrorBody m"
  using assms by (cases "PlayerFromToken (seLook env now) (rqAuth r) (siTokens s)";
      auto simp: Savedecks_def split: sum.split)+

lemma pages_stranger:
  assumes "\<And>u. snd (PlayerFromToken (look now) auth t) \<noteq> Inr u"
  shows "\<exists>m. snd (snd (ListReports look src atoi now auth q t)) = PageError m"
    and "\<exists>m. snd (snd (ReplayReport look src build now auth room t)) = PageError m"
  using assms by (cases "PlayerFromToken (look now) auth t";
      auto simp: ListReports_def ReplayReport_def split: sum.split)+

text \<open>
  A request that is no login and has no caller changes nothing and is shown nothing but the
  metrics page, which is public.
\<close>

lemma stranger:
  fixes w :: "('u, 's, 'r) Web"
  assumes e: "e = Http r salt rnd upgrade pick" and no: "caller env now w e = None"
    and "\<And>vs. muxRoute (weUnescape env) (rqMethod r) (rqPath r) \<noteq> Serve HLogin vs"
  shows "wbServer (fst (webStep env now e w)) = wbServer w \<and> siUsers (wbSite (fst (webStep env now e w))) = siUsers (wbSite w) \<and>
    (\<not> discloses (snd (webStep env now e w)) \<or>
     (\<exists>vs. muxRoute (weUnescape env) (rqMethod r) (rqPath r) = Serve HMetrics vs) \<and>
     snd (webStep env now e w) = MetricsText (Metrics (wbServer w)))"
proof (cases "muxRoute (weUnescape env) (rqMethod r) (rqPath r)")
  case (Serve h vs)
  show ?thesis
  proof (cases h)
    case HLogin
    with assms(3) Serve show ?thesis by blast
  next
    case HDecks
    then have "\<And>u. snd (PlayerFromToken (seLook (siteEnv env) now) (rqAuth (Request.truncate r)) (siTokens (wbSite w))) \<noteq> Inr u"
      using no by (auto simp: e Serve Let_def split: sum.splits)
    from Savedecks_stranger [OF this, of "weCat env" "weErrText env"] show ?thesis
      by (auto simp: e serveHttp_def Serve HDecks serveApi_def Let_def case_prod_unfold)
  next
    case HWs
    with no show ?thesis
      by (auto simp: e serveHttp_def Serve serveWs_def admitWs_def Let_def case_prod_unfold split: sum.splits if_splits)
  next
    case HMetrics
    then show ?thesis by (simp add: e serveHttp_def Serve Let_def)
  next
    case HReports
    then have "\<And>u. snd (PlayerFromToken (seLook (weSite env) now) (rqAuth r) (siTokens (wbSite w))) \<noteq> Inr u"
      using no by (auto simp: e Serve Let_def split: sum.splits)
    from pages_stranger(1) [of "seLook (weSite env)", OF this, of "weReports env (siUsers (wbSite w))" "weAtoi env" "rqLimit r"]
    show ?thesis by (auto simp: e serveHttp_def Serve HReports servePage_def Let_def case_prod_unfold)
  next
    case HReplay
    then have "\<And>u. snd (PlayerFromToken (seLook (weSite env) now) (rqAuth r) (siTokens (wbSite w))) \<noteq> Inr u"
      using no by (auto simp: e Serve Let_def split: sum.splits)
    from pages_stranger(2) [of "seLook (weSite env)", OF this, of "weReports env (siUsers (wbSite w))" "weBuild env"
        "case vs of v # _ \<Rightarrow> v | [] \<Rightarrow> []"]
    show ?thesis by (auto simp: e serveHttp_def Serve HReplay servePage_def Let_def case_prod_unfold)
  qed
qed (simp_all add: e serveHttp_def Let_def)

section \<open>Properties\<close>

text \<open>
  C6. Nobody can pass for another player. In every run of the server, with the tokens in Redis:
  whenever a request is taken for a user, it presents a token made when that user logged in
  during the run with the right password, or one with the same SHA-256, which has not expired;
  or a token that was already alive for that user when the process started, since tokens
  survive a restart. Every connection was opened by such a request of its user. A request
  without such a token that is not a login changes neither accounts, connections nor rooms,
  and is shown nothing but the public page of the metrics. And the clients' commands reach the
  rooms from connections only, each naming the user of its connection, in a room of theirs (or
  as the \<open>leave\<close> of a connection that ends).
\<close>
theorem no_impersonation:
  fixes w0 :: "('u, 'k, 'r) Web"
  assumes "redis_sound R vis"
    and "seIssue (weSite env) = redisIssue R digest ttl" and "seLook (weSite env) = redisLookup R digest"
    and "svHub (wbServer w0) = newHub"
  shows "let w = webRun env evs w0; w' = fst (webStep env now e w); us = hbUsers (svHub (wbServer w));
      signed = (\<lambda>n t tok u. signedIn env (tokenKey digest) (ttlOf ttl) evs w0 n t (tokenKey digest tok) u \<or>
        vis (siTokens (wbSite w0)) t (tokenKey digest tok) u)
    in
      (\<forall>tok u. caller env now w e = Some (tok, u) \<longrightarrow> signed (length evs) now tok u) \<and>
      (\<forall>p < length us. \<exists>i < length evs. \<exists>tok.
         caller env (fst (evs ! i)) (webRun env (take i evs) w0) (snd (evs ! i)) = Some (tok, us ! p) \<and>
         signed i (fst (evs ! i)) tok (us ! p)) \<and>
      (\<forall>r salt rnd upgrade pick. e = Http r salt rnd upgrade pick \<and> caller env now w e = None \<and>
         (\<forall>vs. muxRoute (weUnescape env) (rqMethod r) (rqPath r) \<noteq> Serve HLogin vs) \<longrightarrow>
         wbServer w' = wbServer w \<and> siUsers (wbSite w') = siUsers (wbSite w) \<and>
         (\<not> discloses (snd (webStep env now e w)) \<or>
          (\<exists>vs. muxRoute (weUnescape env) (rqMethod r) (rqPath r) = Serve HMetrics vs) \<and>
          snd (webStep env now e w) = MetricsText (Metrics (wbServer w)))) \<and>
      (svRooms (wbServer w') = svRooms (wbServer w) \<or> (\<exists>m q. e = Elsewhere m q) \<or>
       (\<exists>p. reading w p \<and> (e = Hangup p \<or> (\<exists>data nowMs pick. e = Frame p data nowMs pick)) \<and> handsOver renv p w w'))"
proof -
  let ?key = "tokenKey digest" and ?w = "webRun env evs w0"
  let ?us = "hbUsers (svHub (wbServer ?w))"
  note calls = token_origin.run_caller [OF redis_origin [OF assms(1)] assms(2,3)]
  have conns: "\<exists>i < length evs. \<exists>tok.
      caller env (fst (evs ! i)) (webRun env (take i evs) w0) (snd (evs ! i)) = Some (tok, ?us ! p) \<and>
      (signedIn env ?key (ttlOf ttl) evs w0 i (fst (evs ! i)) (?key tok) (?us ! p) \<or>
       vis (siTokens (wbSite w0)) (fst (evs ! i)) (?key tok) (?us ! p))" if p: "p < length ?us" for p
  proof -
    obtain i tok where i: "i < length evs"
      "caller env (fst (evs ! i)) (webRun env (take i evs) w0) (snd (evs ! i)) = Some (tok, ?us ! p)"
      using run_users [OF assms(4) p] by blast
    from calls [OF i(2)] i show ?thesis by (auto simp: signedIn_take min_def)
  qed
  show ?thesis
    unfolding Let_def
  proof (intro conjI)
    show "\<forall>tok u. caller env now ?w e = Some (tok, u) \<longrightarrow>
        signedIn env ?key (ttlOf ttl) evs w0 (length evs) now (?key tok) u \<or> vis (siTokens (wbSite w0)) now (?key tok) u"
      using calls by blast
  qed (use conns stranger [of e _ _ _ _ _ env now ?w] webStep_rooms [of env now e ?w renv] in blast)+
qed

text \<open>Alice logs in and connects.\<close>

definition sample_web_env :: "(string \<Rightarrow> (int \<times> string) DBResult, string \<Rightarrow> (string \<times> int) option, ZKey \<Rightarrow> (string, real) alist) WebEnv" where
  "sample_web_env =
     \<lparr>weSite = \<lparr>seDB = sample_users_db, seBcrypt = sample_bcrypt, seIssue = redisIssue sample_redis id 0,
        seLook = redisLookup sample_redis id, seLoginReq = (\<lambda>b. Some \<lparr>lrUsername = ''alice'', lrPassword = b\<rparr>),
        seDeckReq = (\<lambda>_. None), seSplit = (\<lambda>_. None)\<rparr>,
      weCat = sample_catalog, weErrText = (\<lambda>_. []), weUnescape = id, weHostOf = (\<lambda>_. None), weOrigins = [],
      weReports = (\<lambda>_. sample_reports None), weBuild = (\<lambda>_. Inl (BadDecks [])), weAtoi = (\<lambda>_. None),
      weQueue = sample_zdb, weMsg = sample_msg_env\<rparr>"

definition sample_web :: "(string \<Rightarrow> (int \<times> string) DBResult, string \<Rightarrow> (string \<times> int) option, ZKey \<Rightarrow> (string, real) alist) Web" where
  "sample_web =
     \<lparr>wbSite = \<lparr>siUsers = siUsers sample_site, siTokens = (\<lambda>_. None), siLimiter = None, siCompared = []\<rparr>,
      wbServer = \<lparr>svHub = newHub, svRooms = NewManager, svQueue = sample_queue\<rparr>, wbLims = []\<rparr>"

definition sample_request :: "string \<Rightarrow> string \<Rightarrow> string \<Rightarrow> string \<Rightarrow> WebRequest" where
  "sample_request m path body tok = \<lparr>rqMethod = m, rqRemote = [], rqAuth = [], rqBody = body, rqPath = path, rqHost = [],
     rqOrigin = [], rqToken = tok, rqLimit = []\<rparr>"

lemma sample_redis_sound:
  "redis_sound sample_redis (\<lambda>r t k v. case r k of None \<Rightarrow> False | Some (x, e) \<Rightarrow> x = v \<and> t < e)"
  by (auto simp: redis_sound_def sample_redis_def split: option.split)

lemma sample_signIn:
  "siTokens (wbSite (webRun sample_web_env
      [(0, Http (sample_request ''POST'' ''/login'' ''secret'' []) 0 (Inr [1, 2, 3]) None True)] sample_web)) =
    [tokenKey id (base64url [1, 2, 3]) \<mapsto> (''alice'', TokenTTL)]"
proof -
  have "muxRoute id ''POST'' ''/login'' = Serve HLogin []"
    by (simp add: muxRoute_serve segments_def cleanPath_def)
  then show ?thesis
    by (simp add: webRun_def serveHttp_def serveApi_def sample_web_env_def sample_web_def sample_request_def siteEnv_def
        readJSON_def Login_def limitLogin_def sample_users_db_def sample_site_def checkPassword_def isBcryptHash_def
        redisIssue_def newToken_def sample_redis_def ttlOf_def Let_def Request.truncate_def)
qed

theorem no_impersonation_witness:
  "signedIn sample_web_env (tokenKey id) (ttlOf 0)
     [(0, Http (sample_request ''POST'' ''/login'' ''secret'' []) 0 (Inr [1, 2, 3]) None True)] sample_web 1
     5 (tokenKey id (base64url [1, 2, 3])) ''alice''"
proof -
  let ?evs = "[(0, Http (sample_request ''POST'' ''/login'' ''secret'' []) 0 (Inr [1, 2, 3]) None True)]"
    and ?e = "Http (sample_request ''GET'' ''/ws'' [] (base64url [1, 2, 3])) 0 (Inr []) None True"
  have "muxRoute id ''GET'' ''/ws'' = Serve HWs []"
    by (simp add: muxRoute_serve segments_def cleanPath_def)
  then have "caller sample_web_env 5 (webRun sample_web_env ?evs sample_web) ?e = Some (base64url [1, 2, 3], ''alice'')"
    using sample_signIn
    by (simp add: sample_web_env_def sample_request_def checkOrigin_def redisLookup_def sample_redis_def TokenTTL_def base64url_def Let_def)
  moreover have "seIssue (weSite sample_web_env) = redisIssue sample_redis id 0"
    "seLook (weSite sample_web_env) = redisLookup sample_redis id" "svHub (wbServer sample_web) = newHub"
    by (simp_all add: sample_web_env_def sample_web_def)
  ultimately show ?thesis
    using no_impersonation [OF sample_redis_sound, of sample_web_env id 0 sample_web ?evs 5 ?e]
    by (simp add: sample_web_def Let_def)
qed

end
