(* ===== verification/Spec2Isabelle.thy ===== *)
theory Spec2Isabelle
  imports Battle_Seen Room_Timers Server_Run Metrics_Page Replay_Tool Wire Slots Bot_Finish Bot_Main Web_Front
begin

text \<open>
  A model of the card game server \<open>pet\<close> (Go) and of its tools, with the theorems that make it
  correct. All paths are those of the repository.

  \<^bold>\<open>The program.\<close> Two players log in over HTTP, connect by a websocket and queue. The
  matchmaker pairs them by rating, \<open>server/main.go\<close> deals a game from their saved decks and
  starts a room for it. The room is a goroutine that owns the game: it takes the commands of
  both players from a channel, plays them by the rules of \<open>internal/battle\<close>, sends each player
  a view, ends turns that take too long, and keeps a log with a checksum of every state. When
  the game is over, a player stays away or the server stops, the room makes one report, which
  is stored in MySQL. A report can be listed, rebuilt into frames for a replay page, and checked
  in a batch. Bots and a load test play against the server over the same messages.

  \<^bold>\<open>Theories and sources.\<close>
  \<^item> \<open>Prelude\<close>: two-element arrays, slice idioms, decimal printing.
  \<^item> \<open>Deck\<close>: \<open>internal/deck/deck.go\<close>, the card table and deck validation; locale \<open>card_catalog\<close>.
  \<^item> \<open>Battle_Model\<close>, \<open>Battle_State\<close>, \<open>Battle_Apply\<close>, \<open>Battle_View\<close>, \<open>Checksum\<close>: the files of
    \<open>internal/battle\<close>. A game is the record \<open>State\<close>; every function of the package is one
    definition that returns the state it leaves and the error it reports.
  \<^item> \<open>Rules\<close>, \<open>Battle_Replay\<close>: \<open>replay.go\<close> over the interface \<open>rules\<close> (an \<open>apply\<close> with an invariant
    and a number that decreases), interpreted by \<open>Apply\<close>.
  \<^item> \<open>Battle_Inv\<close>, \<open>Battle_Game\<close>, \<open>Battle_Progress\<close>, \<open>Battle_Bounds\<close>: the invariant \<open>wf_state\<close>, the
    reachable states \<open>game\<close>, the checker of \<open>fuzz_test.go\<close>, the measure \<open>fuel\<close> and the size of
    every number. \<open>Battle_Props\<close>, \<open>Battle_Actions\<close>, \<open>Battle_Seen\<close>: the properties of the rules.
  \<^item> \<open>Room_Model\<close>, \<open>Room_Steps\<close>: \<open>internal/room\<close>, the handlers and the loop of \<open>Run\<close>; one \<open>step\<close> is
    one event (a command arrives, the loop takes a ready case of its select, time passes, the
    server is cancelled). \<open>Room_Inv\<close>, \<open>Room_Run\<close>, \<open>Room_Refine\<close>, \<open>Room_Live\<close>: its invariant, that
    it refines the rules, and that it finishes. \<open>Room_Props\<close>, \<open>Room_Timers\<close>: its properties, in the
    second those of the two timers and of a room left alone.
  \<^item> \<open>Room_Manager\<close>: \<open>manager.go\<close>, rooms as pointers into the list of all rooms ever made.
  \<^item> \<open>Battle_Report\<close>, \<open>Replay_Build\<close>, \<open>Replay_Props\<close>: the stored row and \<open>internal/replay/replay.go\<close>.
  \<^item> \<open>Match\<close>: \<open>internal/match/match.go\<close>. \<open>Server_Match\<close>: the callback of a match in
    \<open>server/main.go\<close>, with the decks it deals. \<open>Server_Run\<close>: \<open>run\<close> itself, from the start of the
    process to its shutdown, as a step relation over the goroutines.
  \<^item> \<open>Tokens\<close>, \<open>Rate_Limits\<close>, \<open>Accounts\<close>, \<open>Connections\<close>, \<open>Wire\<close>, \<open>Report_Pages\<close>, \<open>Metrics_Page\<close>:
    \<open>internal/auth\<close>; locales \<open>token_store\<close> and \<open>user_store\<close> for the two stores it uses. \<open>Web_Front\<close>: the
    routes of \<open>server/main.go\<close> over all of them, one step for each request or message of a run of
    the whole server; locale \<open>token_origin\<close> for what a store's answers go back to.
  \<^item> \<open>Slots\<close>: the channels that bound concurrent bcrypt calls (\<open>password.go\<close>) and the logins of the load
    test, behind the locale \<open>semaphore\<close>.
  \<^item> \<open>Storage\<close>: \<open>internal/store\<close> as operations on the tables of \<open>deployments/init.sql\<close>.
  \<^item> \<open>Strategy\<close>, \<open>Bot_Client\<close>: \<open>scripts/bot/strategy.go\<close> and \<open>client.go\<close>. \<open>Bot_Table\<close>, \<open>Bot_Finish\<close>: two
    bots and a room as one step relation \<open>moves\<close>. \<open>Load_Test\<close>, \<open>Bot_Main\<close>:
    \<open>loadtest.go\<close> and \<open>main.go\<close> beside them; \<open>Metrics_Page\<close> has the reader of the metrics. \<open>Batch_Check\<close>,
    \<open>Replay_Tool\<close>: \<open>scripts/replay/main.go\<close>.
  \<^item> \<open>Sample\<close>, \<open>Room_Sample\<close>: concrete games and rooms, on which every property with a
    hypothesis is applied once (the theorems named \<open>..._witness\<close>).

  \<^bold>\<open>What is shown.\<close> The rules keep their invariant, every branch of every action has its effect
  and its errors, games are finite and their numbers small, replay reproduces a game, and
  players learn nothing about hidden cards. The room logs exactly the accepted actions, its log
  replays to its battle at every moment, its timers are armed exactly when needed and for the
  right moment, and it ends with one report; left alone it finishes by turn timeouts, or is
  abandoned or aborted. A report that a room made is stored, read back, accepted and shown as it was
  played, to its players only. The matchmaker loses nobody and pairs nobody twice; a pair gets a
  room with two valid decks. A user has one connection; its messages reach the wire in order
  and only carry commands of that user. Logins keep exactly the accepted credentials and
  refusals look alike; tokens name their user until they expire, and over all runs of the
  server nobody acts or reads as a user without a token of a login of that user (one of an
  earlier run may still be alive in Redis), and sees no more than the metrics page without one;
  limits isolate addresses. A shutdown ends, and the
  reports of the rooms are in the database when \<open>run\<close> returns. The batch check does not depend
  on the schedule of its workers, nor the load test on that of its players; its numbers are
  those of the games, and its exit code tells whether all were played. The bot acts when
  it should and legally, and two bots play every game to its end in a bounded number of moves,
  whatever the order of their moves.

  \<^bold>\<open>Bounds.\<close> Go's \<open>int\<close> is \<open>int\<close> where \<open>game_numbers_bounded\<close> or a range shows that it stays in 64 bits;
  the sequence number of views, the checksum and the seed are words or kept at their width.
  Loops are recursions on lists or on \<open>fuel\<close>: \<open>fuel\<close> is a measure of a game (turns before fatigue
  kills, cards still to play, attacks left), at most seven times the cards of both decks plus
  thirty, and every accepted action decreases it. Goroutines are step relations, so a property
  holds under every schedule; a mutex makes a method one step.

  \<^bold>\<open>Parameters.\<close> What is not in the repository is an argument with named hypotheses: the swaps of
  \<open>rand.Shuffle\<close> and \<open>Intn\<close>, \<open>encoding/json\<close> (\<open>json_ok\<close>: what was marshalled reads back), the YAML
  parser, Redis (\<open>redis_ok\<close>, \<open>redis_sound\<close> and the sorted sets of \<open>Match\<close>), bcrypt (\<open>bcrypt_ok\<close>, and
  \<open>bcrypt_exact\<close>: a hash accepts no other password of at most 72 bytes without NUL), SHA-256, the
  random source, MySQL's collation, JSON column and order of equal keys (\<open>SQL\<close>), driver errors,
  the clock, and whether a call of \<open>Out\<close> panics. A \<open>float64\<close> is a real number; rounding is not
  modelled.

  \<^bold>\<open>Not modelled.\<close> The parsing of flags, headers and the transport of HTTP and the websocket; column
  widths; the text of log lines and of printed lines (\<open>loadReport.print\<close>, units and widths of \<open>frameLine\<close>); the timing of
  the load test and its rates per second; the web page. They are input and output around the parts above or calls into libraries.
\<close>

end
